theory Spec2Isabelle
  imports Main "HOL-Library.Word"
begin

unbundle bit_operations_syntax

section \<open>The heap of nodes\<close>

text \<open>
  A \<^verbatim>\<open>*Node\<close> is an address into a heap of node records, or nil (\<open>None\<close>).
  The \<^verbatim>\<open>*Meta\<close> of a node is owned by that node alone (\<^verbatim>\<open>NewColNode\<close> and
  \<^verbatim>\<open>NewSparseMatrix\<close> allocate one per header), so it is stored in the node.
  \<^verbatim>\<open>uint\<close> is taken at 64 bits.
\<close>

type_synonym addr = nat

record meta =
  Size :: "64 word"
  Name :: string

record node =
  Right :: "addr option"
  Up :: "addr option"
  Left :: "addr option"
  Down :: "addr option"
  Col :: "addr option"
  Meta :: "meta option"

text \<open>
  What a run can end in besides a value: a nil dereference, an index out of range, or
  an explicit \<^verbatim>\<open>panic\<close> with its message. \<open>InvalidAddr\<close> is the read of an address
  outside the heap, which no Go pointer can be; it keeps the heap lookups total.
\<close>

datatype error = NilDeref | InvalidAddr | IndexOutOfRange | PanicMsg string

text \<open>The lines written by \<^verbatim>\<open>log.Println\<close>, one constructor per call site.\<close>

datatype event =
  LogCover string
  | LogUncover string
  | LogDepth int
  | LogGuess string "64 word" bool

text \<open>
  The state a call works on: the heap, the log, and what \<^verbatim>\<open>fmt.Println(O)\<close> has
  written to standard output (one entry per call: the text of \<^verbatim>\<open>O.String()\<close>, or the
  panic of \<^verbatim>\<open>String\<close> that \<^verbatim>\<open>fmt\<close> recovers from and prints).
\<close>

record state =
  heap :: "node list"
  logged :: "event list"
  printed :: "(error + string) list"

text \<open>
  A computation returns \<open>None\<close> when it does not return, \<open>Some (Inl e)\<close> when it
  panics with \<open>e\<close>, and \<open>Some (Inr v)\<close> when it returns \<open>v\<close>.
\<close>

type_synonym 'a comp = "(error + 'a) option"

definition ok :: "'a \<Rightarrow> 'a comp" where
  "ok v = Some (Inr v)"

definition panic :: "error \<Rightarrow> 'a comp" where
  "panic e = Some (Inl e)"

definition bnd :: "'a comp \<Rightarrow> ('a \<Rightarrow> 'b comp) \<Rightarrow> 'b comp" where
  "bnd m f = (case m of None \<Rightarrow> None | Some (Inl e) \<Rightarrow> Some (Inl e) | Some (Inr v) \<Rightarrow> f v)"

lemma bnd_ok [simp]: "bnd (ok v) f = f v"
  by (simp add: bnd_def ok_def)

lemma bnd_panic [simp]: "bnd (panic e) f = panic e"
  by (simp add: bnd_def panic_def)

lemma bnd_None [simp]: "bnd None f = None"
  by (simp add: bnd_def)

lemma bnd_weak_cong [cong]: "m = m' \<Longrightarrow> bnd m f = bnd m' f"
  by simp

lemma bnd_mono [partial_function_mono]:
  fixes B :: "('a \<Rightarrow> 'b option) \<Rightarrow> 'c comp"
  assumes "mono_option B" and "\<And>y. mono_option (\<lambda>f. C y f)"
  shows "mono_option (\<lambda>f. bnd (B f) (\<lambda>y. C y f))"
proof (rule monotoneI)
  fix f g :: "'a \<Rightarrow> 'b option"
  assume le: "fun_ord option_ord f g"
  have "option_ord (B f) (B g)"
    using assms(1) le by (simp add: monotone_def)
  then have b: "B f = None \<or> B f = B g"
    by (simp add: flat_ord_def)
  have "option_ord (C y f) (C y g)" for y
    using assms(2) [of y] le by (simp add: monotone_def)
  then have c: "C y f = None \<or> C y f = C y g" for y
    by (simp add: flat_ord_def)
  show "option_ord (bnd (B f) (\<lambda>y. C y f)) (bnd (B g) (\<lambda>y. C y g))"
  proof (cases "B f")
    case None
    then show ?thesis by (simp add: flat_ord_def)
  next
    case (Some r)
    with b have eq: "B g = Some r" by simp
    show ?thesis
    proof (cases r)
      case (Inl e)
      with Some eq show ?thesis by (simp add: bnd_def flat_ord_def)
    next
      case (Inr v)
      with Some eq c [of v] show ?thesis by (auto simp: bnd_def flat_ord_def)
    qed
  qed
qed

text \<open>Reading and writing a node through a pointer; a nil pointer panics.\<close>

definition node_at :: "state \<Rightarrow> addr option \<Rightarrow> node comp" where
  "node_at s p =
     (case p of
        None \<Rightarrow> panic NilDeref
      | Some a \<Rightarrow> if a < length (heap s) then ok (heap s ! a) else panic InvalidAddr)"

definition get :: "(node \<Rightarrow> 'a) \<Rightarrow> state \<Rightarrow> addr option \<Rightarrow> 'a comp" where
  "get f s p = bnd (node_at s p) (\<lambda>n. ok (f n))"

definition upd_node :: "state \<Rightarrow> addr option \<Rightarrow> (node \<Rightarrow> node) \<Rightarrow> state comp" where
  "upd_node s p f =
     (case p of
        None \<Rightarrow> panic NilDeref
      | Some a \<Rightarrow>
          if a < length (heap s) then ok (s\<lparr>heap := (heap s)[a := f (heap s ! a)]\<rparr>)
          else panic InvalidAddr)"

text \<open>\<^verbatim>\<open>p.Meta.Name\<close> and \<^verbatim>\<open>p.Meta.Size\<close>: \<open>p\<close> and its \<open>Meta\<close> must not be nil.\<close>

definition meta_at :: "state \<Rightarrow> addr option \<Rightarrow> meta comp" where
  "meta_at s p =
     bnd (get Meta s p) (\<lambda>m. case m of None \<Rightarrow> panic NilDeref | Some mt \<Rightarrow> ok mt)"

text \<open>\<^verbatim>\<open>p.Meta.Size++\<close> and \<^verbatim>\<open>p.Meta.Size--\<close> on a \<^verbatim>\<open>uint\<close>: they wrap around.\<close>

definition add_size :: "64 word \<Rightarrow> state \<Rightarrow> addr option \<Rightarrow> state comp" where
  "add_size d s p =
     bnd (meta_at s p) (\<lambda>mt. upd_node s p (\<lambda>n. n\<lparr>Meta := Some (mt\<lparr>Size := Size mt + d\<rparr>)\<rparr>))"

definition log_event :: "event \<Rightarrow> state \<Rightarrow> state" where
  "log_event e s = s\<lparr>logged := logged s @ [e]\<rparr>"

section \<open>Cover and Uncover\<close>

text \<open>
  The body of the inner loop of \<^verbatim>\<open>Cover\<close>:
  \<^verbatim>\<open>j.Down.Up = j.Up; j.Up.Down = j.Down; j.Col.Meta.Size--\<close>.
\<close>

definition cover_cell :: "addr option \<Rightarrow> state \<Rightarrow> state comp" where
  "cover_cell j s =
     bnd (get Down s j) (\<lambda>d. bnd (get Up s j) (\<lambda>u.
     bnd (upd_node s d (\<lambda>n. n\<lparr>Up := u\<rparr>)) (\<lambda>s1.
     bnd (get Up s1 j) (\<lambda>u1. bnd (get Down s1 j) (\<lambda>d1.
     bnd (upd_node s1 u1 (\<lambda>n. n\<lparr>Down := d1\<rparr>)) (\<lambda>s2.
     bnd (get Col s2 j) (\<lambda>c. add_size (- 1) s2 c)))))))"

text \<open>\<^verbatim>\<open>for j := i.Right; j != i; j = j.Right { ... }\<close>, from the current \<open>j\<close>.\<close>

partial_function (option) cover_row :: "addr option \<Rightarrow> addr option \<Rightarrow> state \<Rightarrow> state comp" where
  "cover_row i j s =
     (if j = i then ok s
      else bnd (cover_cell j s) (\<lambda>s1. bnd (get Right s1 j) (\<lambda>j1. cover_row i j1 s1)))"

text \<open>\<^verbatim>\<open>for i := c.Down; i != c; i = i.Down { ... }\<close>, from the current \<open>i\<close>.\<close>

partial_function (option) cover_rows :: "addr option \<Rightarrow> addr option \<Rightarrow> state \<Rightarrow> state comp" where
  "cover_rows c i s =
     (if i = c then ok s
      else bnd (get Right s i) (\<lambda>j. bnd (cover_row i j s) (\<lambda>s1.
           bnd (get Down s1 i) (\<lambda>i1. cover_rows c i1 s1))))"

definition Cover :: "addr option \<Rightarrow> state \<Rightarrow> state comp" where
  "Cover c s =
     bnd (meta_at s c) (\<lambda>mt.
     bnd (ok (log_event (LogCover (Name mt)) s)) (\<lambda>s0.
     bnd (get Right s0 c) (\<lambda>r. bnd (get Left s0 c) (\<lambda>l.
     bnd (upd_node s0 r (\<lambda>n. n\<lparr>Left := l\<rparr>)) (\<lambda>s1.
     bnd (get Left s1 c) (\<lambda>l1. bnd (get Right s1 c) (\<lambda>r1.
     bnd (upd_node s1 l1 (\<lambda>n. n\<lparr>Right := r1\<rparr>)) (\<lambda>s2.
     bnd (get Down s2 c) (\<lambda>i. cover_rows c i s2)))))))))"

text \<open>
  The body of the inner loop of \<^verbatim>\<open>Uncover\<close>:
  \<^verbatim>\<open>j.Col.Meta.Size++; j.Down.Up = j; j.Up.Down = j\<close>.
\<close>

definition uncover_cell :: "addr option \<Rightarrow> state \<Rightarrow> state comp" where
  "uncover_cell j s =
     bnd (get Col s j) (\<lambda>c. bnd (add_size 1 s c) (\<lambda>s1.
     bnd (get Down s1 j) (\<lambda>d. bnd (upd_node s1 d (\<lambda>n. n\<lparr>Up := j\<rparr>)) (\<lambda>s2.
     bnd (get Up s2 j) (\<lambda>u. upd_node s2 u (\<lambda>n. n\<lparr>Down := j\<rparr>))))))"

partial_function (option) uncover_row :: "addr option \<Rightarrow> addr option \<Rightarrow> state \<Rightarrow> state comp" where
  "uncover_row i j s =
     (if j = i then ok s
      else bnd (uncover_cell j s) (\<lambda>s1. bnd (get Left s1 j) (\<lambda>j1. uncover_row i j1 s1)))"

partial_function (option) uncover_rows :: "addr option \<Rightarrow> addr option \<Rightarrow> state \<Rightarrow> state comp" where
  "uncover_rows c i s =
     (if i = c then ok s
      else bnd (get Left s i) (\<lambda>j. bnd (uncover_row i j s) (\<lambda>s1.
           bnd (get Up s1 i) (\<lambda>i1. uncover_rows c i1 s1))))"

definition Uncover :: "addr option \<Rightarrow> state \<Rightarrow> state comp" where
  "Uncover c s =
     bnd (meta_at s c) (\<lambda>mt.
     bnd (ok (log_event (LogUncover (Name mt)) s)) (\<lambda>s0.
     bnd (get Up s0 c) (\<lambda>i. bnd (uncover_rows c i s0) (\<lambda>s1.
     bnd (get Right s1 c) (\<lambda>r. bnd (upd_node s1 r (\<lambda>n. n\<lparr>Left := c\<rparr>)) (\<lambda>s2.
     bnd (get Left s2 c) (\<lambda>l. upd_node s2 l (\<lambda>n. n\<lparr>Right := c\<rparr>))))))))"

section \<open>Building the matrix\<close>

text \<open>\<^verbatim>\<open>NewNode\<close>: a fresh node at the next free address, all four links to itself.\<close>

definition NewNode :: "state \<Rightarrow> addr option \<times> state" where
  "NewNode s =
     (Some (length (heap s)),
      s\<lparr>heap := heap s @
        [\<lparr>Right = Some (length (heap s)), Up = Some (length (heap s)),
          Left = Some (length (heap s)), Down = Some (length (heap s)),
          Col = None, Meta = None\<rparr>]\<rparr>)"

definition NewColNode :: "string \<Rightarrow> state \<Rightarrow> (addr option \<times> state) comp" where
  "NewColNode nm s =
     (case NewNode s of (n, s1) \<Rightarrow>
        bnd (upd_node s1 n (\<lambda>x. x\<lparr>Meta := Some \<lparr>Size = 0, Name = nm\<rparr>\<rparr>)) (\<lambda>s2. ok (n, s2)))"

text \<open>\<^verbatim>\<open>n.Right = r; n.Left = r.Left; r.Left.Right = n; r.Left = n\<close>\<close>

definition RowAppend :: "addr option \<Rightarrow> addr option \<Rightarrow> state \<Rightarrow> state comp" where
  "RowAppend r n s =
     bnd (upd_node s n (\<lambda>x. x\<lparr>Right := r\<rparr>)) (\<lambda>s1.
     bnd (get Left s1 r) (\<lambda>l. bnd (upd_node s1 n (\<lambda>x. x\<lparr>Left := l\<rparr>)) (\<lambda>s2.
     bnd (get Left s2 r) (\<lambda>l2. bnd (upd_node s2 l2 (\<lambda>x. x\<lparr>Right := n\<rparr>)) (\<lambda>s3.
     upd_node s3 r (\<lambda>x. x\<lparr>Left := n\<rparr>))))))"

text \<open>
  \<^verbatim>\<open>n.Col = c; n.Down = c; n.Up = c.Up; c.Up.Down = n; c.Up = n; c.Meta.Size++\<close>
\<close>

definition ColAppend :: "addr option \<Rightarrow> addr option \<Rightarrow> state \<Rightarrow> state comp" where
  "ColAppend c n s =
     bnd (upd_node s n (\<lambda>x. x\<lparr>Col := c\<rparr>)) (\<lambda>s1.
     bnd (upd_node s1 n (\<lambda>x. x\<lparr>Down := c\<rparr>)) (\<lambda>s2.
     bnd (get Up s2 c) (\<lambda>u. bnd (upd_node s2 n (\<lambda>x. x\<lparr>Up := u\<rparr>)) (\<lambda>s3.
     bnd (get Up s3 c) (\<lambda>u3. bnd (upd_node s3 u3 (\<lambda>x. x\<lparr>Down := n\<rparr>)) (\<lambda>s4.
     bnd (upd_node s4 c (\<lambda>x. x\<lparr>Up := n\<rparr>)) (\<lambda>s5.
     add_size 1 s5 c)))))))"

text \<open>\<^verbatim>\<open>for _, h := range headers { head := NewColNode(h); root.RowAppend(head) }\<close>\<close>

fun add_headers :: "string list \<Rightarrow> addr option \<Rightarrow> state \<Rightarrow> state comp" where
  "add_headers [] root s = ok s"
| "add_headers (h # hs) root s =
     bnd (NewColNode h s) (\<lambda>(head, s1).
     bnd (RowAppend root head s1) (\<lambda>s2. add_headers hs root s2))"

text \<open>
  The inner loop \<^verbatim>\<open>for j := 0; j < colCount; j++\<close> over one input row, from the
  current \<open>j\<close>, \<open>prev\<close> and \<open>head\<close>. \<^verbatim>\<open>matrix[i][j]\<close> panics past the end of the row.
\<close>

function add_cells ::
  "int list \<Rightarrow> nat \<Rightarrow> nat \<Rightarrow> addr option \<Rightarrow> addr option \<Rightarrow> state \<Rightarrow> state comp" where
  "add_cells row colCount j prev head s =
     (if j < colCount then
        (if j < length row then
           (if row ! j > 0 then
              (case NewNode s of (node, s1) \<Rightarrow>
                 bnd (ColAppend head node s1) (\<lambda>s2.
                 if prev \<noteq> None then
                   bnd (RowAppend prev node s2) (\<lambda>s3.
                   bnd (get Right s3 head) (\<lambda>head1.
                   add_cells row colCount (Suc j) prev head1 s3))
                 else
                   bnd (get Right s2 head) (\<lambda>head1.
                   add_cells row colCount (Suc j) node head1 s2)))
            else
              bnd (get Right s head) (\<lambda>head1.
              add_cells row colCount (Suc j) prev head1 s))
         else panic IndexOutOfRange)
      else ok s)"
  by pat_completeness auto
termination
  by (relation "measure (\<lambda>(row, colCount, j, prev, head, s). colCount - j)") auto

declare add_cells.simps [simp del]

text \<open>\<^verbatim>\<open>for i := 0; i < rowCount; i++ { var prev, head *Node; head = root.Right; ... }\<close>\<close>

fun add_rows :: "int list list \<Rightarrow> nat \<Rightarrow> addr option \<Rightarrow> state \<Rightarrow> state comp" where
  "add_rows [] colCount root s = ok s"
| "add_rows (row # rows) colCount root s =
     bnd (get Right s root) (\<lambda>head.
     bnd (add_cells row colCount 0 None head s) (\<lambda>s1.
     add_rows rows colCount root s1))"

text \<open>
  \<^verbatim>\<open>NewSparseMatrix\<close> returns the root: a node with a \<open>Meta\<close> named "root", \<open>Left\<close> and
  \<open>Right\<close> to itself and \<open>Up\<close>, \<open>Down\<close> and \<open>Col\<close> nil.
\<close>

definition NewSparseMatrix ::
  "int list list \<Rightarrow> string list \<Rightarrow> state \<Rightarrow> (addr option \<times> state) comp" where
  "NewSparseMatrix matrix headers s =
     bnd (ok (Some (length (heap s)),
              s\<lparr>heap := heap s @
                [\<lparr>Right = None, Up = None, Left = None, Down = None, Col = None,
                  Meta = Some \<lparr>Size = 0, Name = ''root''\<rparr>\<rparr>]\<rparr>)) (\<lambda>(root, s0).
     bnd (upd_node s0 root (\<lambda>x. x\<lparr>Left := root\<rparr>)) (\<lambda>s1.
     bnd (upd_node s1 root (\<lambda>x. x\<lparr>Right := root\<rparr>)) (\<lambda>s2.
     bnd (add_headers headers root s2) (\<lambda>s3.
     bnd (add_rows matrix (length headers) root s3) (\<lambda>s4.
     ok (root, s4))))))"

section \<open>Column selection\<close>

text \<open>\<^verbatim>\<open>m.Root()\<close> is \<^verbatim>\<open>m.Left.Right\<close>.\<close>

definition Root :: "addr option \<Rightarrow> state \<Rightarrow> addr option comp" where
  "Root m s = bnd (get Left s m) (\<lambda>l. get Right s l)"

text \<open>
  The loop of \<^verbatim>\<open>SmallestCol\<close>, from the current \<open>col\<close>, with the best column \<open>r\<close> so
  far and its size \<open>mn\<close>.
\<close>

partial_function (option) smallest_loop ::
  "addr option \<Rightarrow> addr option \<Rightarrow> addr option \<Rightarrow> 64 word \<Rightarrow> state \<Rightarrow> addr option comp" where
  "smallest_loop root col r mn s =
     (if col = root then ok r
      else bnd (meta_at s col) (\<lambda>mt.
           if Size mt < mn then
             bnd (get Right s col) (\<lambda>col1. smallest_loop root col1 col (Size mt) s)
           else
             bnd (get Right s col) (\<lambda>col1. smallest_loop root col1 r mn s)))"

definition SmallestCol :: "addr option \<Rightarrow> state \<Rightarrow> addr option comp" where
  "SmallestCol m s =
     bnd (Root m s) (\<lambda>root. bnd (get Right s root) (\<lambda>col.
     smallest_loop root col None (NOT 0) s))"

text \<open>
  The loop of \<^verbatim>\<open>Col\<close>, from the current \<open>col\<close>; leaving the loop is the panic
  \<^verbatim>\<open>Column "name" not found\<close>.
\<close>

definition not_found :: "string \<Rightarrow> string" where
  "not_found name = ''Column '' @ [CHR 0x22] @ name @ [CHR 0x22] @ '' not found''"

partial_function (option) col_loop ::
  "addr option \<Rightarrow> addr option \<Rightarrow> string \<Rightarrow> state \<Rightarrow> addr option comp" where
  "col_loop root col name s =
     (if col = root then panic (PanicMsg (not_found name))
      else bnd (meta_at s col) (\<lambda>mt.
           if Name mt = name then ok col
           else bnd (get Right s col) (\<lambda>col1. col_loop root col1 name s)))"

definition Col_named :: "addr option \<Rightarrow> string \<Rightarrow> state \<Rightarrow> addr option comp" where
  "Col_named m name s =
     bnd (Root m s) (\<lambda>root. bnd (get Right s root) (\<lambda>col. col_loop root col name s))"

section \<open>Solution\<close>

text \<open>The \<^verbatim>\<open>items\<close> slice of a \<^verbatim>\<open>Solution\<close>; an index is a Go \<^verbatim>\<open>int\<close>.\<close>

type_synonym solution = "addr option list"

definition Solution_Set :: "int \<Rightarrow> addr option \<Rightarrow> solution \<Rightarrow> solution comp" where
  "Solution_Set i n items =
     (if i < int (length items) then
        (if 0 \<le> i then ok (items[nat i := n]) else panic IndexOutOfRange)
      else ok (items @ [n]))"

definition Solution_Get :: "int \<Rightarrow> solution \<Rightarrow> addr option comp" where
  "Solution_Get i items =
     (if 0 \<le> i \<and> i < int (length items) then ok (items ! nat i) else panic IndexOutOfRange)"

definition Solution_Len :: "solution \<Rightarrow> int" where
  "Solution_Len items = int (length items)"

text \<open>\<^verbatim>\<open>for m := n.Right; n != m; m = m.Right { o += " " + m.Col.Meta.Name }\<close>\<close>

partial_function (option) string_row ::
  "addr option \<Rightarrow> addr option \<Rightarrow> string \<Rightarrow> state \<Rightarrow> string comp" where
  "string_row n m acc s =
     (if n = m then ok acc
      else bnd (get Col s m) (\<lambda>c. bnd (meta_at s c) (\<lambda>mt.
           bnd (get Right s m) (\<lambda>m1. string_row n m1 (acc @ '' '' @ Name mt) s))))"

fun string_items :: "addr option list \<Rightarrow> string \<Rightarrow> state \<Rightarrow> string comp" where
  "string_items [] acc s = ok acc"
| "string_items (n # ns) acc s =
     (if n \<noteq> None then
        bnd (get Col s n) (\<lambda>c. bnd (meta_at s c) (\<lambda>mt.
        bnd (get Right s n) (\<lambda>m. bnd (string_row n m (acc @ Name mt) s) (\<lambda>acc1.
        string_items ns (acc1 @ [CHR 0x0A]) s))))
      else string_items ns acc s)"

definition Solution_String :: "solution \<Rightarrow> state \<Rightarrow> string comp" where
  "Solution_String items s = string_items items [] s"

section \<open>Search\<close>

text \<open>
  A \<^verbatim>\<open>Guesser\<close> is its \<^verbatim>\<open>ChooseCol\<close>: from the depth and the state to the chosen
  column, the backtrack flag and the state it leaves. The depth is a Go \<^verbatim>\<open>int\<close>, taken
  at 64 bits: a word that is read as a signed number (\<open>sint\<close>), and \<^verbatim>\<open>k+1\<close> wraps around.
\<close>

type_synonym guesser = "64 word \<Rightarrow> state \<Rightarrow> ((addr option \<times> bool) \<times> state) comp"

text \<open>\<^verbatim>\<open>for j := r.Right; j != r; j = j.Right { j.Col.Cover() }\<close> and its mirror.\<close>

partial_function (option) cover_cols :: "addr option \<Rightarrow> addr option \<Rightarrow> state \<Rightarrow> state comp" where
  "cover_cols r j s =
     (if j = r then ok s
      else bnd (get Col s j) (\<lambda>c. bnd (Cover c s) (\<lambda>s1.
           bnd (get Right s1 j) (\<lambda>j1. cover_cols r j1 s1))))"

partial_function (option) uncover_cols :: "addr option \<Rightarrow> addr option \<Rightarrow> state \<Rightarrow> state comp" where
  "uncover_cols r j s =
     (if j = r then ok s
      else bnd (get Col s j) (\<lambda>c. bnd (Uncover c s) (\<lambda>s1.
           bnd (get Left s1 j) (\<lambda>j1. uncover_cols r j1 s1))))"

text \<open>
  \<^verbatim>\<open>fmt.Println(O)\<close>: \<^verbatim>\<open>fmt\<close> calls \<^verbatim>\<open>O.String()\<close> and writes its text; a panic of
  \<^verbatim>\<open>String\<close> is recovered by \<^verbatim>\<open>fmt\<close> and written instead.
\<close>

definition Println :: "solution \<Rightarrow> state \<Rightarrow> state comp" where
  "Println items s =
     (case Solution_String items s of
        None \<Rightarrow> None
      | Some r \<Rightarrow> ok (s\<lparr>printed := printed s @ [r]\<rparr>))"

text \<open>
  \<^verbatim>\<open>Search\<close> and its row loop call each other, so they are one function of a sum:
  \<open>Inl k\<close> is the call \<^verbatim>\<open>m.Search(O, k, g)\<close>, and \<open>Inr (k, c, bt, r)\<close> is the head of
  its loop \<^verbatim>\<open>for r := c.Down; r != c; r = r.Down\<close> with the current \<open>c\<close> and \<open>r\<close>.
  The solution \<open>O\<close> is passed with the state, since the callee writes to it.
\<close>

partial_function (option) Search_at ::
  "guesser \<Rightarrow> addr option \<Rightarrow> 64 word + 64 word \<times> addr option \<times> bool \<times> addr option \<Rightarrow>
   solution \<times> state \<Rightarrow> (solution \<times> state) comp" where
  "Search_at g m pc os =
     (case pc of
        Inl k \<Rightarrow>
          (case os of (items, s) \<Rightarrow>
             bnd (ok (log_event (LogDepth (sint k)) s)) (\<lambda>s0.
             bnd (Root m s0) (\<lambda>root. bnd (get Right s0 root) (\<lambda>r0.
             if r0 = root then bnd (Println items s0) (\<lambda>s1. ok (items, s1))
             else
               bnd (g k s0) (\<lambda>((c, bt), s1). bnd (Cover c s1) (\<lambda>s2.
               bnd (get Down s2 c) (\<lambda>r. Search_at g m (Inr (k, c, bt, r)) (items, s2))))))))
      | Inr (k, c, bt, r) \<Rightarrow>
          (case os of (items, s) \<Rightarrow>
             if r = c then bnd (Uncover c s) (\<lambda>s1. ok (items, s1))
             else
               bnd (Solution_Set (sint k) r items) (\<lambda>items1.
               bnd (get Right s r) (\<lambda>j. bnd (cover_cols r j s) (\<lambda>s1.
               bnd (Search_at g m (Inl (k + 1)) (items1, s1)) (\<lambda>(items2, s2).
               if \<not> bt then ok (items2, s2)
               else
                 bnd (Solution_Get (sint k) items2) (\<lambda>r1. bnd (get Col s2 r1) (\<lambda>c1.
                 bnd (get Left s2 r1) (\<lambda>j1. bnd (uncover_cols r1 j1 s2) (\<lambda>s3.
                 bnd (get Down s3 r1) (\<lambda>r2.
                 Search_at g m (Inr (k, c1, bt, r2)) (items2, s3))))))))))))"

definition Search :: "guesser \<Rightarrow> addr option \<Rightarrow> solution \<Rightarrow> 64 word \<Rightarrow> state \<Rightarrow> (solution \<times> state) comp" where
  "Search g m items k s = Search_at g m (Inl k) (items, s)"

text \<open>
  The default guesser, \<^verbatim>\<open>Solver.ChooseCol\<close>: it logs the name and the size of
  \<^verbatim>\<open>m.SmallestCol()\<close> and returns \<^verbatim>\<open>m.SmallestCol(), true\<close>.
\<close>

definition ChooseCol :: "addr option \<Rightarrow> guesser" where
  "ChooseCol m k s =
     bnd (SmallestCol m s) (\<lambda>c1. bnd (meta_at s c1) (\<lambda>mt1.
     bnd (SmallestCol m s) (\<lambda>c2. bnd (meta_at s c2) (\<lambda>mt2.
     bnd (ok (log_event (LogGuess (Name mt1) (Size mt2) True) s)) (\<lambda>s1.
     bnd (SmallestCol m s1) (\<lambda>c3. ok ((c3, True), s1)))))))"

text \<open>The loops above as code equations, so that closed runs can be evaluated.\<close>

declare cover_row.simps [code] cover_rows.simps [code] uncover_row.simps [code]
  uncover_rows.simps [code] smallest_loop.simps [code] col_loop.simps [code]
  string_row.simps [code] cover_cols.simps [code] uncover_cols.simps [code]
  Search_at.simps [code]

section \<open>Reading the heap in proofs\<close>

text \<open>
  \<open>fld f s a\<close> is field \<open>f\<close> of the node at address \<open>a\<close>, and \<open>upd a g s\<close> the state
  after the node at \<open>a\<close> has been changed by \<open>g\<close>: what \<open>get\<close> and \<open>upd_node\<close> do
  on an address inside the heap.
\<close>

definition fld :: "(node \<Rightarrow> 'a) \<Rightarrow> state \<Rightarrow> addr \<Rightarrow> 'a" where
  "fld f s a = f (heap s ! a)"

definition upd :: "addr \<Rightarrow> (node \<Rightarrow> node) \<Rightarrow> state \<Rightarrow> state" where
  "upd a g s = s\<lparr>heap := (heap s)[a := g (heap s ! a)]\<rparr>"

lemma get_Some [simp]: "a < length (heap s) \<Longrightarrow> get f s (Some a) = ok (fld f s a)"
  by (simp add: get_def node_at_def fld_def)

lemma get_None [simp]: "get f s None = panic NilDeref"
  by (simp add: get_def node_at_def)

lemma upd_node_Some [simp]: "a < length (heap s) \<Longrightarrow> upd_node s (Some a) g = ok (upd a g s)"
  by (simp add: upd_node_def upd_def)

lemma upd_node_None [simp]: "upd_node s None g = panic NilDeref"
  by (simp add: upd_node_def)

lemma length_upd [simp]: "length (heap (upd a g s)) = length (heap s)"
  by (simp add: upd_def)

lemma logged_upd [simp]: "logged (upd a g s) = logged s"
  by (simp add: upd_def)

lemma printed_upd [simp]: "printed (upd a g s) = printed s"
  by (simp add: upd_def)

lemma fld_upd: "fld f (upd a g s) b = (if b = a \<and> a < length (heap s) then f (g (heap s ! a)) else fld f s b)"
  by (cases "a < length (heap s)") (auto simp: fld_def upd_def list_update_beyond)

lemma meta_at_Some [simp]:
  "a < length (heap s) \<Longrightarrow> meta_at s (Some a) = (case fld Meta s a of None \<Rightarrow> panic NilDeref | Some mt \<Rightarrow> ok mt)"
  by (simp add: meta_at_def)

lemma meta_at_None [simp]: "meta_at s None = panic NilDeref"
  by (simp add: meta_at_def)

lemma heap_log_event [simp]: "heap (log_event e s) = heap s"
  by (simp add: log_event_def)

lemma fld_log_event [simp]: "fld f (log_event e s) a = fld f s a"
  by (simp add: fld_def)

lemma fld_upd_other: "(\<And>n. f (g n) = f n) \<Longrightarrow> fld f (upd a g s) b = fld f s b"
  by (cases "a < length (heap s)") (simp_all add: fld_def upd_def nth_list_update list_update_beyond)

lemma fld_upd_Up [simp]:
  "fld Up (upd a (Up_update (\<lambda>_. x)) s) b = (if b = a \<and> a < length (heap s) then x else fld Up s b)"
  "fld Down (upd a (Up_update (\<lambda>_. x)) s) b = fld Down s b"
  "fld Left (upd a (Up_update (\<lambda>_. x)) s) b = fld Left s b"
  "fld Right (upd a (Up_update (\<lambda>_. x)) s) b = fld Right s b"
  "fld Col (upd a (Up_update (\<lambda>_. x)) s) b = fld Col s b"
  "fld Meta (upd a (Up_update (\<lambda>_. x)) s) b = fld Meta s b"
  by (simp_all add: fld_upd_other) (simp add: fld_upd)

lemma fld_upd_Down [simp]:
  "fld Down (upd a (Down_update (\<lambda>_. x)) s) b = (if b = a \<and> a < length (heap s) then x else fld Down s b)"
  "fld Up (upd a (Down_update (\<lambda>_. x)) s) b = fld Up s b"
  "fld Left (upd a (Down_update (\<lambda>_. x)) s) b = fld Left s b"
  "fld Right (upd a (Down_update (\<lambda>_. x)) s) b = fld Right s b"
  "fld Col (upd a (Down_update (\<lambda>_. x)) s) b = fld Col s b"
  "fld Meta (upd a (Down_update (\<lambda>_. x)) s) b = fld Meta s b"
  by (simp_all add: fld_upd_other) (simp add: fld_upd)

lemma fld_upd_Left [simp]:
  "fld Left (upd a (Left_update (\<lambda>_. x)) s) b = (if b = a \<and> a < length (heap s) then x else fld Left s b)"
  "fld Up (upd a (Left_update (\<lambda>_. x)) s) b = fld Up s b"
  "fld Down (upd a (Left_update (\<lambda>_. x)) s) b = fld Down s b"
  "fld Right (upd a (Left_update (\<lambda>_. x)) s) b = fld Right s b"
  "fld Col (upd a (Left_update (\<lambda>_. x)) s) b = fld Col s b"
  "fld Meta (upd a (Left_update (\<lambda>_. x)) s) b = fld Meta s b"
  by (simp_all add: fld_upd_other) (simp add: fld_upd)

lemma fld_upd_Right [simp]:
  "fld Right (upd a (Right_update (\<lambda>_. x)) s) b = (if b = a \<and> a < length (heap s) then x else fld Right s b)"
  "fld Up (upd a (Right_update (\<lambda>_. x)) s) b = fld Up s b"
  "fld Down (upd a (Right_update (\<lambda>_. x)) s) b = fld Down s b"
  "fld Left (upd a (Right_update (\<lambda>_. x)) s) b = fld Left s b"
  "fld Col (upd a (Right_update (\<lambda>_. x)) s) b = fld Col s b"
  "fld Meta (upd a (Right_update (\<lambda>_. x)) s) b = fld Meta s b"
  by (simp_all add: fld_upd_other) (simp add: fld_upd)

lemma fld_upd_Col [simp]:
  "fld Col (upd a (Col_update (\<lambda>_. x)) s) b = (if b = a \<and> a < length (heap s) then x else fld Col s b)"
  "fld Up (upd a (Col_update (\<lambda>_. x)) s) b = fld Up s b"
  "fld Down (upd a (Col_update (\<lambda>_. x)) s) b = fld Down s b"
  "fld Left (upd a (Col_update (\<lambda>_. x)) s) b = fld Left s b"
  "fld Right (upd a (Col_update (\<lambda>_. x)) s) b = fld Right s b"
  "fld Meta (upd a (Col_update (\<lambda>_. x)) s) b = fld Meta s b"
  by (simp_all add: fld_upd_other) (simp add: fld_upd)

lemma fld_upd_Meta [simp]:
  "fld Meta (upd a (Meta_update (\<lambda>_. x)) s) b = (if b = a \<and> a < length (heap s) then x else fld Meta s b)"
  "fld Up (upd a (Meta_update (\<lambda>_. x)) s) b = fld Up s b"
  "fld Down (upd a (Meta_update (\<lambda>_. x)) s) b = fld Down s b"
  "fld Left (upd a (Meta_update (\<lambda>_. x)) s) b = fld Left s b"
  "fld Right (upd a (Meta_update (\<lambda>_. x)) s) b = fld Right s b"
  "fld Col (upd a (Meta_update (\<lambda>_. x)) s) b = fld Col s b"
  by (simp_all add: fld_upd_other) (simp add: fld_upd)

lemma state_eqI:
  fixes s1 s2 :: state
  assumes "length (heap s1) = length (heap s2)"
    and "\<And>a. a < length (heap s2) \<Longrightarrow>
      fld Right s1 a = fld Right s2 a \<and> fld Up s1 a = fld Up s2 a \<and>
      fld Left s1 a = fld Left s2 a \<and> fld Down s1 a = fld Down s2 a \<and>
      fld Col s1 a = fld Col s2 a \<and> fld Meta s1 a = fld Meta s2 a"
    and "logged s1 = logged s2" "printed s1 = printed s2"
  shows "s1 = s2"
proof -
  have "heap s1 ! a = heap s2 ! a" if "a < length (heap s2)" for a
    using assms(2) [OF that] by (intro node.equality) (simp_all add: fld_def)
  with assms(1) have "heap s1 = heap s2"
    by (simp add: list_eq_iff_nth_eq)
  with assms(3,4) show ?thesis by simp
qed

definition empty_state :: state where
  "empty_state = \<lparr>heap = [], logged = [], printed = []\<rparr>"

text \<open>The state a matrix is built in when nothing else is on the heap.\<close>

definition built :: "int list list \<Rightarrow> string list \<Rightarrow> state" where
  "built matrix headers =
     (case NewSparseMatrix matrix headers empty_state of
        Some (Inr (m, s)) \<Rightarrow> s
      | _ \<Rightarrow> empty_state)"

section \<open>Knuth's example\<close>

definition knuth :: "int list list" where
  "knuth =
     [[0, 0, 1, 0, 1, 1, 0],
      [1, 0, 0, 1, 0, 0, 1],
      [0, 1, 1, 0, 0, 1, 0],
      [1, 0, 0, 1, 0, 0, 0],
      [0, 1, 0, 0, 0, 0, 1],
      [0, 0, 0, 1, 1, 0, 1]]"

definition knuth_headers :: "string list" where
  "knuth_headers = [''A'', ''B'', ''C'', ''D'', ''E'', ''F'', ''G'']"

text \<open>
  The run: build the matrix, then \<^verbatim>\<open>Search(new(Solution), 0, solver)\<close>;
  the result is what was printed and the solution left at the end.
\<close>

definition knuth_run :: "((error + string) list \<times> solution) comp" where
  "knuth_run =
     bnd (NewSparseMatrix knuth knuth_headers empty_state) (\<lambda>(m, s).
     bnd (Search (ChooseCol m) m [] 0 s) (\<lambda>(items, s1). ok (printed s1, items)))"

text \<open>
  C1. On Knuth's matrix, Search from depth 0 with the default guesser reaches the
  empty header row exactly once (one entry is printed), and the solution printed
  there is the three lines "A D", "E F C", "B G", each ended by a newline.
\<close>

theorem knuth_search_prints_one_cover:
  "\<exists>items. knuth_run =
     ok ([Inr (''A D'' @ [CHR 0x0A] @ ''E F C'' @ [CHR 0x0A] @ ''B G'' @ [CHR 0x0A])], items)"
proof -
  have "knuth_run =
     ok ([Inr (''A D'' @ [CHR 0x0A] @ ''E F C'' @ [CHR 0x0A] @ ''B G'' @ [CHR 0x0A])],
         [Some 17, Some 9, Some 19])"
    by code_simp
  then show ?thesis by blast
qed

section \<open>Solution.Set and Solution.Get\<close>

text \<open>
  C8. For an index \<open>0 \<le> i\<close>: \<open>Set i n\<close> overwrites entry \<open>i\<close> in place when \<open>i\<close> is
  below the length and appends \<open>n\<close> at the end otherwise, every other entry is
  unchanged, and for \<open>i\<close> up to the length \<open>Get i\<close> then returns \<open>n\<close>.
\<close>

theorem Solution_Set_then_Get:
  assumes "0 \<le> i"
  shows "\<exists>items'. Solution_Set i n items = ok items' \<and>
           (i < int (length items) \<longrightarrow> items' = items[nat i := n]) \<and>
           (int (length items) \<le> i \<longrightarrow> items' = items @ [n]) \<and>
           (\<forall>k < length items. k \<noteq> nat i \<longrightarrow> items' ! k = items ! k) \<and>
           (i \<le> int (length items) \<longrightarrow> Solution_Get i items' = ok n)"
proof (cases "i < int (length items)")
  case True
  with assms have "nat i < length items" by linarith
  with True assms show ?thesis
    by (simp add: Solution_Set_def Solution_Get_def)
next
  case False
  then have "Solution_Set i n items = ok (items @ [n])"
    by (simp add: Solution_Set_def)
  moreover have "i \<le> int (length items) \<longrightarrow> Solution_Get i (items @ [n]) = ok n"
    using False assms by (auto simp: Solution_Get_def nth_append)
  ultimately show ?thesis
    using False by (simp add: nth_append)
qed

theorem Solution_Set_then_Get_witness:
  "Solution_Set 1 (Some 7) [Some 3, Some 4] = ok [Some 3, Some 7] \<and>
   Solution_Get 1 [Some 3, Some 7] = ok (Some 7) \<and>
   Solution_Set 2 (Some 7) [Some 3, Some 4] = ok [Some 3, Some 4, Some 7] \<and>
   Solution_Get 2 [Some 3, Some 4, Some 7] = ok (Some 7)"
  using Solution_Set_then_Get [of 1 "Some 7" "[Some 3, Some 4]"]
    Solution_Set_then_Get [of 2 "Some 7" "[Some 3, Some 4]"]
  by (simp add: Solution_Set_def Solution_Get_def)

section \<open>SmallestCol\<close>

text \<open>
  C10. When the header row is empty (the root's \<open>Right\<close> and \<open>Left\<close> are the root),
  \<open>SmallestCol\<close> returns nil, and the default \<open>ChooseCol\<close>, which reads
  \<^verbatim>\<open>m.SmallestCol().Meta.Name\<close>, panics on the nil dereference.
\<close>

theorem SmallestCol_empty_row:
  assumes "root < length (heap s)" "fld Right s root = Some root" "fld Left s root = Some root"
  shows "SmallestCol (Some root) s = ok None \<and> ChooseCol (Some root) k s = panic NilDeref"
proof -
  have "SmallestCol (Some root) s = ok None"
    using assms by (simp add: SmallestCol_def Root_def smallest_loop.simps)
  then show ?thesis by (simp add: ChooseCol_def)
qed

theorem SmallestCol_empty_row_witness:
  "0 < length (heap (built [] [])) \<and> fld Right (built [] []) 0 = Some 0 \<and>
   fld Left (built [] []) 0 = Some 0 \<and>
   SmallestCol (Some 0) (built [] []) = ok None \<and>
   ChooseCol (Some 0) 0 (built [] []) = panic NilDeref"
proof -
  have h: "0 < length (heap (built [] []))" "fld Right (built [] []) 0 = Some 0"
    "fld Left (built [] []) 0 = Some 0"
    by code_simp+
  from SmallestCol_empty_row [OF h] h show ?thesis by blast
qed

text \<open>
  \<open>path f s a xs b\<close>: following field \<open>f\<close> from \<open>a\<close> visits exactly the nodes \<open>xs\<close>
  (\<open>a\<close> first) and then arrives at \<open>b\<close>.
\<close>

fun path :: "(node \<Rightarrow> addr option) \<Rightarrow> state \<Rightarrow> addr \<Rightarrow> addr list \<Rightarrow> addr \<Rightarrow> bool" where
  "path f s a [] b = (a = b)"
| "path f s a (x # xs) b =
     (a = x \<and> x < length (heap s) \<and>
      (case fld f s x of None \<Rightarrow> False | Some y \<Rightarrow> path f s y xs b))"

definition col_size :: "state \<Rightarrow> addr \<Rightarrow> 64 word" where
  "col_size s c = (case fld Meta s c of None \<Rightarrow> 0 | Some mt \<Rightarrow> Size mt)"

definition col_name :: "state \<Rightarrow> addr \<Rightarrow> string" where
  "col_name s c = (case fld Meta s c of None \<Rightarrow> [] | Some mt \<Rightarrow> Name mt)"

primrec smallest_of :: "state \<Rightarrow> addr list \<Rightarrow> addr option \<Rightarrow> 64 word \<Rightarrow> addr option" where
  "smallest_of s [] r mn = r"
| "smallest_of s (c # cs) r mn =
     (if col_size s c < mn then smallest_of s cs (Some c) (col_size s c)
      else smallest_of s cs r mn)"

lemma smallest_loop_scan:
  "path Right s x xs root \<Longrightarrow> root \<notin> set xs \<Longrightarrow> \<forall>c\<in>set xs. fld Meta s c \<noteq> None \<Longrightarrow>
   smallest_loop (Some root) (Some x) r mn s = ok (smallest_of s xs r mn)"
proof (induction xs arbitrary: x r mn)
  case Nil
  then show ?case by (simp add: smallest_loop.simps)
next
  case (Cons c cs)
  from Cons.prems obtain y where c: "x = c" "c < length (heap s)" "fld Right s c = Some y"
    and rest: "path Right s y cs root"
    by (auto split: option.splits)
  from Cons.prems obtain mt where mt: "fld Meta s c = Some mt" by auto
  have ne: "c \<noteq> root" using Cons.prems by auto
  have ih: "smallest_loop (Some root) (Some y) r' mn' s = ok (smallest_of s cs r' mn')" for r' mn'
    using Cons.IH [OF rest] Cons.prems by simp
  show ?case
    using c mt ne ih by (subst smallest_loop.simps) (simp add: col_size_def)
qed

lemma smallest_of_cases:
  "(smallest_of s xs r mn = r \<and> (\<forall>c\<in>set xs. mn \<le> col_size s c)) \<or>
   (\<exists>i<length xs. smallest_of s xs r mn = Some (xs ! i) \<and> col_size s (xs ! i) < mn \<and>
      (\<forall>j<length xs. col_size s (xs ! i) \<le> col_size s (xs ! j)) \<and>
      (\<forall>j<i. col_size s (xs ! i) < col_size s (xs ! j)))"
proof (induction xs arbitrary: r mn)
  case Nil
  then show ?case by simp
next
  case (Cons x xs)
  show ?case
  proof (cases "col_size s x < mn")
    case True
    from Cons.IH [of "Some x" "col_size s x"] show ?thesis
    proof
      assume a: "smallest_of s xs (Some x) (col_size s x) = Some x \<and>
        (\<forall>c\<in>set xs. col_size s x \<le> col_size s c)"
      have "\<forall>j<length (x # xs). col_size s x \<le> col_size s ((x # xs) ! j)"
        using a by (auto simp: nth_Cons split: nat.splits)
      with a True have "smallest_of s (x # xs) r mn = Some ((x # xs) ! 0) \<and>
        col_size s ((x # xs) ! 0) < mn \<and>
        (\<forall>j<length (x # xs). col_size s ((x # xs) ! 0) \<le> col_size s ((x # xs) ! j)) \<and>
        (\<forall>j<0. col_size s ((x # xs) ! 0) < col_size s ((x # xs) ! j))"
        by simp
      then show ?thesis by blast
    next
      assume "\<exists>i<length xs. smallest_of s xs (Some x) (col_size s x) = Some (xs ! i) \<and>
        col_size s (xs ! i) < col_size s x \<and>
        (\<forall>j<length xs. col_size s (xs ! i) \<le> col_size s (xs ! j)) \<and>
        (\<forall>j<i. col_size s (xs ! i) < col_size s (xs ! j))"
      then obtain i where i: "i < length xs"
        "smallest_of s xs (Some x) (col_size s x) = Some (xs ! i)"
        "col_size s (xs ! i) < col_size s x"
        "\<forall>j<length xs. col_size s (xs ! i) \<le> col_size s (xs ! j)"
        "\<forall>j<i. col_size s (xs ! i) < col_size s (xs ! j)"
        by blast
      have "Suc i < length (x # xs) \<and> smallest_of s (x # xs) r mn = Some ((x # xs) ! Suc i) \<and>
        col_size s ((x # xs) ! Suc i) < mn \<and>
        (\<forall>j<length (x # xs). col_size s ((x # xs) ! Suc i) \<le> col_size s ((x # xs) ! j)) \<and>
        (\<forall>j<Suc i. col_size s ((x # xs) ! Suc i) < col_size s ((x # xs) ! j))"
        using i True by (auto simp: nth_Cons split: nat.splits)
      then show ?thesis by blast
    qed
  next
    case False
    from Cons.IH [of r mn] show ?thesis
    proof
      assume "smallest_of s xs r mn = r \<and> (\<forall>c\<in>set xs. mn \<le> col_size s c)"
      with False show ?thesis by auto
    next
      assume "\<exists>i<length xs. smallest_of s xs r mn = Some (xs ! i) \<and>
        col_size s (xs ! i) < mn \<and>
        (\<forall>j<length xs. col_size s (xs ! i) \<le> col_size s (xs ! j)) \<and>
        (\<forall>j<i. col_size s (xs ! i) < col_size s (xs ! j))"
      then obtain i where i: "i < length xs"
        "smallest_of s xs r mn = Some (xs ! i)"
        "col_size s (xs ! i) < mn"
        "\<forall>j<length xs. col_size s (xs ! i) \<le> col_size s (xs ! j)"
        "\<forall>j<i. col_size s (xs ! i) < col_size s (xs ! j)"
        by blast
      have "Suc i < length (x # xs) \<and> smallest_of s (x # xs) r mn = Some ((x # xs) ! Suc i) \<and>
        col_size s ((x # xs) ! Suc i) < mn \<and>
        (\<forall>j<length (x # xs). col_size s ((x # xs) ! Suc i) \<le> col_size s ((x # xs) ! j)) \<and>
        (\<forall>j<Suc i. col_size s ((x # xs) ! Suc i) < col_size s ((x # xs) ! j))"
        using i False by (auto simp: nth_Cons split: nat.splits)
      then show ?thesis by blast
    qed
  qed
qed


text \<open>
  C4. When the header row is the ring \<open>root, cs\<close> and some live column has a size
  below the initial minimum \<^verbatim>\<open>^uint(0)\<close>, \<open>SmallestCol\<close> returns a live column of
  minimum size, and among those of minimum size the leftmost.
\<close>

theorem SmallestCol_leftmost_minimum:
  assumes ring: "path Right s root (root # cs) root" "root \<notin> set cs"
    and left: "fld Left s root = Some l" "l < length (heap s)" "fld Right s l = Some root"
    and metas: "\<forall>c\<in>set cs. fld Meta s c \<noteq> None"
    and below: "\<exists>c\<in>set cs. col_size s c \<noteq> - 1"
  shows "\<exists>i<length cs. SmallestCol (Some root) s = ok (Some (cs ! i)) \<and>
           (\<forall>j<length cs. col_size s (cs ! i) \<le> col_size s (cs ! j)) \<and>
           (\<forall>j<i. col_size s (cs ! i) < col_size s (cs ! j))"
proof -
  from ring obtain y where y: "root < length (heap s)" "fld Right s root = Some y"
    "path Right s y cs root"
    by (auto split: option.splits)
  have "SmallestCol (Some root) s = smallest_loop (Some root) (Some y) None (- 1) s"
    using y left by (simp add: SmallestCol_def Root_def)
  also have "\<dots> = ok (smallest_of s cs None (- 1))"
    using smallest_loop_scan [OF y(3) ring(2) metas] .
  finally have run: "SmallestCol (Some root) s = ok (smallest_of s cs None (- 1))" .
  have "\<not> (\<forall>c\<in>set cs. - 1 \<le> col_size s c)"
    using below by (auto simp: word_order.extremum_unique)
  with smallest_of_cases [of s cs None "- 1"] run show ?thesis
    by auto
qed


definition sizes312 :: state where
  "sizes312 = built [[1, 1, 1], [1, 0, 1], [1, 0, 0]] [''A'', ''B'', ''C'']"

theorem SmallestCol_leftmost_minimum_witness:
  "path Right sizes312 0 [0, 1, 2, 3] 0 \<and>
   map (col_size sizes312) [1, 2, 3] = [3, 1, 2] \<and>
   SmallestCol (Some 0) sizes312 = ok (Some 2)"
proof -
  have ring: "path Right sizes312 0 (0 # [1, 2, 3]) 0" "0 \<notin> set [1, 2, 3 :: nat]"
    by code_simp+
  have left: "fld Left sizes312 0 = Some 3" "3 < length (heap sizes312)"
    "fld Right sizes312 3 = Some 0"
    by code_simp+
  have metas: "\<forall>c\<in>set [1, 2, 3]. fld Meta sizes312 c \<noteq> None"
    by code_simp
  have sz: "map (col_size sizes312) [1, 2, 3] = [3, 1, 2]"
    by code_simp
  then have below: "\<exists>c\<in>set [1, 2, 3]. col_size sizes312 c \<noteq> - 1"
    by simp
  from SmallestCol_leftmost_minimum [OF ring left metas below]
  obtain i where i: "i < length [1, 2, 3 :: nat]"
    "SmallestCol (Some 0) sizes312 = ok (Some ([1, 2, 3] ! i))"
    "\<forall>j<length [1, 2, 3 :: nat]. col_size sizes312 ([1, 2, 3] ! i) \<le> col_size sizes312 ([1, 2, 3] ! j)"
    by blast
  have s3: "col_size sizes312 1 = 3" "col_size sizes312 2 = 1" "col_size sizes312 3 = 2"
    using sz by simp_all
  have le: "col_size sizes312 ([1, 2, 3] ! i) \<le> col_size sizes312 ([1, 2, 3] ! 1)"
    using i(3) [rule_format, of 1] by simp
  have "i = 0 \<or> i = 1 \<or> i = 2" using i(1) by auto
  moreover have "\<not> (3::64 word) \<le> 1" "\<not> (2::64 word) \<le> 1"
    by (simp_all add: word_le_nat_alt)
  ultimately have "i = 1"
    using le s3 by auto
  with i(2) ring sz show ?thesis by simp
qed

section \<open>Cover and Uncover on linked columns\<close>

text \<open>
  The proofs below describe what the loops of Cover and Uncover do by pure functions
  on states: \<open>unlinkA j\<close> is the body of Cover's inner loop at the cell \<open>j\<close>, and
  \<open>linv f g s K\<close> says that on the set \<open>K\<close> of nodes the links \<open>f\<close> and \<open>g\<close> undo
  each other (\<^verbatim>\<open>n.Down.Up == n\<close> and \<^verbatim>\<open>n.Up.Down == n\<close> for \<open>Down\<close> and \<open>Up\<close>).
\<close>

definition add_sizeA :: "64 word \<Rightarrow> addr \<Rightarrow> state \<Rightarrow> state" where
  "add_sizeA d c s =
     upd c (Meta_update (\<lambda>_. map_option (\<lambda>mt. mt\<lparr>Size := Size mt + d\<rparr>) (fld Meta s c))) s"

lemma add_size_Some:
  "c < length (heap s) \<Longrightarrow> fld Meta s c \<noteq> None \<Longrightarrow> add_size d s (Some c) = ok (add_sizeA d c s)"
  by (auto simp: add_size_def add_sizeA_def)

definition unlinkA :: "addr \<Rightarrow> state \<Rightarrow> state" where
  "unlinkA j s =
     add_sizeA (- 1) (the (fld Col s j))
       (upd (the (fld Up s j)) (Down_update (\<lambda>_. fld Down s j))
         (upd (the (fld Down s j)) (Up_update (\<lambda>_. fld Up s j)) s))"

definition cell_ok :: "state \<Rightarrow> addr \<Rightarrow> addr \<Rightarrow> addr \<Rightarrow> addr \<Rightarrow> bool" where
  "cell_ok s j d u c =
     (j < length (heap s) \<and> d < length (heap s) \<and> u < length (heap s) \<and> c < length (heap s) \<and>
      fld Down s j = Some d \<and> fld Up s j = Some u \<and> fld Col s j = Some c \<and>
      fld Meta s c \<noteq> None)"

lemma unlinkA_frame [simp]:
  "length (heap (unlinkA j s)) = length (heap s)"
  "logged (unlinkA j s) = logged s"
  "printed (unlinkA j s) = printed s"
  "fld Right (unlinkA j s) a = fld Right s a"
  "fld Left (unlinkA j s) a = fld Left s a"
  "fld Col (unlinkA j s) a = fld Col s a"
  by (simp_all add: unlinkA_def add_sizeA_def)

lemma unlinkA_Up:
  "cell_ok s j d u c \<Longrightarrow> fld Up (unlinkA j s) a = (if a = d then Some u else fld Up s a)"
  by (simp add: unlinkA_def add_sizeA_def cell_ok_def)

lemma unlinkA_Down:
  "cell_ok s j d u c \<Longrightarrow> fld Down (unlinkA j s) a = (if a = u then Some d else fld Down s a)"
  by (simp add: unlinkA_def add_sizeA_def cell_ok_def)

lemma unlinkA_Meta:
  "cell_ok s j d u c \<Longrightarrow>
   fld Meta (unlinkA j s) a =
     (if a = c then map_option (\<lambda>mt. mt\<lparr>Size := Size mt - 1\<rparr>) (fld Meta s c) else fld Meta s a)"
  by (simp add: unlinkA_def add_sizeA_def cell_ok_def)

lemma cover_cell_unlinkA:
  assumes "cell_ok s j d u c"
  shows "cover_cell (Some j) s = ok (unlinkA j s)"
proof -
  let ?s1 = "upd d (Up_update (\<lambda>_. Some u)) s"
  let ?s2 = "upd u (Down_update (\<lambda>_. Some d)) ?s1"
  have a: "j < length (heap s)" "d < length (heap s)" "u < length (heap s)" "c < length (heap s)"
    "fld Down s j = Some d" "fld Up s j = Some u" "fld Col s j = Some c" "fld Meta s c \<noteq> None"
    using assms by (simp_all add: cell_ok_def)
  have 1: "fld Up ?s1 j = Some u" "fld Down ?s1 j = Some d"
    using a by simp_all
  have 2: "fld Col ?s2 j = Some c" "fld Meta ?s2 c \<noteq> None"
    using a by simp_all
  have "cover_cell (Some j) s = add_size (- 1) ?s2 (Some c)"
    using a 1 2 by (simp add: cover_cell_def)
  also have "\<dots> = ok (add_sizeA (- 1) c ?s2)"
    using a 2 by (simp add: add_size_Some)
  also have "add_sizeA (- 1) c ?s2 = unlinkA j s"
    using a by (simp add: unlinkA_def)
  finally show ?thesis .
qed


definition linv ::
  "(node \<Rightarrow> addr option) \<Rightarrow> (node \<Rightarrow> addr option) \<Rightarrow> state \<Rightarrow> addr set \<Rightarrow> bool" where
  "linv f g s K =
     (\<forall>n\<in>K. n < length (heap s) \<and>
        (\<exists>d\<in>K. fld f s n = Some d \<and> fld g s d = Some n) \<and>
        (\<exists>u\<in>K. fld g s n = Some u \<and> fld f s u = Some n))"

abbreviation vinv :: "state \<Rightarrow> addr set \<Rightarrow> bool" where
  "vinv s K \<equiv> linv Down Up s K"

lemma linv_unlink:
  assumes v: "linv f g s K" and j: "j \<in> K"
    and jd: "fld f s j = Some d" and ju: "fld g s j = Some u"
    and len: "length (heap s') = length (heap s)"
    and f': "\<And>n. fld f s' n = (if n = u then Some d else fld f s n)"
    and g': "\<And>n. fld g s' n = (if n = d then Some u else fld g s n)"
  shows "linv f g s' (K - {j})"
proof -
  from v j jd ju have du: "d \<in> K" "u \<in> K" and bk: "fld g s d = Some j" "fld f s u = Some j"
    unfolding linv_def by fastforce+
  show ?thesis
    unfolding linv_def
  proof (intro ballI conjI)
    fix n assume n: "n \<in> K - {j}"
    then have nK: "n \<in> K" and nj: "n \<noteq> j" by auto
    from v nK obtain dn un where nv: "n < length (heap s)"
      and dn: "dn \<in> K" "fld f s n = Some dn" "fld g s dn = Some n"
      and un: "un \<in> K" "fld g s n = Some un" "fld f s un = Some n"
      unfolding linv_def by blast
    show "n < length (heap s')" using nv len by simp
    show "\<exists>d'\<in>K - {j}. fld f s' n = Some d' \<and> fld g s' d' = Some n"
    proof (cases "n = u")
      case True
      have "d \<noteq> j"
      proof
        assume "d = j"
        with bk ju have "u = j" by simp
        with True nj show False by simp
      qed
      with du True show ?thesis
        by (intro bexI [of _ d]) (simp_all add: f' g')
    next
      case False
      have "dn \<noteq> j" using dn(3) ju False by auto
      moreover have "dn \<noteq> d" using dn(3) bk(1) nj by auto
      ultimately show ?thesis using dn False
        by (intro bexI [of _ dn]) (simp_all add: f' g')
    qed
    show "\<exists>u'\<in>K - {j}. fld g s' n = Some u' \<and> fld f s' u' = Some n"
    proof (cases "n = d")
      case True
      have "u \<noteq> j"
      proof
        assume "u = j"
        with bk jd have "d = j" by simp
        with True nj show False by simp
      qed
      with du True show ?thesis
        by (intro bexI [of _ u]) (simp_all add: f' g')
    next
      case False
      have "un \<noteq> j" using un(3) jd False by auto
      moreover have "un \<noteq> u" using un(3) bk(2) nj by auto
      ultimately show ?thesis using un False
        by (intro bexI [of _ un]) (simp_all add: f' g')
    qed
  qed
qed

definition has_col :: "state \<Rightarrow> addr \<Rightarrow> bool" where
  "has_col s j = (\<exists>c. fld Col s j = Some c \<and> c < length (heap s) \<and> fld Meta s c \<noteq> None)"

lemma vinv_cell_ok:
  assumes "vinv s K" "j \<in> K" "has_col s j"
  obtains d u c where "cell_ok s j d u c" "d \<in> K" "u \<in> K"
    "fld Up s d = Some j" "fld Down s u = Some j"
proof -
  from assms(1,2) obtain d u where "j < length (heap s)"
    "d \<in> K" "fld Down s j = Some d" "fld Up s d = Some j"
    "u \<in> K" "fld Up s j = Some u" "fld Down s u = Some j"
    unfolding linv_def by blast
  moreover from assms(1) \<open>d \<in> K\<close> \<open>u \<in> K\<close> have "d < length (heap s)" "u < length (heap s)"
    unfolding linv_def by blast+
  moreover from assms(3) obtain c where "fld Col s j = Some c" "c < length (heap s)"
    "fld Meta s c \<noteq> None"
    unfolding has_col_def by blast
  ultimately show thesis
    by (intro that [of d u c]) (simp_all add: cell_ok_def)
qed

lemma vinv_unlinkA:
  assumes v: "vinv s K" and j: "j \<in> K" and hc: "has_col s j"
  shows "vinv (unlinkA j s) (K - {j})"
proof -
  from vinv_cell_ok [OF assms] obtain d u c where ok: "cell_ok s j d u c"
    by blast
  then have du: "fld Down s j = Some d" "fld Up s j = Some u"
    by (simp_all add: cell_ok_def)
  show ?thesis
    by (rule linv_unlink [OF v j du]) (simp_all add: unlinkA_Up [OF ok] unlinkA_Down [OF ok])
qed

lemma uncover_cell_unlinkA:
  assumes v: "vinv s K" and j: "j \<in> K" and hc: "has_col s j"
  shows "uncover_cell (Some j) (unlinkA j s) = ok s"
proof -
  from vinv_cell_ok [OF assms] obtain d u c where ok: "cell_ok s j d u c"
    and bk: "fld Up s d = Some j" "fld Down s u = Some j"
    by blast
  have a: "j < length (heap s)" "d < length (heap s)" "u < length (heap s)" "c < length (heap s)"
    "fld Down s j = Some d" "fld Up s j = Some u" "fld Col s j = Some c" "fld Meta s c \<noteq> None"
    using ok by (simp_all add: cell_ok_def)
  let ?t = "unlinkA j s"
  let ?t1 = "add_sizeA 1 c ?t"
  let ?t2 = "upd d (Up_update (\<lambda>_. Some j)) ?t1"
  let ?t3 = "upd u (Down_update (\<lambda>_. Some j)) ?t2"
  have m: "fld Meta ?t c \<noteq> None"
    using a by (simp add: unlinkA_Meta [OF ok])
  have d1: "fld Down ?t1 j = Some d"
    using a bk by (simp add: add_sizeA_def unlinkA_Down [OF ok])
  have u2: "fld Up ?t2 j = Some u"
    using a bk by (auto simp: add_sizeA_def unlinkA_Up [OF ok])
  have "uncover_cell (Some j) ?t = ok ?t3"
    using a m d1 u2 by (simp add: uncover_cell_def add_size_Some add_sizeA_def)
  moreover have "?t3 = s"
  proof (rule state_eqI)
    fix b assume "b < length (heap s)"
    have "fld Meta ?t3 b = fld Meta s b"
      using a by (cases "fld Meta s c") (auto simp: add_sizeA_def unlinkA_Meta [OF ok])
    moreover have "fld Up ?t3 b = fld Up s b"
      using a bk by (simp add: add_sizeA_def unlinkA_Up [OF ok])
    moreover have "fld Down ?t3 b = fld Down s b"
      using a bk by (simp add: add_sizeA_def unlinkA_Down [OF ok])
    ultimately show "fld Right ?t3 b = fld Right s b \<and> fld Up ?t3 b = fld Up s b \<and>
      fld Left ?t3 b = fld Left s b \<and> fld Down ?t3 b = fld Down s b \<and>
      fld Col ?t3 b = fld Col s b \<and> fld Meta ?t3 b = fld Meta s b"
      by (simp add: add_sizeA_def)
  qed (simp_all add: add_sizeA_def)
  ultimately show ?thesis by simp
qed



lemma path_cong_on:
  "length (heap s') = length (heap s) \<Longrightarrow> \<forall>a\<in>set xs. fld f s' a = fld f s a \<Longrightarrow>
   path f s' x xs b = path f s x xs b"
  by (induction xs arbitrary: x) (auto split: option.splits)

lemma path_append:
  "path f s a (xs @ ys) b = (\<exists>m. path f s a xs m \<and> path f s m ys b)"
  by (induction xs arbitrary: a) (auto split: option.splits)

definition cells_ok :: "state \<Rightarrow> addr set \<Rightarrow> addr list \<Rightarrow> bool" where
  "cells_ok s K js = (distinct js \<and> set js \<subseteq> K \<and> (\<forall>j\<in>set js. has_col s j))"

definition closed_in :: "state \<Rightarrow> addr set \<Rightarrow> bool" where
  "closed_in s C =
     (\<forall>n\<in>C. (\<exists>d\<in>C. fld Down s n = Some d) \<and> (\<exists>u\<in>C. fld Up s n = Some u))"

lemma unlinkA_Meta_None [simp]: "(fld Meta (unlinkA j s) a = None) = (fld Meta s a = None)"
  by (simp add: unlinkA_def add_sizeA_def)

lemma has_col_unlinkA [simp]: "has_col (unlinkA j s) a = has_col s a"
  by (simp add: has_col_def)

lemma unlinkA_log_event: "unlinkA j (log_event e s) = log_event e (unlinkA j s)"
  by (simp add: unlinkA_def add_sizeA_def upd_def log_event_def fld_def)

lemma fold_unlinkA_frame [simp]:
  "length (heap (fold unlinkA js s)) = length (heap s)"
  "logged (fold unlinkA js s) = logged s"
  "printed (fold unlinkA js s) = printed s"
  "fld Right (fold unlinkA js s) a = fld Right s a"
  "fld Left (fold unlinkA js s) a = fld Left s a"
  "fld Col (fold unlinkA js s) a = fld Col s a"
  "has_col (fold unlinkA js s) a = has_col s a"
  "(fld Meta (fold unlinkA js s) a = None) = (fld Meta s a = None)"
  by (induction js arbitrary: s) simp_all

lemma fold_unlinkA_log_event:
  "fold unlinkA js (log_event e s) = log_event e (fold unlinkA js s)"
  by (induction js arbitrary: s) (simp_all add: unlinkA_log_event)

lemma fold_unlinkA_vinv:
  "vinv s K \<Longrightarrow> cells_ok s K js \<Longrightarrow> vinv (fold unlinkA js s) (K - set js)"
proof (induction js arbitrary: s K)
  case Nil
  then show ?case by simp
next
  case (Cons j js)
  from Cons.prems have j: "j \<in> K" "has_col s j" and rest: "cells_ok s (K - {j}) js"
    by (auto simp: cells_ok_def)
  have "vinv (unlinkA j s) (K - {j})"
    using vinv_unlinkA [OF Cons.prems(1) j] .
  moreover have "cells_ok (unlinkA j s) (K - {j}) js"
    using rest by (simp add: cells_ok_def)
  ultimately have "vinv (fold unlinkA js (unlinkA j s)) (K - {j} - set js)"
    by (rule Cons.IH)
  moreover have "K - {j} - set js = K - set (j # js)" by auto
  ultimately show ?case by simp
qed

lemma unlinkA_closed:
  assumes v: "vinv s K" and j: "j \<in> K" "has_col s j" and c: "closed_in s C" and out: "j \<notin> C"
    and n: "n \<in> C"
  shows "fld Down (unlinkA j s) n = fld Down s n \<and> fld Up (unlinkA j s) n = fld Up s n"
proof -
  from vinv_cell_ok [OF v j] obtain d u c where ok: "cell_ok s j d u c"
    and bk: "fld Up s d = Some j" "fld Down s u = Some j"
    by blast
  have "u \<notin> C"
  proof
    assume "u \<in> C"
    with c bk(2) have "j \<in> C" by (auto simp: closed_in_def)
    with out show False by simp
  qed
  moreover have "d \<notin> C"
  proof
    assume "d \<in> C"
    with c bk(1) have "j \<in> C" by (auto simp: closed_in_def)
    with out show False by simp
  qed
  ultimately show ?thesis
    using n by (auto simp: unlinkA_Up [OF ok] unlinkA_Down [OF ok])
qed

lemma fold_unlinkA_closed:
  "vinv s K \<Longrightarrow> cells_ok s K js \<Longrightarrow> closed_in s C \<Longrightarrow> set js \<inter> C = {} \<Longrightarrow>
   closed_in (fold unlinkA js s) C \<and>
   (\<forall>n\<in>C. fld Down (fold unlinkA js s) n = fld Down s n \<and>
           fld Up (fold unlinkA js s) n = fld Up s n)"
proof (induction js arbitrary: s K)
  case Nil
  then show ?case by simp
next
  case (Cons j js)
  from Cons.prems have j: "j \<in> K" "has_col s j" "j \<notin> C" and rest: "cells_ok s (K - {j}) js"
    by (auto simp: cells_ok_def)
  have same: "\<forall>n\<in>C. fld Down (unlinkA j s) n = fld Down s n \<and> fld Up (unlinkA j s) n = fld Up s n"
    using unlinkA_closed [OF Cons.prems(1) j(1,2) Cons.prems(3) j(3)] by blast
  have cl: "closed_in (unlinkA j s) C"
    using Cons.prems(3) same by (simp add: closed_in_def)
  have "vinv (unlinkA j s) (K - {j})"
    using vinv_unlinkA [OF Cons.prems(1) j(1,2)] .
  moreover have "cells_ok (unlinkA j s) (K - {j}) js"
    using rest by (simp add: cells_ok_def)
  moreover have "set js \<inter> C = {}" using Cons.prems(4) by auto
  ultimately have "closed_in (fold unlinkA js (unlinkA j s)) C \<and>
    (\<forall>n\<in>C. fld Down (fold unlinkA js (unlinkA j s)) n = fld Down (unlinkA j s) n \<and>
            fld Up (fold unlinkA js (unlinkA j s)) n = fld Up (unlinkA j s) n)"
    using cl by (intro Cons.IH)
  with same show ?case by simp
qed

text \<open>The inner loop of Cover unlinks the cells it walks over, one after the other.\<close>

lemma cover_row_fold:
  "path Right s x js i \<Longrightarrow> i \<notin> set js \<Longrightarrow> vinv s K \<Longrightarrow> cells_ok s K js \<Longrightarrow>
   cover_row (Some i) (Some x) s = ok (fold unlinkA js s)"
proof (induction js arbitrary: s K x)
  case Nil
  then show ?case by (simp add: cover_row.simps)
next
  case (Cons j js)
  from Cons.prems(1) obtain y where x: "x = j" "j < length (heap s)" "fld Right s j = Some y"
    and p: "path Right s y js i"
    by (auto split: option.splits)
  from Cons.prems have j: "j \<in> K" "has_col s j" "j \<noteq> i" and rest: "cells_ok s (K - {j}) js"
    by (auto simp: cells_ok_def)
  from vinv_cell_ok [OF Cons.prems(3) j(1,2)] obtain d u c where ok: "cell_ok s j d u c"
    by blast
  have p': "path Right (unlinkA j s) y js i"
    using p path_cong_on [of "unlinkA j s" s js Right y i] by simp
  have "cover_row (Some i) (Some y) (unlinkA j s) = ok (fold unlinkA js (unlinkA j s))"
  proof (rule Cons.IH [OF p'])
    show "i \<notin> set js" using Cons.prems(2) by simp
    show "vinv (unlinkA j s) (K - {j})" using vinv_unlinkA [OF Cons.prems(3) j(1,2)] .
    show "cells_ok (unlinkA j s) (K - {j}) js" using rest by (simp add: cells_ok_def)
  qed
  then show ?case
    using x j(3) by (subst cover_row.simps) (simp add: cover_cell_unlinkA [OF ok])
qed



lemma cells_ok_append:
  "cells_ok s K (xs @ ys) \<Longrightarrow> cells_ok s K xs \<and> cells_ok (fold unlinkA xs s) (K - set xs) ys"
  by (auto simp: cells_ok_def)

text \<open>The two loops of Cover unlink, row after row, the other cells of each row.\<close>

lemma cover_rows_fold:
  "path Down s x rs c \<Longrightarrow> c \<notin> set rs \<Longrightarrow>
   \<forall>i\<in>set rs. path Right s i (i # rt i) i \<and> i \<notin> set (rt i) \<Longrightarrow>
   vinv s K \<Longrightarrow> cells_ok s K (concat (map rt rs)) \<Longrightarrow>
   closed_in s C \<Longrightarrow> set rs \<subseteq> C \<Longrightarrow> set (concat (map rt rs)) \<inter> C = {} \<Longrightarrow>
   cover_rows (Some c) (Some x) s = ok (fold unlinkA (concat (map rt rs)) s)"
proof (induction rs arbitrary: s K x)
  case Nil
  then show ?case by (simp add: cover_rows.simps)
next
  case (Cons i rs)
  let ?s1 = "fold unlinkA (rt i) s"
  from Cons.prems(1) obtain y where x: "x = i" "i < length (heap s)" "fld Down s i = Some y"
    and p: "path Down s y rs c"
    by (auto split: option.splits)
  from Cons.prems(3) obtain r where r: "fld Right s i = Some r" "path Right s r (rt i) i"
    "i \<notin> set (rt i)"
    by (auto split: option.splits)
  have ic: "i \<noteq> c" "i \<in> C" using Cons.prems(2,7) by auto
  from Cons.prems(5) have ok1: "cells_ok s K (rt i)"
    and ok2: "cells_ok ?s1 (K - set (rt i)) (concat (map rt rs))"
    using cells_ok_append [of s K "rt i" "concat (map rt rs)"] by simp_all
  have dis1: "set (rt i) \<inter> C = {}" using Cons.prems(8) by auto
  have row: "cover_row (Some i) (Some r) s = ok ?s1"
    using cover_row_fold [OF r(2,3) Cons.prems(4) ok1] .
  have cl: "closed_in ?s1 C"
    and same: "\<forall>n\<in>C. fld Down ?s1 n = fld Down s n \<and> fld Up ?s1 n = fld Up s n"
    using fold_unlinkA_closed [OF Cons.prems(4) ok1 Cons.prems(6) dis1] by blast+
  have down: "fld Down ?s1 i = Some y" using same ic x by simp
  have p1: "path Down ?s1 y rs c"
    using p path_cong_on [of ?s1 s rs Down y c] same Cons.prems(7) by auto
  have rows1: "\<forall>k\<in>set rs. path Right ?s1 k (k # rt k) k \<and> k \<notin> set (rt k)"
  proof
    fix k assume "k \<in> set rs"
    with Cons.prems(3) have "path Right s k (k # rt k) k \<and> k \<notin> set (rt k)" by simp
    moreover have "path Right ?s1 k (k # rt k) k = path Right s k (k # rt k) k"
      by (rule path_cong_on) simp_all
    ultimately show "path Right ?s1 k (k # rt k) k \<and> k \<notin> set (rt k)" by simp
  qed
  have "cover_rows (Some c) (Some y) ?s1 = ok (fold unlinkA (concat (map rt rs)) ?s1)"
  proof (rule Cons.IH [OF p1 _ rows1 _ ok2 cl])
    show "c \<notin> set rs" using Cons.prems(2) by simp
    show "vinv ?s1 (K - set (rt i))" using fold_unlinkA_vinv [OF Cons.prems(4) ok1] .
    show "set rs \<subseteq> C" using Cons.prems(7) by simp
    show "set (concat (map rt rs)) \<inter> C = {}" using Cons.prems(8) by auto
  qed
  then show ?case
    using x ic r(1) row down by (subst cover_rows.simps) simp
qed

text \<open>
  The inner loop of Uncover, run in the state where the cells \<open>P @ js\<close> are unlinked,
  walks \<open>js\<close> backwards and leaves the state where only \<open>P\<close> is unlinked.
\<close>

lemma uncover_row_back:
  "path Left s0 x (rev js) i \<Longrightarrow> i \<notin> set js \<Longrightarrow> vinv s0 K \<Longrightarrow> cells_ok s0 K (P @ js) \<Longrightarrow>
   uncover_row (Some i) (Some x) (fold unlinkA (P @ js) s0) = ok (fold unlinkA P s0)"
proof (induction js arbitrary: x rule: rev_induct)
  case Nil
  then show ?case by (simp add: uncover_row.simps)
next
  case (snoc j js)
  let ?t = "fold unlinkA (P @ js) s0"
  from snoc.prems(1) obtain y where x: "x = j" "j < length (heap s0)" "fld Left s0 j = Some y"
    and p: "path Left s0 y (rev js) i"
    by (auto split: option.splits)
  have ji: "j \<noteq> i" using snoc.prems(2) by simp
  from snoc.prems(4) have okP: "cells_ok s0 K (P @ js)" and j: "j \<in> K - set (P @ js)" "has_col s0 j"
    by (auto simp: cells_ok_def)
  have v: "vinv ?t (K - set (P @ js))"
    using fold_unlinkA_vinv [OF snoc.prems(3) okP] .
  have hc: "has_col ?t j" using j(2) by simp
  have cell: "uncover_cell (Some j) (unlinkA j ?t) = ok ?t"
    using uncover_cell_unlinkA [OF v j(1) hc] .
  have st: "fold unlinkA (P @ js @ [j]) s0 = unlinkA j ?t" by simp
  have left: "fld Left ?t j = Some y" "j < length (heap ?t)" using x by simp_all
  have "uncover_row (Some i) (Some y) ?t = ok (fold unlinkA P s0)"
  proof (rule snoc.IH [OF p _ snoc.prems(3) okP])
    show "i \<notin> set js" using snoc.prems(2) by simp
  qed
  then show ?case
    unfolding st using x ji cell left by (subst uncover_row.simps) simp
qed

text \<open>
  The outer loop of Uncover, run in the state where the other cells of the rows \<open>rs\<close>
  are unlinked, walks the rows backwards and leaves the state where nothing is.
\<close>

lemma uncover_rows_back:
  "path Up s0 x (rev rs) c \<Longrightarrow> c \<notin> set rs \<Longrightarrow>
   \<forall>i\<in>set rs. path Left s0 i (i # rev (rt i)) i \<and> i \<notin> set (rt i) \<Longrightarrow>
   vinv s0 K \<Longrightarrow> cells_ok s0 K (concat (map rt rs)) \<Longrightarrow>
   closed_in s0 C \<Longrightarrow> set rs \<subseteq> C \<Longrightarrow> set (concat (map rt rs)) \<inter> C = {} \<Longrightarrow>
   uncover_rows (Some c) (Some x) (fold unlinkA (concat (map rt rs)) s0) = ok s0"
proof (induction rs arbitrary: x rule: rev_induct)
  case Nil
  then show ?case by (simp add: uncover_rows.simps)
next
  case (snoc i rs)
  let ?P = "concat (map rt rs)"
  let ?t1 = "fold unlinkA ?P s0"
  let ?t2 = "fold unlinkA (?P @ rt i) s0"
  from snoc.prems(1) obtain y where x: "x = i" "i < length (heap s0)" "fld Up s0 i = Some y"
    and p: "path Up s0 y (rev rs) c"
    by (auto split: option.splits)
  from snoc.prems(3) obtain l where l: "fld Left s0 i = Some l" "path Left s0 l (rev (rt i)) i"
    "i \<notin> set (rt i)"
    by (auto split: option.splits)
  have ic: "i \<noteq> c" "i \<in> C" using snoc.prems(2,7) by auto
  have okall: "cells_ok s0 K (?P @ rt i)" using snoc.prems(5) by simp
  then have okP: "cells_ok s0 K ?P" by (auto simp: cells_ok_def)
  have disP: "set ?P \<inter> C = {}" using snoc.prems(8) by auto
  have row: "uncover_row (Some i) (Some l) ?t2 = ok ?t1"
    using uncover_row_back [OF l(2,3) snoc.prems(4) okall] .
  have same: "\<forall>n\<in>C. fld Down ?t1 n = fld Down s0 n \<and> fld Up ?t1 n = fld Up s0 n"
    using fold_unlinkA_closed [OF snoc.prems(4) okP snoc.prems(6) disP] by blast
  have up: "fld Up ?t1 i = Some y" using same ic x by simp
  have "uncover_rows (Some c) (Some y) ?t1 = ok s0"
  proof (rule snoc.IH [OF p _ _ snoc.prems(4) okP snoc.prems(6) _ disP])
    show "c \<notin> set rs" using snoc.prems(2) by simp
    show "\<forall>i\<in>set rs. path Left s0 i (i # rev (rt i)) i \<and> i \<notin> set (rt i)"
      using snoc.prems(3) by simp
    show "set rs \<subseteq> C" using snoc.prems(7) by simp
  qed
  moreover have "concat (map rt (rs @ [i])) = ?P @ rt i" by simp
  ultimately show ?case
    using x ic l(1) row up by (subst uncover_rows.simps) simp
qed

lemma path_closed:
  "path f s a xs b \<Longrightarrow> \<forall>n\<in>set xs. \<exists>d\<in>insert b (set xs). fld f s n = Some d"
proof (induction xs arbitrary: a)
  case Nil
  then show ?case by simp
next
  case (Cons x xs)
  from Cons.prems obtain y where y: "fld f s x = Some y" "path f s y xs b"
    by (auto split: option.splits)
  have "y \<in> insert b (set xs)"
    using y(2) by (cases xs) auto
  with y Cons.IH [OF y(2)] show ?case by auto
qed

lemma path_valid: "path f s a xs b \<Longrightarrow> \<forall>n\<in>set xs. n < length (heap s)"
  by (induction xs arbitrary: a) (auto split: option.splits)

text \<open>Where \<open>g\<close> undoes \<open>f\<close>, a path along \<open>f\<close> can be walked back along \<open>g\<close>.\<close>

lemma path_rev:
  "path f s a (a # xs) b \<Longrightarrow> linv f g s K \<Longrightarrow> set (a # xs) \<subseteq> K \<Longrightarrow>
   path g s b (b # rev xs) a"
proof (induction xs arbitrary: b rule: rev_induct)
  case Nil
  from Nil(1) have fa: "fld f s a = Some b" by (auto split: option.splits)
  with Nil(2,3) have b: "b \<in> K" "fld g s b = Some a"
    unfolding linv_def by fastforce+
  then have "b < length (heap s)" using Nil(2) unfolding linv_def by blast
  with b show ?case by simp
next
  case (snoc z zs)
  from snoc.prems(1) have "path f s a ((a # zs) @ [z]) b" by simp
  then obtain m where m: "path f s a (a # zs) m" "path f s m [z] b"
    unfolding path_append by blast
  then have z: "m = z" "fld f s z = Some b" by (auto split: option.splits)
  from snoc.prems(2,3) z(2) have b: "b \<in> K" "fld g s b = Some z"
    unfolding linv_def by fastforce+
  then have bv: "b < length (heap s)" using snoc.prems(2) unfolding linv_def by blast
  have "path g s z (z # rev zs) a"
    using snoc.IH [of z] m(1) z(1) snoc.prems(2,3) by simp
  with b bv show ?case by simp
qed

lemma linv_cong:
  "length (heap s') = length (heap s) \<Longrightarrow> \<forall>n\<in>K. fld f s' n = fld f s n \<and> fld g s' n = fld g s n \<Longrightarrow>
   linv f g s K \<Longrightarrow> linv f g s' K"
  unfolding linv_def by fastforce

text \<open>The two writes to the header row at the start of Cover.\<close>

definition hunlinkA :: "addr \<Rightarrow> state \<Rightarrow> state" where
  "hunlinkA c s =
     upd (the (fld Left s c)) (Right_update (\<lambda>_. fld Right s c))
       (upd (the (fld Right s c)) (Left_update (\<lambda>_. fld Left s c)) s)"

lemma hunlinkA_frame [simp]:
  "length (heap (hunlinkA c s)) = length (heap s)"
  "logged (hunlinkA c s) = logged s"
  "printed (hunlinkA c s) = printed s"
  "fld Up (hunlinkA c s) a = fld Up s a"
  "fld Down (hunlinkA c s) a = fld Down s a"
  "fld Col (hunlinkA c s) a = fld Col s a"
  "fld Meta (hunlinkA c s) a = fld Meta s a"
  by (simp_all add: hunlinkA_def)

lemma hunlinkA_Left:
  "fld Right s c = Some r \<Longrightarrow> r < length (heap s) \<Longrightarrow>
   fld Left (hunlinkA c s) n = (if n = r then fld Left s c else fld Left s n)"
  by (simp add: hunlinkA_def)

lemma hunlinkA_Right:
  "fld Left s c = Some l \<Longrightarrow> l < length (heap s) \<Longrightarrow>
   fld Right (hunlinkA c s) n = (if n = l then fld Right s c else fld Right s n)"
  by (simp add: hunlinkA_def)

lemma has_col_cong:
  "length (heap s') = length (heap s) \<Longrightarrow> (\<And>a. fld Col s' a = fld Col s a) \<Longrightarrow>
   (\<And>a. fld Meta s' a = fld Meta s a) \<Longrightarrow> has_col s' j = has_col s j"
  by (simp add: has_col_def)

lemma cells_ok_cong:
  "length (heap s') = length (heap s) \<Longrightarrow> (\<And>a. fld Col s' a = fld Col s a) \<Longrightarrow>
   (\<And>a. fld Meta s' a = fld Meta s a) \<Longrightarrow> cells_ok s' K js = cells_ok s K js"
  by (simp add: cells_ok_def has_col_cong [of s' s])

lemma closed_in_cong:
  "(\<And>a. fld Down s' a = fld Down s a) \<Longrightarrow> (\<And>a. fld Up s' a = fld Up s a) \<Longrightarrow>
   closed_in s' C = closed_in s C"
  by (simp add: closed_in_def)

lemma ring_closed:
  assumes "path Down s c (c # rs) c" "vinv s K" "set (c # rs) \<subseteq> K"
  shows "closed_in s (set (c # rs))"
proof -
  have d: "\<forall>n\<in>set (c # rs). \<exists>d\<in>insert c (set (c # rs)). fld Down s n = Some d"
    using path_closed [OF assms(1)] .
  have "path Up s c (c # rev rs) c"
    using path_rev [OF assms] .
  from path_closed [OF this]
  have u: "\<forall>n\<in>set (c # rs). \<exists>u\<in>insert c (set (c # rs)). fld Up s n = Some u"
    by simp
  from d u show ?thesis
    unfolding closed_in_def by auto
qed

lemma col_name_unlinkA [simp]: "col_name (unlinkA j s) a = col_name s a"
  by (cases "fld Meta s (the (fld Col s j))")
     (auto simp: col_name_def unlinkA_def add_sizeA_def)

lemma col_name_fold_unlinkA [simp]: "col_name (fold unlinkA js s) a = col_name s a"
  by (induction js arbitrary: s) simp_all

lemma col_name_hunlinkA [simp]: "col_name (hunlinkA c s) a = col_name s a"
  by (simp add: col_name_def)

lemma col_name_log_event [simp]: "col_name (log_event e s) a = col_name s a"
  by (simp add: col_name_def)

lemma hunlinkA_log_event: "hunlinkA c (log_event e s) = log_event e (hunlinkA c s)"
  by (simp add: hunlinkA_def upd_def log_event_def fld_def)

lemma length_log_event [simp]: "length (heap (log_event e s)) = length (heap s)"
  by simp

lemma path_log_event [simp]: "path f (log_event e s) a xs b = path f s a xs b"
  by (rule path_cong_on) simp_all

lemma linv_log_event [simp]: "linv f g (log_event e s) K = linv f g s K"
  by (simp add: linv_def)

lemma cells_ok_log_event [simp]: "cells_ok (log_event e s) K js = cells_ok s K js"
  by (rule cells_ok_cong) simp_all

text \<open>What Cover needs of the column \<open>c\<close>, its rows \<open>rs\<close> and their other cells \<open>rt\<close>.\<close>

definition cover_pre ::
  "state \<Rightarrow> addr \<Rightarrow> addr \<Rightarrow> addr \<Rightarrow> addr list \<Rightarrow> (addr \<Rightarrow> addr list) \<Rightarrow> addr set \<Rightarrow> bool" where
  "cover_pre s c l r rs rt K =
     (c < length (heap s) \<and> fld Meta s c \<noteq> None \<and>
      fld Right s c = Some r \<and> r < length (heap s) \<and> fld Left s c = Some l \<and> l < length (heap s) \<and>
      path Down s c (c # rs) c \<and> c \<notin> set rs \<and>
      (\<forall>i\<in>set rs. path Right s i (i # rt i) i \<and> i \<notin> set (rt i)) \<and>
      l \<notin> set rs \<union> set (concat (map rt rs)) \<and>
      vinv s K \<and> cells_ok s K (concat (map rt rs)) \<and>
      set (c # rs) \<subseteq> K \<and> set (concat (map rt rs)) \<inter> set (c # rs) = {})"

definition covered :: "addr \<Rightarrow> addr list \<Rightarrow> state \<Rightarrow> state" where
  "covered c js s = fold unlinkA js (hunlinkA c (log_event (LogCover (col_name s c)) s))"

lemma Cover_raw:
  assumes "cover_pre s c l r rs rt K"
  shows "Cover (Some c) s = ok (covered c (concat (map rt rs)) s)"
proof -
  let ?J = "concat (map rt rs)"
  let ?s0 = "log_event (LogCover (col_name s c)) s"
  let ?s1 = "upd r (Left_update (\<lambda>_. Some l)) ?s0"
  let ?s2 = "hunlinkA c ?s0"
  let ?C = "set (c # rs)"
  have a: "c < length (heap s)" "fld Meta s c \<noteq> None"
    "fld Right s c = Some r" "r < length (heap s)" "fld Left s c = Some l" "l < length (heap s)"
    and col: "path Down s c (c # rs) c" "c \<notin> set rs"
    and rows: "\<forall>i\<in>set rs. path Right s i (i # rt i) i \<and> i \<notin> set (rt i)"
    and lout: "l \<notin> set rs \<union> set ?J"
    and v: "vinv s K" and ok: "cells_ok s K ?J"
    and sub: "?C \<subseteq> K" and dis: "set ?J \<inter> ?C = {}"
    using assms by (simp_all add: cover_pre_def)
  from col(1) obtain x where x: "fld Down s c = Some x" "path Down s x rs c"
    by (auto split: option.splits)
  from a(2) obtain mt where mt: "fld Meta s c = Some mt" by auto
  have s2: "?s2 = upd l (Right_update (\<lambda>_. Some r)) ?s1"
    using a by (simp add: hunlinkA_def)
  have l1: "fld Left ?s1 c = Some l" "fld Right ?s1 c = Some r"
    using a by simp_all
  have head: "Cover (Some c) s = bnd (get Down ?s2 (Some c)) (\<lambda>i. cover_rows (Some c) i ?s2)"
    using a mt l1 s2 by (simp add: Cover_def col_name_def)
  have cl: "closed_in ?s2 ?C"
    using ring_closed [OF col(1) v sub] closed_in_cong [of ?s2 s ?C] by simp
  have v2: "vinv ?s2 K"
    using v by (rule linv_cong [rotated 2]) simp_all
  have ok2: "cells_ok ?s2 K ?J"
    using ok cells_ok_cong [of ?s2 s K ?J] by simp
  have p2: "path Down ?s2 x rs c"
    using x(2) path_cong_on [of ?s2 s rs Down x c] by simp
  have rows2: "\<forall>i\<in>set rs. path Right ?s2 i (i # rt i) i \<and> i \<notin> set (rt i)"
  proof
    fix i assume i: "i \<in> set rs"
    with lout have "l \<notin> set (i # rt i)" by auto
    then have "\<forall>a\<in>set (i # rt i). fld Right ?s2 a = fld Right s a"
      using a by (auto simp: hunlinkA_Right [of ?s0 c l])
    then have "path Right ?s2 i (i # rt i) i = path Right s i (i # rt i) i"
      by (intro path_cong_on) simp_all
    with rows i show "path Right ?s2 i (i # rt i) i \<and> i \<notin> set (rt i)" by simp
  qed
  have "cover_rows (Some c) (Some x) ?s2 = ok (fold unlinkA ?J ?s2)"
    using cover_rows_fold [OF p2 col(2) rows2 v2 ok2 cl] dis by auto
  with head x a show ?thesis
    by (simp add: covered_def)
qed

text \<open>What Uncover needs besides: the rows walked leftwards, and the header links.\<close>

definition uncover_pre ::
  "state \<Rightarrow> addr \<Rightarrow> addr \<Rightarrow> addr \<Rightarrow> addr list \<Rightarrow> (addr \<Rightarrow> addr list) \<Rightarrow> bool" where
  "uncover_pre s c l r rs rt =
     ((\<forall>i\<in>set rs. path Left s i (i # rev (rt i)) i) \<and>
      r \<notin> set rs \<union> set (concat (map rt rs)) \<and>
      fld Left s r = Some c \<and> fld Right s l = Some c \<and> c \<noteq> r \<and> c \<noteq> l)"

lemma cover_pre_log_event [simp]:
  "cover_pre (log_event e s) c l r rs rt K = cover_pre s c l r rs rt K"
  by (simp add: cover_pre_def del: path.simps)

lemma uncover_pre_log_event [simp]:
  "uncover_pre (log_event e s) c l r rs rt = uncover_pre s c l r rs rt"
  by (simp add: uncover_pre_def del: path.simps)

lemma uncover_of_unlinked:
  assumes pre: "cover_pre b c l r rs rt K" and pre2: "uncover_pre b c l r rs rt"
  shows "bnd (get Up (fold unlinkA (concat (map rt rs)) (hunlinkA c b)) (Some c)) (\<lambda>i.
         bnd (uncover_rows (Some c) i (fold unlinkA (concat (map rt rs)) (hunlinkA c b))) (\<lambda>s1.
         bnd (get Right s1 (Some c)) (\<lambda>r. bnd (upd_node s1 r (\<lambda>n. n\<lparr>Left := Some c\<rparr>)) (\<lambda>s2.
         bnd (get Left s2 (Some c)) (\<lambda>l. upd_node s2 l (\<lambda>n. n\<lparr>Right := Some c\<rparr>)))))) = ok b"
proof -
  let ?J = "concat (map rt rs)"
  let ?hb = "hunlinkA c b"
  let ?tb = "fold unlinkA ?J ?hb"
  let ?C = "set (c # rs)"
  have a: "c < length (heap b)" "fld Meta b c \<noteq> None"
    "fld Right b c = Some r" "r < length (heap b)" "fld Left b c = Some l" "l < length (heap b)"
    and col: "path Down b c (c # rs) c" "c \<notin> set rs"
    and v: "vinv b K" and ok: "cells_ok b K ?J"
    and sub: "?C \<subseteq> K" and dis: "set ?J \<inter> ?C = {}"
    using pre by (simp_all add: cover_pre_def)
  have rowsL: "\<forall>i\<in>set rs. path Left b i (i # rev (rt i)) i"
    and rout: "r \<notin> set rs \<union> set ?J"
    and inv: "fld Left b r = Some c" "fld Right b l = Some c" and ne: "c \<noteq> r" "c \<noteq> l"
    using pre2 by (simp_all add: uncover_pre_def)
  have nin: "\<forall>i\<in>set rs. i \<notin> set (rt i)"
    using pre by (simp add: cover_pre_def)
  have "path Up b c (c # rev rs) c"
    using path_rev [OF col(1) v sub] .
  then obtain y where y: "fld Up b c = Some y" "path Up b y (rev rs) c"
    by (auto split: option.splits)
  have cl: "closed_in ?hb ?C"
    using ring_closed [OF col(1) v sub] closed_in_cong [of ?hb b ?C] by simp
  have vh: "vinv ?hb K"
    using v by (rule linv_cong [rotated 2]) simp_all
  have okh: "cells_ok ?hb K ?J"
    using ok cells_ok_cong [of ?hb b K ?J] by simp
  have ph: "path Up ?hb y (rev rs) c"
    using y(2) path_cong_on [of ?hb b "rev rs" Up y c] by simp
  have rowsh: "\<forall>i\<in>set rs. path Left ?hb i (i # rev (rt i)) i \<and> i \<notin> set (rt i)"
  proof
    fix i assume i: "i \<in> set rs"
    with rout have "r \<notin> set (i # rev (rt i))" by auto
    then have "\<forall>a\<in>set (i # rev (rt i)). fld Left ?hb a = fld Left b a"
      using a by (auto simp: hunlinkA_Left [of b c r])
    then have "path Left ?hb i (i # rev (rt i)) i = path Left b i (i # rev (rt i)) i"
      by (intro path_cong_on) simp_all
    with rowsL nin i show "path Left ?hb i (i # rev (rt i)) i \<and> i \<notin> set (rt i)" by simp
  qed
  have dis': "set ?J \<inter> ?C = {}" using dis .
  have up: "fld Up ?tb c = Some y"
    using fold_unlinkA_closed [OF vh okh cl dis'] y(1) by simp
  have loops: "uncover_rows (Some c) (Some y) ?tb = ok ?hb"
    using uncover_rows_back [OF ph col(2) rowsh vh okh cl] dis by auto
  let ?u1 = "upd r (Left_update (\<lambda>_. Some c)) ?hb"
  let ?u2 = "upd l (Right_update (\<lambda>_. Some c)) ?u1"
  have r1: "fld Right ?hb c = Some r"
    using a ne by (simp add: hunlinkA_Right [of b c l])
  have l1: "fld Left ?u1 c = Some l"
    using a ne by (simp add: hunlinkA_Left [of b c r])
  have "?u2 = b"
  proof (rule state_eqI)
    fix n assume "n < length (heap b)"
    have "fld Left ?u2 n = fld Left b n"
      using a inv by (simp add: hunlinkA_Left [of b c r])
    moreover have "fld Right ?u2 n = fld Right b n"
      using a inv by (simp add: hunlinkA_Right [of b c l])
    ultimately show "fld Right ?u2 n = fld Right b n \<and> fld Up ?u2 n = fld Up b n \<and>
      fld Left ?u2 n = fld Left b n \<and> fld Down ?u2 n = fld Down b n \<and>
      fld Col ?u2 n = fld Col b n \<and> fld Meta ?u2 n = fld Meta b n"
      by simp
  qed simp_all
  then show ?thesis
    using a up loops r1 l1 by simp
qed

lemma Uncover_raw:
  assumes pre: "cover_pre s c l r rs rt K" and pre2: "uncover_pre s c l r rs rt"
  shows "Uncover (Some c) (covered c (concat (map rt rs)) s) =
         ok (log_event (LogUncover (col_name s c)) (log_event (LogCover (col_name s c)) s))"
proof -
  let ?J = "concat (map rt rs)"
  let ?s' = "log_event (LogCover (col_name s c)) s"
  let ?t = "covered c ?J s"
  let ?b = "log_event (LogUncover (col_name s c)) ?s'"
  have a: "c < length (heap s)" "fld Meta s c \<noteq> None"
    using pre by (simp_all add: cover_pre_def)
  have "fld Meta ?t c \<noteq> None" using a by (simp add: covered_def)
  then obtain mt where mt: "fld Meta ?t c = Some mt" by auto
  have "col_name ?t c = col_name s c" by (simp add: covered_def)
  with mt have nm: "Name mt = col_name s c" by (simp add: col_name_def)
  have t: "log_event (LogUncover (col_name s c)) ?t = fold unlinkA ?J (hunlinkA c ?b)"
    by (simp add: covered_def fold_unlinkA_log_event hunlinkA_log_event)
  have cv: "c < length (heap ?t)" using a by (simp add: covered_def)
  have pb: "cover_pre ?b c l r rs rt K" "uncover_pre ?b c l r rs rt"
    using pre pre2 by simp_all
  show ?thesis
    unfolding Uncover_def
    using cv mt nm t uncover_of_unlinked [OF pb] by simp
qed

text \<open>
  The matrix a heap represents: the root, the headers linked in the header row (left
  to right), every header with the nodes linked in its column (top to bottom), and
  every row with its nodes (in insertion order).
\<close>

record amatrix =
  am_root :: addr
  am_live :: "addr list"
  am_cols :: "(addr \<times> addr list) list"
  am_rows :: "addr list list"

definition am_headers :: "amatrix \<Rightarrow> addr list" where
  "am_headers am = map fst (am_cols am)"

definition am_linked :: "amatrix \<Rightarrow> addr list" where
  "am_linked am = concat (map snd (am_cols am))"

definition am_data :: "amatrix \<Rightarrow> addr list" where
  "am_data am = concat (am_rows am)"

definition col_nodes :: "amatrix \<Rightarrow> addr \<Rightarrow> addr list" where
  "col_nodes am c = (case map_of (am_cols am) c of None \<Rightarrow> [] | Some ns \<Rightarrow> ns)"

text \<open>The other cells of the row of \<open>i\<close>, in the order met walking right from \<open>i\<close>.\<close>

definition rotate_from :: "addr \<Rightarrow> addr list \<Rightarrow> addr list" where
  "rotate_from i r = tl (dropWhile (\<lambda>x. x \<noteq> i) r) @ takeWhile (\<lambda>x. x \<noteq> i) r"

definition row_from :: "amatrix \<Rightarrow> addr \<Rightarrow> addr list" where
  "row_from am i =
     (case find (\<lambda>r. i \<in> set r) (am_rows am) of None \<Rightarrow> [] | Some r \<Rightarrow> rotate_from i r)"

definition cover_cells :: "amatrix \<Rightarrow> addr \<Rightarrow> addr list" where
  "cover_cells am c = concat (map (row_from am) (col_nodes am c))"

definition wf_matrix :: "state \<Rightarrow> amatrix \<Rightarrow> bool" where
  "wf_matrix s am =
     (distinct (am_root am # am_headers am @ am_data am) \<and>
      (\<forall>a\<in>set (am_root am # am_headers am @ am_data am). a < length (heap s)) \<and>
      distinct (am_live am) \<and> set (am_live am) \<subseteq> set (am_headers am) \<and>
      path Right s (am_root am) (am_root am # am_live am) (am_root am) \<and>
      linv Right Left s (set (am_root am # am_live am)) \<and>
      distinct (am_linked am) \<and> set (am_linked am) \<subseteq> set (am_data am) \<and>
      linv Down Up s (set (am_headers am @ am_linked am)) \<and>
      (\<forall>(c, ns)\<in>set (am_cols am).
         path Down s c (c # ns) c \<and> (\<forall>n\<in>set ns. fld Col s n = Some c) \<and>
         fld Meta s c \<noteq> None \<and> col_size s c = of_nat (length ns)) \<and>
      linv Right Left s (set (am_data am)) \<and>
      (\<forall>r\<in>set (am_rows am).
         r \<noteq> [] \<and> path Right s (hd r) r (hd r) \<and>
         (\<forall>n\<in>set r. \<exists>c\<in>set (am_headers am). fld Col s n = Some c) \<and>
         distinct (map (fld Col s) r)) \<and>
      (\<forall>r\<in>set (am_rows am).
         set r \<subseteq> set (am_linked am) \<or>
         (\<forall>n\<in>set r. n \<in> set (am_linked am) \<longrightarrow> fld Col s n \<notin> Some ` set (am_live am))))"

lemma rotate_split:
  assumes "i \<in> set r"
  shows "r = takeWhile (\<lambda>x. x \<noteq> i) r @ i # tl (dropWhile (\<lambda>x. x \<noteq> i) r)"
proof -
  have ne: "dropWhile (\<lambda>x. x \<noteq> i) r \<noteq> []"
    using assms by (simp add: dropWhile_eq_Nil_conv)
  then have "hd (dropWhile (\<lambda>x. x \<noteq> i) r) = i"
    using hd_dropWhile [of "\<lambda>x. x \<noteq> i" r] by simp
  with ne have "dropWhile (\<lambda>x. x \<noteq> i) r = i # tl (dropWhile (\<lambda>x. x \<noteq> i) r)"
    by (cases "dropWhile (\<lambda>x. x \<noteq> i) r") simp_all
  then show ?thesis
    using takeWhile_dropWhile_id [of "\<lambda>x. x \<noteq> i" r] by simp
qed

lemma rotate_from_set:
  assumes "i \<in> set r" "distinct r"
  shows "set (i # rotate_from i r) = set r" "i \<notin> set (rotate_from i r)"
    "distinct (rotate_from i r)"
proof -
  let ?xs = "takeWhile (\<lambda>x. x \<noteq> i) r" and ?ys = "tl (dropWhile (\<lambda>x. x \<noteq> i) r)"
  have r: "r = ?xs @ i # ?ys" using rotate_split [OF assms(1)] .
  then have "set r = set (?xs @ i # ?ys)" by simp
  then show "set (i # rotate_from i r) = set r"
    by (auto simp: rotate_from_def)
  have "distinct (?xs @ i # ?ys)" using assms(2) r by simp
  then show "i \<notin> set (rotate_from i r)" "distinct (rotate_from i r)"
    by (auto simp: rotate_from_def)
qed

lemma path_rotate:
  assumes "path f s (hd r) r (hd r)" "i \<in> set r"
  shows "path f s i (i # rotate_from i r) i"
proof -
  let ?xs = "takeWhile (\<lambda>x. x \<noteq> i) r" and ?ys = "tl (dropWhile (\<lambda>x. x \<noteq> i) r)"
  have r: "r = ?xs @ i # ?ys" using rotate_split [OF assms(2)] .
  have "path f s (hd r) (?xs @ i # ?ys) (hd r)" using assms(1) r by simp
  then obtain m where m: "path f s (hd r) ?xs m" "path f s m (i # ?ys) (hd r)"
    unfolding path_append by blast
  then have "m = i" by simp
  with m have "path f s i ((i # ?ys) @ ?xs) i"
    unfolding path_append by blast
  then show ?thesis by (simp add: rotate_from_def)
qed

lemma distinct_concat_map:
  "distinct rs \<Longrightarrow> \<forall>i\<in>set rs. distinct (rt i) \<Longrightarrow>
   \<forall>i\<in>set rs. \<forall>k\<in>set rs. i \<noteq> k \<longrightarrow> set (rt i) \<inter> set (rt k) = {} \<Longrightarrow>
   distinct (concat (map rt rs))"
  by (induction rs) auto

lemma row_from_row:
  assumes "i \<in> set (am_data am)"
  obtains r where "r \<in> set (am_rows am)" "i \<in> set r" "row_from am i = rotate_from i r"
proof -
  from assms have "\<exists>r\<in>set (am_rows am). i \<in> set r"
    by (auto simp: am_data_def)
  then have "find (\<lambda>r. i \<in> set r) (am_rows am) \<noteq> None"
    by (auto simp: find_None_iff)
  then obtain r where r: "find (\<lambda>r. i \<in> set r) (am_rows am) = Some r" by auto
  then have "r \<in> set (am_rows am)" "i \<in> set r"
    by (auto simp: find_Some_iff)
  with r show thesis
    by (intro that [of r]) (simp_all add: row_from_def)
qed

lemma rows_disjoint:
  assumes "distinct (concat rows)" "r \<in> set rows" "r' \<in> set rows" "x \<in> set r" "x \<in> set r'"
  shows "r = r'"
  using assms by (induction rows) auto

lemma wf_col_entry:
  assumes wf: "wf_matrix s am" and c: "c \<in> set (am_headers am)"
  shows "(c, col_nodes am c) \<in> set (am_cols am)"
proof -
  from wf have "distinct (map fst (am_cols am))"
    by (simp add: wf_matrix_def am_headers_def)
  moreover from c obtain ns where "(c, ns) \<in> set (am_cols am)"
    by (auto simp: am_headers_def)
  ultimately show ?thesis
    by (simp add: col_nodes_def)
qed

lemma wf_col:
  assumes wf: "wf_matrix s am" and c: "c \<in> set (am_headers am)"
  shows "path Down s c (c # col_nodes am c) c"
    "\<forall>n\<in>set (col_nodes am c). fld Col s n = Some c"
    "fld Meta s c \<noteq> None" "col_size s c = of_nat (length (col_nodes am c))"
    "set (col_nodes am c) \<subseteq> set (am_linked am)"
proof -
  have e: "(c, col_nodes am c) \<in> set (am_cols am)" using wf_col_entry [OF assms] .
  from wf have "\<forall>(c, ns)\<in>set (am_cols am).
         path Down s c (c # ns) c \<and> (\<forall>n\<in>set ns. fld Col s n = Some c) \<and>
         fld Meta s c \<noteq> None \<and> col_size s c = of_nat (length ns)"
    by (simp add: wf_matrix_def)
  with e show "path Down s c (c # col_nodes am c) c"
    "\<forall>n\<in>set (col_nodes am c). fld Col s n = Some c"
    "fld Meta s c \<noteq> None" "col_size s c = of_nat (length (col_nodes am c))"
    by auto
  from e show "set (col_nodes am c) \<subseteq> set (am_linked am)"
    by (force simp: am_linked_def)
qed

lemma wf_row:
  assumes wf: "wf_matrix s am" and r: "r \<in> set (am_rows am)"
  shows "r \<noteq> []" "path Right s (hd r) r (hd r)"
    "\<forall>n\<in>set r. \<exists>c\<in>set (am_headers am). fld Col s n = Some c"
    "distinct (map (fld Col s) r)" "distinct r" "set r \<subseteq> set (am_data am)"
proof -
  from wf have "\<forall>r\<in>set (am_rows am).
         r \<noteq> [] \<and> path Right s (hd r) r (hd r) \<and>
         (\<forall>n\<in>set r. \<exists>c\<in>set (am_headers am). fld Col s n = Some c) \<and>
         distinct (map (fld Col s) r)"
    by (simp add: wf_matrix_def)
  with r show "r \<noteq> []" "path Right s (hd r) r (hd r)"
    "\<forall>n\<in>set r. \<exists>c\<in>set (am_headers am). fld Col s n = Some c"
    "distinct (map (fld Col s) r)"
    by auto
  then show "distinct r" by (simp add: distinct_map)
  from r show "set r \<subseteq> set (am_data am)" by (auto simp: am_data_def)
qed

text \<open>The cells of a row that has a cell in a live column.\<close>

lemma wf_live_row:
  assumes wf: "wf_matrix s am" and c: "c \<in> set (am_live am)"
    and i: "i \<in> set (col_nodes am c)"
  obtains r where "r \<in> set (am_rows am)" "i \<in> set r" "row_from am i = rotate_from i r"
    "set r \<subseteq> set (am_linked am)"
proof -
  from wf c have ch: "c \<in> set (am_headers am)" by (auto simp: wf_matrix_def)
  have il: "i \<in> set (am_linked am)" and ic: "fld Col s i = Some c"
    using wf_col [OF wf ch] i by auto
  from wf il have "i \<in> set (am_data am)" by (auto simp: wf_matrix_def)
  from row_from_row [OF this] obtain r where r: "r \<in> set (am_rows am)" "i \<in> set r"
    "row_from am i = rotate_from i r"
    by blast
  from wf r(1) have "set r \<subseteq> set (am_linked am) \<or>
      (\<forall>n\<in>set r. n \<in> set (am_linked am) \<longrightarrow> fld Col s n \<notin> Some ` set (am_live am))"
    by (simp add: wf_matrix_def)
  with r(2) il ic c have "set r \<subseteq> set (am_linked am)" by auto
  with r show thesis by (rule that)
qed

lemma wf_header_links:
  assumes wf: "wf_matrix s am" and c: "c \<in> set (am_live am)"
  obtains l r where "fld Right s c = Some r" "fld Left s r = Some c"
    "fld Left s c = Some l" "fld Right s l = Some c"
    "r \<in> set (am_root am # am_live am)" "l \<in> set (am_root am # am_live am)"
    "c \<noteq> r" "c \<noteq> l"
proof -
  let ?root = "am_root am"
  from wf have ring: "path Right s ?root (?root # am_live am) ?root"
    and li: "linv Right Left s (set (?root # am_live am))"
    and dist: "distinct (?root # am_live am)"
    by (auto simp: wf_matrix_def)
  from c li obtain r l where r: "r \<in> set (?root # am_live am)" "fld Right s c = Some r"
    "fld Left s r = Some c"
    and l: "l \<in> set (?root # am_live am)" "fld Left s c = Some l" "fld Right s l = Some c"
    unfolding linv_def by (metis list.set_intros(2))
  from c obtain xs ys where live: "am_live am = xs @ c # ys"
    by (auto simp: in_set_conv_decomp)
  with ring have "path Right s ?root ((?root # xs) @ c # ys) ?root" by simp
  then obtain m where "path Right s m (c # ys) ?root"
    unfolding path_append by blast
  then obtain y where y: "fld Right s c = Some y" "path Right s y ys ?root"
    by (auto split: option.splits)
  have "y \<in> insert ?root (set ys)" using y(2) by (cases ys) auto
  with dist live have "y \<noteq> c" by auto
  with y r have cr: "c \<noteq> r" by simp
  have "c \<noteq> l"
  proof
    assume "c = l"
    with l r have "r = c" by simp
    with cr show False by simp
  qed
  with r l cr show thesis by (intro that [of r l]) simp_all
qed

lemma wf_live_row_paths:
  assumes wf: "wf_matrix s am" and c: "c \<in> set (am_live am)"
    and i: "i \<in> set (col_nodes am c)"
  shows "path Right s i (i # row_from am i) i" "i \<notin> set (row_from am i)"
    "distinct (row_from am i)" "set (i # row_from am i) \<subseteq> set (am_linked am)"
    "\<forall>j\<in>set (row_from am i). fld Col s j \<noteq> Some c"
    "path Left s i (i # rev (row_from am i)) i"
proof -
  let ?rt = "row_from am"
  from wf c have ch: "c \<in> set (am_headers am)" by (auto simp: wf_matrix_def)
  from wf have h: "linv Right Left s (set (am_data am))" by (simp add: wf_matrix_def)
  from wf_live_row [OF wf c i] obtain r where r: "r \<in> set (am_rows am)" "i \<in> set r"
    "?rt i = rotate_from i r" "set r \<subseteq> set (am_linked am)"
    by blast
  note wr = wf_row [OF wf r(1)]
  show p: "path Right s i (i # ?rt i) i"
    using path_rotate [OF wr(2) r(2)] r(3) by simp
  have s: "set (i # ?rt i) = set r"
    using rotate_from_set(1) [OF r(2) wr(5)] r(3) by simp
  show ni: "i \<notin> set (?rt i)"
    using rotate_from_set(2) [OF r(2) wr(5)] r(3) by simp
  show "distinct (?rt i)"
    using rotate_from_set(3) [OF r(2) wr(5)] r(3) by simp
  show "set (i # ?rt i) \<subseteq> set (am_linked am)"
    using s r(4) by simp
  have ci: "fld Col s i = Some c" using wf_col(2) [OF wf ch] i by simp
  show "\<forall>j\<in>set (?rt i). fld Col s j \<noteq> Some c"
  proof
    fix j assume j: "j \<in> set (?rt i)"
    show "fld Col s j \<noteq> Some c"
    proof
      assume "fld Col s j = Some c"
      with ci have e: "fld Col s j = fld Col s i" by simp
      have jr: "j \<in> set r" using j s by auto
      have "inj_on (fld Col s) (set r)" using wr(4) by (simp add: distinct_map)
      from inj_onD [OF this e jr r(2)] have "j = i" .
      with j ni show False by simp
    qed
  qed
  show "path Left s i (i # rev (?rt i)) i"
  proof (rule path_rev [OF p h])
    show "set (i # ?rt i) \<subseteq> set (am_data am)" using s wr(6) by simp
  qed
qed

lemma distinct_concat_member: "distinct (concat xss) \<Longrightarrow> xs \<in> set xss \<Longrightarrow> distinct xs"
  by (induction xss) auto

lemma wf_cover_cells_distinct:
  assumes wf: "wf_matrix s am" and c: "c \<in> set (am_live am)"
  shows "distinct (col_nodes am c)" "distinct (concat (map (row_from am) (col_nodes am c)))"
proof -
  let ?rs = "col_nodes am c" and ?rt = "row_from am"
  from wf c have ch: "c \<in> set (am_headers am)" by (auto simp: wf_matrix_def)
  from wf have dl: "distinct (am_linked am)" by (simp add: wf_matrix_def)
  show drs: "distinct ?rs"
  proof -
    have "(c, ?rs) \<in> set (am_cols am)" using wf_col_entry [OF wf ch] .
    then have "?rs \<in> set (map snd (am_cols am))" by force
    with dl show ?thesis unfolding am_linked_def by (rule distinct_concat_member)
  qed
  show "distinct (concat (map ?rt ?rs))"
  proof (rule distinct_concat_map [OF drs])
    show "\<forall>i\<in>set ?rs. distinct (?rt i)"
      using wf_live_row_paths(3) [OF wf c] by blast
    show "\<forall>i\<in>set ?rs. \<forall>k\<in>set ?rs. i \<noteq> k \<longrightarrow> set (?rt i) \<inter> set (?rt k) = {}"
    proof (intro ballI impI)
      fix i k assume ik: "i \<in> set ?rs" "k \<in> set ?rs" "i \<noteq> k"
      from wf_live_row [OF wf c ik(1)] obtain r where r: "r \<in> set (am_rows am)" "i \<in> set r"
        "?rt i = rotate_from i r" by blast
      from wf_live_row [OF wf c ik(2)] obtain r' where r': "r' \<in> set (am_rows am)" "k \<in> set r'"
        "?rt k = rotate_from k r'" by blast
      have si: "set (i # ?rt i) = set r"
        using rotate_from_set(1) [OF r(2) wf_row(5) [OF wf r(1)]] r(3) by simp
      have sk: "set (k # ?rt k) = set r'"
        using rotate_from_set(1) [OF r'(2) wf_row(5) [OF wf r'(1)]] r'(3) by simp
      show "set (?rt i) \<inter> set (?rt k) = {}"
      proof (rule ccontr)
        assume "set (?rt i) \<inter> set (?rt k) \<noteq> {}"
        then obtain x where x: "x \<in> set (?rt i)" "x \<in> set (?rt k)" by blast
        have xr: "x \<in> set r" using x(1) si by auto
        have xr': "x \<in> set r'" using x(2) sk by auto
        from wf have dc: "distinct (concat (am_rows am))"
          by (simp add: wf_matrix_def am_data_def)
        have "r = r'" using rows_disjoint [OF dc r(1) r'(1) xr xr'] .
        with r'(2) si have "k \<in> set (i # ?rt i)" by simp
        with ik(3) have "k \<in> set (?rt i)" by auto
        with wf_live_row_paths(5) [OF wf c ik(1)] have "fld Col s k \<noteq> Some c" by blast
        moreover have "fld Col s k = Some c" using wf_col(2) [OF wf ch] ik(2) by blast
        ultimately show False by simp
      qed
    qed
  qed
qed

lemma wf_has_col:
  assumes wf: "wf_matrix s am" and j: "j \<in> set (am_data am)"
  shows "has_col s j"
proof -
  from j obtain r where r: "r \<in> set (am_rows am)" "j \<in> set r"
    by (auto simp: am_data_def)
  from wf_row(3) [OF wf r(1)] r(2) obtain d where d: "d \<in> set (am_headers am)"
    "fld Col s j = Some d" by blast
  from wf d(1) have "d < length (heap s)" by (simp add: wf_matrix_def)
  with wf_col(3) [OF wf d(1)] d(2) show ?thesis
    by (simp add: has_col_def)
qed

lemma wf_cover_pre:
  assumes wf: "wf_matrix s am" and c: "c \<in> set (am_live am)"
  obtains l r where
    "cover_pre s c l r (col_nodes am c) (row_from am) (set (am_headers am @ am_linked am))"
    "uncover_pre s c l r (col_nodes am c) (row_from am)"
    "l \<in> set (am_root am # am_live am)" "r \<in> set (am_root am # am_live am)"
proof -
  let ?root = "am_root am" and ?rs = "col_nodes am c" and ?rt = "row_from am"
  let ?K = "set (am_headers am @ am_linked am)"
  let ?J = "concat (map ?rt ?rs)"
  from wf have dist: "distinct (?root # am_headers am @ am_data am)"
    by (simp add: wf_matrix_def)
  from wf have valid: "\<forall>a\<in>set (?root # am_headers am @ am_data am). a < length (heap s)"
    by (simp add: wf_matrix_def)
  from wf have live: "set (am_live am) \<subseteq> set (am_headers am)"
    by (simp add: wf_matrix_def)
  from wf have ld: "set (am_linked am) \<subseteq> set (am_data am)"
    by (simp add: wf_matrix_def)
  from wf have v: "vinv s ?K"
    by (simp add: wf_matrix_def)
  from c live have ch: "c \<in> set (am_headers am)" by auto
  note col = wf_col [OF wf ch]
  note rowp = wf_live_row_paths [OF wf c]
  from wf_header_links [OF wf c] obtain l r where lr: "fld Right s c = Some r"
    "fld Left s r = Some c" "fld Left s c = Some l" "fld Right s l = Some c"
    "r \<in> set (?root # am_live am)" "l \<in> set (?root # am_live am)" "c \<noteq> r" "c \<noteq> l"
    by blast
  have rs_data: "set ?rs \<subseteq> set (am_data am)" using col(5) ld by blast
  have Jl: "set ?J \<subseteq> set (am_linked am)"
  proof
    fix j assume "j \<in> set ?J"
    then obtain i where i: "i \<in> set ?rs" "j \<in> set (?rt i)" by auto
    with rowp(4) [OF i(1)] show "j \<in> set (am_linked am)" by auto
  qed
  have Jd: "set ?J \<subseteq> set (am_data am)" using Jl ld by blast
  have Jc: "fld Col s j \<noteq> Some c" if "j \<in> set ?J" for j
  proof -
    from that obtain i where i: "i \<in> set ?rs" "j \<in> set (?rt i)" by auto
    with rowp(5) [OF i(1)] show ?thesis by blast
  qed
  have hdr_data: "x \<notin> set (am_data am)" if "x \<in> set (?root # am_live am)" for x
    using that dist live by auto
  have c_data: "c \<notin> set (am_data am)" using hdr_data c by simp
  have lv: "l < length (heap s)" using lr(6) live valid by auto
  have rv: "r < length (heap s)" using lr(5) live valid by auto
  have cv: "c < length (heap s)" using ch valid by auto
  have cnr: "c \<notin> set ?rs" using rs_data c_data by blast
  have rowsR: "\<forall>i\<in>set ?rs. path Right s i (i # ?rt i) i \<and> i \<notin> set (?rt i)"
    using rowp(1,2) by blast
  have rowsL: "\<forall>i\<in>set ?rs. path Left s i (i # rev (?rt i)) i"
    using rowp(6) by blast
  have lout: "l \<notin> set ?rs \<union> set ?J"
    using hdr_data [OF lr(6)] rs_data Jd by blast
  have rout: "r \<notin> set ?rs \<union> set ?J"
    using hdr_data [OF lr(5)] rs_data Jd by blast
  have ok: "cells_ok s ?K ?J"
    unfolding cells_ok_def
  proof (intro conjI ballI)
    show "distinct ?J" using wf_cover_cells_distinct(2) [OF wf c] .
    show "set ?J \<subseteq> ?K" using Jl by auto
    fix j assume "j \<in> set ?J"
    with Jd have "j \<in> set (am_data am)" by blast
    then show "has_col s j" by (rule wf_has_col [OF wf])
  qed
  have sub: "set (c # ?rs) \<subseteq> ?K" using ch col(5) by auto
  have dis: "set ?J \<inter> set (c # ?rs) = {}"
  proof -
    define J where "J = ?J"
    have a: "c \<notin> set J" using Jd c_data unfolding J_def by blast
    have b: "j \<notin> set ?rs" if "j \<in> set J" for j
    proof
      assume "j \<in> set ?rs"
      with col(2) have "fld Col s j = Some c" by blast
      moreover have "fld Col s j \<noteq> Some c" using Jc that unfolding J_def by blast
      ultimately show False by simp
    qed
    have "set J \<inter> set (c # ?rs) = {}"
    proof (rule ccontr)
      assume "set J \<inter> set (c # ?rs) \<noteq> {}"
      then obtain x where x: "x \<in> set J" "x \<in> set (c # ?rs)" by blast
      from x(2) have "x = c \<or> x \<in> set ?rs" by simp
      with a b [OF x(1)] x(1) show False by blast
    qed
    then show ?thesis unfolding J_def .
  qed
  have pre: "cover_pre s c l r ?rs ?rt ?K"
    unfolding cover_pre_def
    by (intro conjI) (fact cv col(3) lr(1) rv lr(3) lv col(1) cnr rowsR lout v ok sub dis)+
  have pre2: "uncover_pre s c l r ?rs ?rt"
    unfolding uncover_pre_def
    by (intro conjI) (fact rowsL rout lr(2) lr(4) lr(7) lr(8))+
  from pre pre2 lr(6) lr(5) show thesis by (rule that)
qed

text \<open>Cover followed by Uncover, on a well-formed matrix.\<close>

lemma wf_Cover_Uncover:
  assumes wf: "wf_matrix s am" and c: "c \<in> set (am_live am)"
  shows "Cover (Some c) s = ok (covered c (cover_cells am c) s)"
    "Uncover (Some c) (covered c (cover_cells am c) s) =
       ok (log_event (LogUncover (col_name s c)) (log_event (LogCover (col_name s c)) s))"
proof -
  from wf_cover_pre [OF wf c] obtain l r where
    pre: "cover_pre s c l r (col_nodes am c) (row_from am) (set (am_headers am @ am_linked am))"
    and pre2: "uncover_pre s c l r (col_nodes am c) (row_from am)"
    by blast
  show "Cover (Some c) s = ok (covered c (cover_cells am c) s)"
    using Cover_raw [OF pre] by (simp add: cover_cells_def)
  show "Uncover (Some c) (covered c (cover_cells am c) s) =
       ok (log_event (LogUncover (col_name s c)) (log_event (LogCover (col_name s c)) s))"
    using Uncover_raw [OF pre pre2] by (simp add: cover_cells_def)
qed

text \<open>
  C2. On a well-formed matrix, for every column \<open>c\<close> linked in the header row,
  \<open>Cover c\<close> returns, \<open>Uncover c\<close> right after it returns, and the heap is then what
  it was before the Cover: every link and every size counter has its old value.
\<close>

theorem Cover_Uncover_restores:
  assumes "wf_matrix s am" and "c \<in> set (am_live am)"
  shows "\<exists>s1 s2. Cover (Some c) s = ok s1 \<and> Uncover (Some c) s1 = ok s2 \<and> heap s2 = heap s"
proof -
  note cu = wf_Cover_Uncover [OF assms]
  have "heap (log_event (LogUncover (col_name s c)) (log_event (LogCover (col_name s c)) s)) = heap s"
    by simp
  with cu show ?thesis by blast
qed

definition knuth_state :: state where
  "knuth_state = built knuth knuth_headers"

definition knuth_am :: amatrix where
  "knuth_am =
     \<lparr>am_root = 0, am_live = [1, 2, 3, 4, 5, 6, 7],
      am_cols = [(1, [11, 17]), (2, [14, 19]), (3, [8, 15]), (4, [12, 18, 21]),
                 (5, [9, 22]), (6, [10, 16]), (7, [13, 20, 23])],
      am_rows = [[8, 9, 10], [11, 12, 13], [14, 15, 16], [17, 18], [19, 20], [21, 22, 23]]\<rparr>"

lemma knuth_wf: "wf_matrix knuth_state knuth_am"
  by code_simp

theorem Cover_Uncover_restores_witness:
  "wf_matrix knuth_state knuth_am \<and> 4 \<in> set (am_live knuth_am) \<and>
   (\<exists>s1 s2. Cover (Some 4) knuth_state = ok s1 \<and> Uncover (Some 4) s1 = ok s2 \<and>
      heap s2 = heap knuth_state)"
proof -
  have live: "4 \<in> set (am_live knuth_am)" by (simp add: knuth_am_def)
  from Cover_Uncover_restores [OF knuth_wf live] knuth_wf live show ?thesis by blast
qed

section \<open>The matrix after Cover\<close>

lemma path_redirect_last:
  "path f s a xs m \<Longrightarrow> xs \<noteq> [] \<Longrightarrow> distinct xs \<Longrightarrow> length (heap s') = length (heap s) \<Longrightarrow>
   \<forall>n\<in>set (butlast xs). fld f s' n = fld f s n \<Longrightarrow> fld f s' (last xs) = Some y \<Longrightarrow>
   path f s' a xs y"
proof (induction xs arbitrary: a)
  case Nil
  then show ?case by simp
next
  case (Cons x xs)
  show ?case
  proof (cases xs)
    case Nil
    with Cons.prems show ?thesis by (auto split: option.splits)
  next
    case (Cons x' rest)
    from Cons.prems(1) obtain z where z: "a = x" "x < length (heap s)" "fld f s x = Some z"
      "path f s z xs m"
      by (auto split: option.splits)
    have same: "fld f s' x = fld f s x" using Cons.prems(5) Cons by simp
    have "path f s' z xs y"
    proof (rule Cons.IH [OF z(4)])
      show "xs \<noteq> []" using Cons by simp
      show "distinct xs" using Cons.prems(3) by simp
      show "length (heap s') = length (heap s)" using Cons.prems(4) .
      show "\<forall>n\<in>set (butlast xs). fld f s' n = fld f s n" using Cons.prems(5) Cons by simp
      show "fld f s' (last xs) = Some y" using Cons.prems(6) Cons by simp
    qed
    with z same Cons.prems(4) show ?thesis by simp
  qed
qed

text \<open>Redirecting the link into \<open>j\<close> to where \<open>j\<close> points takes \<open>j\<close> out of a path.\<close>

lemma path_unlink:
  assumes p: "path f s a (xs @ j # ys) b" and ne: "xs \<noteq> []"
    and d: "distinct (xs @ j # ys)"
    and len: "length (heap s') = length (heap s)"
    and other: "\<forall>n. n \<noteq> last xs \<longrightarrow> fld f s' n = fld f s n"
    and redirect: "fld f s' (last xs) = fld f s j"
  shows "path f s' a (xs @ ys) b"
proof -
  from p obtain m where m: "path f s a xs m" "path f s m (j # ys) b"
    unfolding path_append by blast
  then obtain y where y: "m = j" "fld f s j = Some y" "path f s y ys b"
    by (auto split: option.splits)
  have lys: "last xs \<notin> set ys" using d ne by (cases xs rule: rev_cases) auto
  have "\<forall>n\<in>set ys. fld f s' n = fld f s n"
  proof
    fix n assume "n \<in> set ys"
    with lys have "n \<noteq> last xs" by auto
    with other show "fld f s' n = fld f s n" by simp
  qed
  with y(3) len have tail: "path f s' y ys b"
    using path_cong_on [of s' s ys f y b] by simp
  have lbx: "last xs \<notin> set (butlast xs)" using d ne by (cases xs rule: rev_cases) auto
  have "\<forall>n\<in>set (butlast xs). fld f s' n = fld f s n"
  proof
    fix n assume "n \<in> set (butlast xs)"
    with lbx have "n \<noteq> last xs" by auto
    with other show "fld f s' n = fld f s n" by simp
  qed
  moreover have "distinct xs" using d by simp
  moreover have "fld f s' (last xs) = Some y" using redirect y(2) by simp
  ultimately have "path f s' a xs y"
    using path_redirect_last [OF m(1) ne _ len] by blast
  with tail show ?thesis unfolding path_append by blast
qed

text \<open>The node before \<open>j\<close> on a path is the one \<open>j\<close> points back to.\<close>

lemma path_pred:
  assumes p: "path f s a (xs @ j # ys) b" and ne: "xs \<noteq> []"
    and li: "linv f g s K" and sub: "set xs \<subseteq> K"
  shows "fld g s j = Some (last xs)"
proof -
  from ne obtain zs w where xs: "xs = zs @ [w]" by (cases xs rule: rev_cases) auto
  with p have "path f s a (zs @ w # j # ys) b" by simp
  then obtain m where "path f s m (w # j # ys) b"
    unfolding path_append by blast
  then have w: "fld f s w = Some j" by (auto split: option.splits)
  from sub xs have "w \<in> K" by simp
  with li w have "fld g s j = Some w" unfolding linv_def by fastforce
  with xs show ?thesis by simp
qed

text \<open>
  The columns of a matrix in a heap: each header's \<open>Down\<close> ring visits the nodes of
  its list, which point to it through \<open>Col\<close>, and its \<open>Size\<close> is their number.
\<close>

definition cols_ok :: "state \<Rightarrow> (addr \<times> addr list) list \<Rightarrow> bool" where
  "cols_ok s cols =
     (distinct (map fst cols @ concat (map snd cols)) \<and>
      vinv s (set (map fst cols @ concat (map snd cols))) \<and>
      (\<forall>(c, ns)\<in>set cols.
         path Down s c (c # ns) c \<and> (\<forall>n\<in>set ns. fld Col s n = Some c) \<and>
         fld Meta s c \<noteq> None \<and> col_size s c = of_nat (length ns)))"

definition drop_cells :: "addr list \<Rightarrow> (addr \<times> addr list) list \<Rightarrow> (addr \<times> addr list) list" where
  "drop_cells js cols = map (\<lambda>(c, ns). (c, filter (\<lambda>n. n \<notin> set js) ns)) cols"

lemma drop_cells_fst [simp]: "map fst (drop_cells js cols) = map fst cols"
  by (induction cols) (auto simp: drop_cells_def)

lemma drop_cells_snd [simp]:
  "concat (map snd (drop_cells js cols)) = filter (\<lambda>n. n \<notin> set js) (concat (map snd cols))"
  by (induction cols) (auto simp: drop_cells_def)

lemma drop_cells_Nil [simp]: "drop_cells [] cols = cols"
  by (induction cols) (auto simp: drop_cells_def)

lemma drop_cells_Cons: "drop_cells (j # js) cols = drop_cells js (drop_cells [j] cols)"
  by (induction cols) (auto simp: drop_cells_def)

lemma drop_cells_mem:
  "(c, ns') \<in> set (drop_cells js cols) \<Longrightarrow>
   \<exists>ns. (c, ns) \<in> set cols \<and> ns' = filter (\<lambda>n. n \<notin> set js) ns"
  by (auto simp: drop_cells_def)

lemma cols_entry_disjoint:
  assumes "distinct (map fst cols @ concat (map snd cols))"
    and "(c1, ns1) \<in> set cols" "(c2, ns2) \<in> set cols" "c1 \<noteq> c2"
  shows "set (c1 # ns1) \<inter> set (c2 # ns2) = {}"
  using assms
proof (induction cols)
  case Nil
  then show ?case by simp
next
  case (Cons e cols)
  obtain c ns where e: "e = (c, ns)" by (cases e)
  from Cons.prems(1) e have d: "distinct (map fst cols @ concat (map snd cols))"
    and c: "c \<notin> set (map fst cols)" "c \<notin> set ns" "c \<notin> set (concat (map snd cols))"
    and ns: "set ns \<inter> set (map fst cols) = {}" "set ns \<inter> set (concat (map snd cols)) = {}"
    "distinct ns"
    by auto
  have mem: "c' \<in> set (map fst cols) \<and> set ns' \<subseteq> set (concat (map snd cols))"
    if "(c', ns') \<in> set cols" for c' ns'
    using that by force
  consider "(c1, ns1) = e" "(c2, ns2) \<in> set cols" | "(c2, ns2) = e" "(c1, ns1) \<in> set cols"
    | "(c1, ns1) \<in> set cols" "(c2, ns2) \<in> set cols"
    using Cons.prems(2,3,4) e by auto
  then show ?case
  proof cases
    case 1
    with e have "c1 = c" "ns1 = ns" by simp_all
    with mem [OF 1(2)] c ns show ?thesis by auto
  next
    case 2
    with e have "c2 = c" "ns2 = ns" by simp_all
    with mem [OF 2(2)] c ns show ?thesis by auto
  next
    case 3
    with Cons.IH [OF d] Cons.prems(4) show ?thesis by blast
  qed
qed

lemma cols_entry_unique:
  assumes "distinct (map fst cols @ concat (map snd cols))"
    and "(c, ns1) \<in> set cols" "(c, ns2) \<in> set cols"
  shows "ns1 = ns2"
proof -
  from assms(1) have "distinct (map fst cols)" by simp
  from eq_key_imp_eq_value [OF this assms(2,3)] show ?thesis .
qed

lemma cols_entry_sets:
  assumes "(c, ns) \<in> set cols"
  shows "c \<in> set (map fst cols)" "set ns \<subseteq> set (concat (map snd cols))"
  using assms by force+

lemma filter_not_mem_split:
  assumes "distinct (xs @ j # ys)"
  shows "filter (\<lambda>n. n \<notin> set [j]) (xs @ j # ys) = xs @ ys"
proof -
  have "filter (\<lambda>n. n \<noteq> j) xs = xs" "filter (\<lambda>n. n \<noteq> j) ys = ys"
    using assms by (auto simp: filter_id_conv)
  then show ?thesis by simp
qed

lemma filter_not_mem_id:
  "j \<notin> set ns \<Longrightarrow> filter (\<lambda>n. n \<notin> set [j]) ns = ns"
  by (auto simp: filter_id_conv)

lemma of_nat_length_remove:
  "(of_nat (length (xs @ j # ys)) :: 64 word) - 1 = of_nat (length (xs @ ys))"
  by simp

lemma cols_ok_unlink:
  assumes ok: "cols_ok s cols" and e: "(d, ns) \<in> set cols" and j: "j \<in> set ns"
  shows "cols_ok (unlinkA j s) (drop_cells [j] cols)"
    and "\<forall>n. fld Up (unlinkA j s) n \<noteq> fld Up s n \<or> fld Down (unlinkA j s) n \<noteq> fld Down s n
           \<longrightarrow> n \<in> set (d # ns)"
    and "\<forall>n. fld Meta (unlinkA j s) n \<noteq> fld Meta s n \<longrightarrow> n = d"
proof -
  let ?K = "set (map fst cols @ concat (map snd cols))"
  let ?s' = "unlinkA j s"
  from ok have dist: "distinct (map fst cols @ concat (map snd cols))"
    and v: "vinv s ?K"
    and ent: "\<forall>(c, ns)\<in>set cols.
         path Down s c (c # ns) c \<and> (\<forall>n\<in>set ns. fld Col s n = Some c) \<and>
         fld Meta s c \<noteq> None \<and> col_size s c = of_nat (length ns)"
    by (simp_all add: cols_ok_def)
  from ent e have pd: "path Down s d (d # ns) d" and cd: "\<forall>n\<in>set ns. fld Col s n = Some d"
    and md: "fld Meta s d \<noteq> None" and sd: "col_size s d = of_nat (length ns)"
    by auto
  note es = cols_entry_sets [OF e]
  have dK: "d \<in> ?K" and nsK: "set ns \<subseteq> ?K" using es by auto
  have jK: "j \<in> ?K" using nsK j by blast
  have dv: "d < length (heap s)" using v dK unfolding linv_def by blast
  have jc: "fld Col s j = Some d" using cd j by blast
  have hc: "has_col s j" using jc dv md by (simp add: has_col_def)
  from vinv_cell_ok [OF v jK hc] obtain dn up c' where cell: "cell_ok s j dn up c'"
    by blast
  with jc have c': "c' = d" by (simp add: cell_ok_def)
  from cell have jd: "fld Down s j = Some dn" and ju: "fld Up s j = Some up"
    by (simp_all add: cell_ok_def)
  from j obtain as bs where ns: "ns = as @ j # bs" by (auto simp: in_set_conv_decomp)
  have dns: "distinct (d # ns)"
  proof -
    have "d \<notin> set ns" using dist es by auto
    moreover have "distinct (concat (map snd cols))" using dist by simp
    then have "distinct ns" using e distinct_concat_member [of "map snd cols" ns] by force
    ultimately show ?thesis by simp
  qed
  have p: "path Down s d ((d # as) @ j # bs) d" using pd ns by simp
  have "fld Up s j = Some (last (d # as))"
  proof (rule path_pred [OF p _ v])
    show "set (d # as) \<subseteq> ?K" using dK nsK ns by auto
  qed simp
  with ju have up: "up = last (d # as)" by simp
  have up_in: "up \<in> set (d # ns)"
  proof -
    have "last (d # as) \<in> set (d # as)" by (rule last_in_set) simp
    with up ns show ?thesis by auto
  qed
  have dn_in: "dn \<in> set (d # ns)"
    using path_closed [OF pd] j jd by auto
  have down': "fld Down ?s' n = (if n = up then Some dn else fld Down s n)" for n
    using unlinkA_Down [OF cell] .
  have up': "fld Up ?s' n = (if n = dn then Some up else fld Up s n)" for n
    using unlinkA_Up [OF cell] .
  have meta': "fld Meta ?s' n =
      (if n = d then map_option (\<lambda>mt. mt\<lparr>Size := Size mt - 1\<rparr>) (fld Meta s d) else fld Meta s n)" for n
    using unlinkA_Meta [OF cell] c' by simp
  show "\<forall>n. fld Up ?s' n \<noteq> fld Up s n \<or> fld Down ?s' n \<noteq> fld Down s n \<longrightarrow> n \<in> set (d # ns)"
    using up_in dn_in by (auto simp: up' down' split: if_splits)
  show "\<forall>n. fld Meta ?s' n \<noteq> fld Meta s n \<longrightarrow> n = d"
    by (auto simp: meta' split: if_splits)
  have newpath: "path Down ?s' d (d # as @ bs) d"
  proof -
    have "path Down ?s' d ((d # as) @ bs) d"
    proof (rule path_unlink [OF p])
      show "distinct ((d # as) @ j # bs)" using dns ns by simp
      show "\<forall>n. n \<noteq> last (d # as) \<longrightarrow> fld Down ?s' n = fld Down s n"
        using up by (simp add: down')
      show "fld Down ?s' (last (d # as)) = fld Down s j"
        using up jd by (simp add: down')
    qed simp_all
    then show ?thesis by simp
  qed
  have newsize: "col_size ?s' d = of_nat (length (as @ bs))"
  proof -
    from md obtain mt where mt: "fld Meta s d = Some mt" by auto
    with sd have "Size mt = of_nat (length ns)" by (simp add: col_size_def)
    with mt have "col_size ?s' d = of_nat (length ns) - 1"
      by (simp add: col_size_def meta')
    with ns show ?thesis using of_nat_length_remove [of as j bs] by simp
  qed
  have entry: "path Down ?s' c (c # ns') c \<and> (\<forall>n\<in>set ns'. fld Col ?s' n = Some c) \<and>
      fld Meta ?s' c \<noteq> None \<and> col_size ?s' c = of_nat (length ns')"
    if mem: "(c, ns') \<in> set (drop_cells [j] cols)" for c ns'
  proof -
    from drop_cells_mem [OF mem] obtain ns0 where ns0: "(c, ns0) \<in> set cols"
      "ns' = filter (\<lambda>n. n \<notin> set [j]) ns0"
      by blast
    from ent ns0(1) have p0: "path Down s c (c # ns0) c"
      and c0: "\<forall>n\<in>set ns0. fld Col s n = Some c"
      and m0: "fld Meta s c \<noteq> None" and s0: "col_size s c = of_nat (length ns0)"
      by auto
    have colp: "\<forall>n\<in>set ns'. fld Col ?s' n = Some c" using c0 ns0(2) by simp
    have metap: "fld Meta ?s' c \<noteq> None" using m0 by simp
    show ?thesis
    proof (cases "c = d")
      case True
      with ns0(1) e have "ns0 = ns" using cols_entry_unique [OF dist] by blast
      with ns0(2) ns dns have "ns' = as @ bs"
        using filter_not_mem_split [of as j bs] by simp
      with True newpath newsize colp metap show ?thesis by simp
    next
      case False
      have dj: "set (c # ns0) \<inter> set (d # ns) = {}"
        using cols_entry_disjoint [OF dist ns0(1) e False] .
      with j have "j \<notin> set ns0" by auto
      then have eq: "ns' = ns0" using ns0(2) filter_not_mem_id by simp
      have "up \<notin> set (c # ns0)" using dj up_in by blast
      then have "\<forall>a\<in>set (c # ns0). fld Down ?s' a = fld Down s a"
        by (auto simp: down')
      then have "path Down ?s' c (c # ns0) c = path Down s c (c # ns0) c"
        by (intro path_cong_on) simp_all
      moreover have "col_size ?s' c = col_size s c"
        using False by (simp add: col_size_def meta')
      ultimately show ?thesis using p0 s0 eq colp metap by simp
    qed
  qed
  have K': "set (map fst (drop_cells [j] cols) @ concat (map snd (drop_cells [j] cols))) = ?K - {j}"
  proof -
    have "j \<notin> set (map fst cols)" using dist es j by auto
    then show ?thesis by auto
  qed
  have v': "vinv ?s' (?K - {j})" using vinv_unlinkA [OF v jK hc] .
  show "cols_ok ?s' (drop_cells [j] cols)"
    unfolding cols_ok_def
  proof (intro conjI)
    show "distinct (map fst (drop_cells [j] cols) @ concat (map snd (drop_cells [j] cols)))"
      using dist by auto
    show "vinv ?s' (set (map fst (drop_cells [j] cols) @ concat (map snd (drop_cells [j] cols))))"
      using v' K' by simp
    show "\<forall>(c, ns)\<in>set (drop_cells [j] cols).
       path Down ?s' c (c # ns) c \<and> (\<forall>n\<in>set ns. fld Col ?s' n = Some c) \<and>
       fld Meta ?s' c \<noteq> None \<and> col_size ?s' c = of_nat (length ns)"
      using entry by blast
  qed
qed

lemma cols_ok_fold:
  "cols_ok s cols \<Longrightarrow> distinct js \<Longrightarrow> set js \<subseteq> set (concat (map snd cols)) \<Longrightarrow>
   cols_ok (fold unlinkA js s) (drop_cells js cols) \<and>
   (\<forall>n. fld Up (fold unlinkA js s) n \<noteq> fld Up s n \<or> fld Down (fold unlinkA js s) n \<noteq> fld Down s n
      \<longrightarrow> (\<exists>d ns j. (d, ns) \<in> set cols \<and> j \<in> set js \<and> j \<in> set ns \<and> n \<in> set (d # ns))) \<and>
   (\<forall>n. fld Meta (fold unlinkA js s) n \<noteq> fld Meta s n
      \<longrightarrow> (\<exists>ns j. (n, ns) \<in> set cols \<and> j \<in> set js \<and> j \<in> set ns))"
proof (induction js arbitrary: s cols)
  case Nil
  then show ?case by simp
next
  case (Cons j js)
  let ?s1 = "unlinkA j s" and ?cols1 = "drop_cells [j] cols"
  let ?t = "fold unlinkA js ?s1"
  from Cons.prems(3) have "j \<in> set (concat (map snd cols))" by simp
  then obtain d ns where e: "(d, ns) \<in> set cols" "j \<in> set ns" by auto
  note step = cols_ok_unlink [OF Cons.prems(1) e]
  have djs: "distinct js" and jn: "j \<notin> set js" using Cons.prems(2) by simp_all
  have sub: "set js \<subseteq> set (concat (map snd ?cols1))"
    using Cons.prems(3) jn by auto
  from Cons.IH [OF step(1) djs sub]
  have ok: "cols_ok ?t (drop_cells js ?cols1)"
    and fr: "\<forall>n. fld Up ?t n \<noteq> fld Up ?s1 n \<or> fld Down ?t n \<noteq> fld Down ?s1 n
      \<longrightarrow> (\<exists>d ns j. (d, ns) \<in> set ?cols1 \<and> j \<in> set js \<and> j \<in> set ns \<and> n \<in> set (d # ns))"
    and fm: "\<forall>n. fld Meta ?t n \<noteq> fld Meta ?s1 n
      \<longrightarrow> (\<exists>ns j. (n, ns) \<in> set ?cols1 \<and> j \<in> set js \<and> j \<in> set ns)"
    by blast+
  have lift: "\<exists>ns0. (c, ns0) \<in> set cols \<and> set ns' \<subseteq> set ns0"
    if "(c, ns') \<in> set ?cols1" for c ns'
    using drop_cells_mem [OF that] by auto
  have frame: "\<exists>d ns k. (d, ns) \<in> set cols \<and> k \<in> set (j # js) \<and> k \<in> set ns \<and> n \<in> set (d # ns)"
    if ch: "fld Up ?t n \<noteq> fld Up s n \<or> fld Down ?t n \<noteq> fld Down s n" for n
  proof (cases "fld Up ?t n \<noteq> fld Up ?s1 n \<or> fld Down ?t n \<noteq> fld Down ?s1 n")
    case True
    with fr obtain d' ns' k where k: "(d', ns') \<in> set ?cols1" "k \<in> set js" "k \<in> set ns'"
      "n \<in> set (d' # ns')" by blast
    from lift [OF k(1)] obtain ns0 where "(d', ns0) \<in> set cols" "set ns' \<subseteq> set ns0" by blast
    with k show ?thesis by (intro exI [of _ d'] exI [of _ ns0] exI [of _ k]) auto
  next
    case False
    with ch have "fld Up ?s1 n \<noteq> fld Up s n \<or> fld Down ?s1 n \<noteq> fld Down s n" by auto
    with step(2) have "n \<in> set (d # ns)" by blast
    with e show ?thesis by (intro exI [of _ d] exI [of _ ns] exI [of _ j]) simp
  qed
  have fmeta: "\<exists>ns k. (n, ns) \<in> set cols \<and> k \<in> set (j # js) \<and> k \<in> set ns"
    if ch: "fld Meta ?t n \<noteq> fld Meta s n" for n
  proof (cases "fld Meta ?t n \<noteq> fld Meta ?s1 n")
    case True
    with fm obtain ns' k where k: "(n, ns') \<in> set ?cols1" "k \<in> set js" "k \<in> set ns'" by blast
    from lift [OF k(1)] obtain ns0 where "(n, ns0) \<in> set cols" "set ns' \<subseteq> set ns0" by blast
    with k show ?thesis by (intro exI [of _ ns0] exI [of _ k]) auto
  next
    case False
    with ch have "fld Meta ?s1 n \<noteq> fld Meta s n" by simp
    with step(3) have "n = d" by blast
    with e show ?thesis by (intro exI [of _ ns] exI [of _ j]) simp
  qed
  have "drop_cells (j # js) cols = drop_cells js ?cols1" by (rule drop_cells_Cons)
  with ok frame fmeta show ?case by simp
qed

definition cover_am :: "addr \<Rightarrow> amatrix \<Rightarrow> amatrix" where
  "cover_am c am =
     am\<lparr>am_live := remove1 c (am_live am),
        am_cols := drop_cells (cover_cells am c) (am_cols am)\<rparr>"

lemma cover_am_simps [simp]:
  "am_root (cover_am c am) = am_root am"
  "am_live (cover_am c am) = remove1 c (am_live am)"
  "am_rows (cover_am c am) = am_rows am"
  "am_data (cover_am c am) = am_data am"
  "am_headers (cover_am c am) = am_headers am"
  "am_linked (cover_am c am) = filter (\<lambda>n. n \<notin> set (cover_cells am c)) (am_linked am)"
  "am_cols (cover_am c am) = drop_cells (cover_cells am c) (am_cols am)"
  by (simp_all add: cover_am_def am_data_def am_headers_def am_linked_def)

lemma wf_cover_cells:
  assumes wf: "wf_matrix s am" and c: "c \<in> set (am_live am)"
  shows "distinct (cover_cells am c)" "set (cover_cells am c) \<subseteq> set (am_linked am)"
    "\<forall>j\<in>set (cover_cells am c). fld Col s j \<noteq> Some c"
proof -
  show "distinct (cover_cells am c)"
    using wf_cover_cells_distinct(2) [OF wf c] by (simp add: cover_cells_def)
  show "set (cover_cells am c) \<subseteq> set (am_linked am)"
  proof
    fix j assume "j \<in> set (cover_cells am c)"
    then obtain i where i: "i \<in> set (col_nodes am c)" "j \<in> set (row_from am i)"
      by (auto simp: cover_cells_def)
    with wf_live_row_paths(4) [OF wf c i(1)] show "j \<in> set (am_linked am)" by auto
  qed
  show "\<forall>j\<in>set (cover_cells am c). fld Col s j \<noteq> Some c"
  proof
    fix j assume "j \<in> set (cover_cells am c)"
    then obtain i where i: "i \<in> set (col_nodes am c)" "j \<in> set (row_from am i)"
      by (auto simp: cover_cells_def)
    with wf_live_row_paths(5) [OF wf c i(1)] show "fld Col s j \<noteq> Some c" by blast
  qed
qed

lemma wf_cols_ok:
  assumes wf: "wf_matrix s am"
  shows "cols_ok s (am_cols am)"
proof -
  from wf have d: "distinct (am_root am # am_headers am @ am_data am)"
    and dl: "distinct (am_linked am)" and ld: "set (am_linked am) \<subseteq> set (am_data am)"
    and v: "vinv s (set (am_headers am @ am_linked am))"
    and ent: "\<forall>(c, ns)\<in>set (am_cols am).
         path Down s c (c # ns) c \<and> (\<forall>n\<in>set ns. fld Col s n = Some c) \<and>
         fld Meta s c \<noteq> None \<and> col_size s c = of_nat (length ns)"
    by (simp_all add: wf_matrix_def)
  have "distinct (am_headers am @ am_linked am)"
    using d dl ld by auto
  with v ent show ?thesis
    by (simp add: cols_ok_def am_headers_def am_linked_def)
qed

lemma col_size_cong: "fld Meta s' c = fld Meta s c \<Longrightarrow> col_size s' c = col_size s c"
  by (simp add: col_size_def)

lemma cols_ok_cong:
  assumes "length (heap s') = length (heap s)"
    and "\<And>a. fld Down s' a = fld Down s a" "\<And>a. fld Up s' a = fld Up s a"
    and "\<And>a. fld Col s' a = fld Col s a" "\<And>a. fld Meta s' a = fld Meta s a"
    and ok: "cols_ok s cols"
  shows "cols_ok s' cols"
proof -
  let ?K = "set (map fst cols @ concat (map snd cols))"
  from ok have dist: "distinct (map fst cols @ concat (map snd cols))"
    and v: "vinv s ?K"
    and ent: "\<forall>(c, ns)\<in>set cols.
         path Down s c (c # ns) c \<and> (\<forall>n\<in>set ns. fld Col s n = Some c) \<and>
         fld Meta s c \<noteq> None \<and> col_size s c = of_nat (length ns)"
    by (simp_all add: cols_ok_def)
  have v': "vinv s' ?K"
    using v by (rule linv_cong [rotated 2]) (simp_all add: assms)
  have "path Down s' c (c # ns) c \<and> (\<forall>n\<in>set ns. fld Col s' n = Some c) \<and>
         fld Meta s' c \<noteq> None \<and> col_size s' c = of_nat (length ns)"
    if "(c, ns) \<in> set cols" for c ns
  proof -
    have "path Down s' c (c # ns) c = path Down s c (c # ns) c"
      by (rule path_cong_on) (simp_all add: assms)
    moreover have "col_size s' c = col_size s c"
      by (rule col_size_cong) (simp add: assms)
    ultimately show ?thesis using ent that by (auto simp: assms)
  qed
  with dist v' show ?thesis unfolding cols_ok_def by blast
qed

lemma wf_header_after:
  assumes wf: "wf_matrix s am" and c: "c \<in> set (am_live am)"
  shows "path Right (hunlinkA c s) (am_root am) (am_root am # remove1 c (am_live am)) (am_root am)"
    and "linv Right Left (hunlinkA c s) (set (am_root am # remove1 c (am_live am)))"
    and "\<forall>n. fld Right (hunlinkA c s) n \<noteq> fld Right s n \<longrightarrow> fld Left s c = Some n"
    and "\<forall>n. fld Left (hunlinkA c s) n \<noteq> fld Left s n \<longrightarrow> fld Right s c = Some n"
proof -
  let ?root = "am_root am" and ?h = "hunlinkA c s"
  let ?H = "set (?root # am_live am)"
  from wf have ring: "path Right s ?root (?root # am_live am) ?root"
    and li: "linv Right Left s ?H"
    and dist: "distinct (?root # am_live am)"
    by (auto simp: wf_matrix_def)
  from wf_header_links [OF wf c] obtain l r where lr: "fld Right s c = Some r"
    "fld Left s r = Some c" "fld Left s c = Some l" "fld Right s l = Some c"
    "r \<in> ?H" "l \<in> ?H" "c \<noteq> r" "c \<noteq> l"
    by blast
  have lv: "l < length (heap s)" and rv: "r < length (heap s)"
    using li lr(5,6) unfolding linv_def by blast+
  have right': "fld Right ?h n = (if n = l then Some r else fld Right s n)" for n
    using hunlinkA_Right [OF lr(3) lv] lr(1) by simp
  have left': "fld Left ?h n = (if n = r then Some l else fld Left s n)" for n
    using hunlinkA_Left [OF lr(1) rv] lr(3) by simp
  show "\<forall>n. fld Right ?h n \<noteq> fld Right s n \<longrightarrow> fld Left s c = Some n"
    using lr(3) by (auto simp: right' split: if_splits)
  show "\<forall>n. fld Left ?h n \<noteq> fld Left s n \<longrightarrow> fld Right s c = Some n"
    using lr(1) by (auto simp: left' split: if_splits)
  from c obtain as bs where live: "am_live am = as @ c # bs"
    by (auto simp: in_set_conv_decomp)
  have cas: "c \<notin> set as" using dist live by auto
  have rem: "remove1 c (am_live am) = as @ bs"
    using live cas by (simp add: remove1_append)
  have p: "path Right s ?root ((?root # as) @ c # bs) ?root" using ring live by simp
  have "fld Left s c = Some (last (?root # as))"
  proof (rule path_pred [OF p _ li])
    show "set (?root # as) \<subseteq> ?H" using live by auto
  qed simp
  with lr(3) have l: "l = last (?root # as)" by simp
  have "path Right ?h ?root ((?root # as) @ bs) ?root"
  proof (rule path_unlink [OF p])
    show "distinct ((?root # as) @ c # bs)" using dist live by simp
    show "\<forall>n. n \<noteq> last (?root # as) \<longrightarrow> fld Right ?h n = fld Right s n"
      using l by (simp add: right')
    show "fld Right ?h (last (?root # as)) = fld Right s c"
      using l lr(1) by (simp add: right')
  qed simp_all
  then show "path Right ?h ?root (?root # remove1 c (am_live am)) ?root"
    using rem by simp
  have cH: "c \<in> ?H" using c by simp
  have "linv Right Left ?h (?H - {c})"
    by (rule linv_unlink [OF li cH lr(1) lr(3)]) (simp_all add: right' left')
  moreover have "?H - {c} = set (?root # remove1 c (am_live am))"
    using dist live rem by auto
  ultimately show "linv Right Left ?h (set (?root # remove1 c (am_live am)))" by simp
qed

lemma col_size_log_event [simp]: "col_size (log_event e s) c = col_size s c"
  by (simp add: col_size_def)

lemma fld_log_event_fun [simp]: "fld f (log_event e s) = fld f s"
  by (rule ext) simp

lemma wf_matrix_log_event [simp]: "wf_matrix (log_event e s) am = wf_matrix s am"
  by (simp add: wf_matrix_def del: path.simps)

lemma wf_covered:
  assumes wf: "wf_matrix s am" and c: "c \<in> set (am_live am)"
  shows "wf_matrix (covered c (cover_cells am c) s) (cover_am c am)"
proof -
  define b where "b = log_event (LogCover (col_name s c)) s"
  define J where "J = cover_cells am c"
  define h where "h = hunlinkA c b"
  define s1 where "s1 = fold unlinkA J h"
  define am' where "am' = cover_am c am"
  let ?root = "am_root am"
  have s1: "covered c (cover_cells am c) s = s1"
    by (simp add: covered_def s1_def h_def b_def J_def)
  have wfb: "wf_matrix b am" using wf by (simp add: b_def)
  have am'[simp]: "am_root am' = ?root" "am_live am' = remove1 c (am_live am)"
    "am_rows am' = am_rows am" "am_data am' = am_data am" "am_headers am' = am_headers am"
    "am_linked am' = filter (\<lambda>n. n \<notin> set J) (am_linked am)"
    "am_cols am' = drop_cells J (am_cols am)"
    by (simp_all add: am'_def J_def)
  from wfb have d: "distinct (?root # am_headers am @ am_data am)"
    and valid: "\<forall>a\<in>set (?root # am_headers am @ am_data am). a < length (heap b)"
    and dlive: "distinct (am_live am)" and live: "set (am_live am) \<subseteq> set (am_headers am)"
    and dl: "distinct (am_linked am)" and ld: "set (am_linked am) \<subseteq> set (am_data am)"
    and hd: "linv Right Left b (set (am_data am))"
    and w5: "\<forall>r\<in>set (am_rows am).
         set r \<subseteq> set (am_linked am) \<or>
         (\<forall>n\<in>set r. n \<in> set (am_linked am) \<longrightarrow> fld Col b n \<notin> Some ` set (am_live am))"
    by (simp_all add: wf_matrix_def)
  have len: "length (heap s1) = length (heap b)" by (simp add: s1_def h_def)
  have colf: "fld Col s1 n = fld Col b n" for n by (simp add: s1_def h_def)
  note hdr = wf_header_after [OF wfb c, folded h_def]
  have Jd: "distinct J" and Jl: "set J \<subseteq> set (am_linked am)"
    and Jc: "\<forall>j\<in>set J. fld Col b j \<noteq> Some c"
    using wf_cover_cells [OF wfb c] by (simp_all add: J_def)
  from wf_header_links [OF wfb c] obtain l r where lr: "fld Right b c = Some r"
    "fld Left b c = Some l" "r \<in> set (?root # am_live am)" "l \<in> set (?root # am_live am)"
    by blast
  have nodata: "x \<notin> set (am_data am)" if "x \<in> set (?root # am_live am)" for x
    using that d live by auto
  have rightf: "fld Right s1 n = fld Right b n" if "n \<in> set (am_data am)" for n
  proof -
    have "fld Right h n = fld Right b n"
    proof (rule ccontr)
      assume "fld Right h n \<noteq> fld Right b n"
      with hdr(3) lr(2) have "n = l" by auto
      with nodata [OF lr(4)] that show False by simp
    qed
    then show ?thesis by (simp add: s1_def)
  qed
  have leftf: "fld Left s1 n = fld Left b n" if "n \<in> set (am_data am)" for n
  proof -
    have "fld Left h n = fld Left b n"
    proof (rule ccontr)
      assume "fld Left h n \<noteq> fld Left b n"
      with hdr(4) lr(1) have "n = r" by auto
      with nodata [OF lr(3)] that show False by simp
    qed
    then show ?thesis by (simp add: s1_def)
  qed
  have 1: "distinct (am_root am' # am_headers am' @ am_data am')" using d by simp
  have 2: "\<forall>a\<in>set (am_root am' # am_headers am' @ am_data am'). a < length (heap s1)"
    using valid len by simp
  have 3: "distinct (am_live am')" using dlive by simp
  have 4: "set (am_live am') \<subseteq> set (am_headers am')"
    using live set_remove1_subset [of c "am_live am"] by auto
  have 5: "path Right s1 (am_root am') (am_root am' # am_live am') (am_root am')"
  proof -
    have "path Right s1 ?root (?root # remove1 c (am_live am)) ?root =
        path Right h ?root (?root # remove1 c (am_live am)) ?root"
      by (rule path_cong_on) (simp_all add: s1_def)
    with hdr(1) show ?thesis by simp
  qed
  have 6: "linv Right Left s1 (set (am_root am' # am_live am'))"
  proof -
    have "linv Right Left s1 (set (?root # remove1 c (am_live am)))"
      using hdr(2) by (rule linv_cong [rotated 2]) (simp_all add: s1_def)
    then show ?thesis by simp
  qed
  have 7: "distinct (am_linked am')" using dl by simp
  have 8: "set (am_linked am') \<subseteq> set (am_data am')" using ld by auto
  have okh: "cols_ok h (am_cols am)"
    by (rule cols_ok_cong [OF _ _ _ _ _ wf_cols_ok [OF wfb]]) (simp_all add: h_def)
  have Jsub: "set J \<subseteq> set (concat (map snd (am_cols am)))"
    using Jl by (simp add: am_linked_def)
  from cols_ok_fold [OF okh Jd Jsub]
  have ok1: "cols_ok s1 (drop_cells J (am_cols am))" by (simp add: s1_def)
  have 9: "linv Down Up s1 (set (am_headers am' @ am_linked am'))"
  proof -
    from ok1 have "vinv s1 (set (map fst (drop_cells J (am_cols am)) @
        concat (map snd (drop_cells J (am_cols am)))))"
      unfolding cols_ok_def by blast
    then show ?thesis by (simp add: am_headers_def am_linked_def)
  qed
  have 10: "\<forall>(c, ns)\<in>set (am_cols am').
         path Down s1 c (c # ns) c \<and> (\<forall>n\<in>set ns. fld Col s1 n = Some c) \<and>
         fld Meta s1 c \<noteq> None \<and> col_size s1 c = of_nat (length ns)"
    using ok1 unfolding cols_ok_def by simp
  have 11: "linv Right Left s1 (set (am_data am'))"
  proof -
    have "linv Right Left s1 (set (am_data am))"
      using hd by (rule linv_cong [rotated 2]) (simp_all add: len rightf leftf)
    then show ?thesis by simp
  qed
  have 12: "\<forall>r\<in>set (am_rows am').
         r \<noteq> [] \<and> path Right s1 (hd r) r (hd r) \<and>
         (\<forall>n\<in>set r. \<exists>c\<in>set (am_headers am'). fld Col s1 n = Some c) \<and>
         distinct (map (fld Col s1) r)"
  proof
    fix r assume "r \<in> set (am_rows am')"
    then have r: "r \<in> set (am_rows am)" by simp
    note wr = wf_row [OF wfb r]
    have "path Right s1 (hd r) r (hd r) = path Right b (hd r) r (hd r)"
    proof (rule path_cong_on [OF len])
      show "\<forall>a\<in>set r. fld Right s1 a = fld Right b a" using wr(6) rightf by blast
    qed
    moreover have "fld Col s1 = fld Col b" by (rule ext) (simp add: colf)
    ultimately show "r \<noteq> [] \<and> path Right s1 (hd r) r (hd r) \<and>
         (\<forall>n\<in>set r. \<exists>c\<in>set (am_headers am'). fld Col s1 n = Some c) \<and>
         distinct (map (fld Col s1) r)"
      using wr(1,2,3,4) by simp
  qed
  have 13: "\<forall>r\<in>set (am_rows am').
         set r \<subseteq> set (am_linked am') \<or>
         (\<forall>n\<in>set r. n \<in> set (am_linked am') \<longrightarrow> fld Col s1 n \<notin> Some ` set (am_live am'))"
  proof
    fix r assume "r \<in> set (am_rows am')"
    then have r: "r \<in> set (am_rows am)" by simp
    have live': "set (am_live am') = set (am_live am) - {c}" using dlive by simp
    have linked': "set (am_linked am') = set (am_linked am) - set J" by auto
    from w5 r have "set r \<subseteq> set (am_linked am) \<or>
         (\<forall>n\<in>set r. n \<in> set (am_linked am) \<longrightarrow> fld Col b n \<notin> Some ` set (am_live am))"
      by blast
    then show "set r \<subseteq> set (am_linked am') \<or>
         (\<forall>n\<in>set r. n \<in> set (am_linked am') \<longrightarrow> fld Col s1 n \<notin> Some ` set (am_live am'))"
    proof
      assume B: "\<forall>n\<in>set r. n \<in> set (am_linked am) \<longrightarrow> fld Col b n \<notin> Some ` set (am_live am)"
      have "\<forall>n\<in>set r. n \<in> set (am_linked am') \<longrightarrow> fld Col s1 n \<notin> Some ` set (am_live am')"
        using B unfolding live' linked' colf by blast
      then show ?thesis by blast
    next
      assume A: "set r \<subseteq> set (am_linked am)"
      show ?thesis
      proof (cases "set r \<inter> set (col_nodes am c) = {}")
        case True
        have "set r \<inter> set J = {}"
        proof (rule ccontr)
          assume "set r \<inter> set J \<noteq> {}"
          then obtain j where j: "j \<in> set r" "j \<in> set J" by blast
          from j(2) obtain i where i: "i \<in> set (col_nodes am c)" "j \<in> set (row_from am i)"
            by (auto simp: J_def cover_cells_def)
          from wf_live_row [OF wfb c i(1)] obtain r' where r': "r' \<in> set (am_rows am)"
            "i \<in> set r'" "row_from am i = rotate_from i r'" by blast
          have "set (i # rotate_from i r') = set r'"
            using rotate_from_set(1) [OF r'(2) wf_row(5) [OF wfb r'(1)]] .
          with i(2) r'(3) have "j \<in> set r'" by auto
          moreover from wfb have "distinct (concat (am_rows am))"
            by (simp add: wf_matrix_def am_data_def)
          ultimately have "r = r'" using rows_disjoint [OF _ r r'(1) j(1)] by blast
          with r'(2) i(1) True show False by blast
        qed
        with A have "set r \<subseteq> set (am_linked am')" unfolding linked' by blast
        then show ?thesis by blast
      next
        case False
        then obtain i where i: "i \<in> set r" "i \<in> set (col_nodes am c)" by blast
        from wf_live_row [OF wfb c i(2)] obtain r' where r': "r' \<in> set (am_rows am)"
          "i \<in> set r'" "row_from am i = rotate_from i r'" by blast
        from wfb have "distinct (concat (am_rows am))"
          by (simp add: wf_matrix_def am_data_def)
        from rows_disjoint [OF this r r'(1) i(1) r'(2)] have rr: "r = r'" .
        have sr: "set (i # row_from am i) = set r"
          using rotate_from_set(1) [OF r'(2) wf_row(5) [OF wfb r'(1)]] r'(3) rr by simp
        have inJ: "set (row_from am i) \<subseteq> set J"
          using i(2) by (auto simp: J_def cover_cells_def)
        have ch: "c \<in> set (am_headers am)" using c live by blast
        have ci: "fld Col b i = Some c" using wf_col(2) [OF wfb ch] i(2) by blast
        have "fld Col s1 n \<notin> Some ` set (am_live am')"
          if n: "n \<in> set r" "n \<in> set (am_linked am')" for n
        proof -
          from n(2) have "n \<notin> set J" unfolding linked' by blast
          with inJ have "n \<notin> set (row_from am i)" by blast
          with n(1) sr have "n = i" by auto
          with ci show ?thesis unfolding live' colf by auto
        qed
        then show ?thesis by blast
      qed
    qed
  qed
  have "wf_matrix s1 am'"
    unfolding wf_matrix_def
    by (intro conjI) (fact 1 2 3 4 5 6 7 8 9 10 11 12 13)+
  then show ?thesis by (simp add: s1 am'_def)
qed

lemma wf_col_of_entry:
  assumes wf: "wf_matrix s am" and e: "(d, ns) \<in> set (am_cols am)"
  shows "ns = col_nodes am d" "d \<in> set (am_headers am)"
proof -
  show h: "d \<in> set (am_headers am)" using e by (force simp: am_headers_def)
  from wf have "distinct (map fst (am_cols am))"
    by (simp add: wf_matrix_def am_headers_def)
  from eq_key_imp_eq_value [OF this e wf_col_entry [OF wf h]] show "ns = col_nodes am d" .
qed

text \<open>What Cover changes, and what it leaves as it was.\<close>

lemma covered_frame:
  assumes wf: "wf_matrix s am" and c: "c \<in> set (am_live am)"
  shows "\<forall>n. fld Right (covered c (cover_cells am c) s) n \<noteq> fld Right s n \<longrightarrow> fld Left s c = Some n"
    and "\<forall>n. fld Left (covered c (cover_cells am c) s) n \<noteq> fld Left s n \<longrightarrow> fld Right s c = Some n"
    and "\<forall>n. fld Up (covered c (cover_cells am c) s) n \<noteq> fld Up s n \<or>
             fld Down (covered c (cover_cells am c) s) n \<noteq> fld Down s n \<longrightarrow>
           (\<exists>j\<in>set (cover_cells am c). \<exists>d. fld Col s j = Some d \<and> n \<in> set (d # col_nodes am d))"
    and "\<forall>n. fld Meta (covered c (cover_cells am c) s) n \<noteq> fld Meta s n \<longrightarrow>
           (\<exists>j\<in>set (cover_cells am c). fld Col s j = Some n)"
    and "\<forall>n. fld Col (covered c (cover_cells am c) s) n = fld Col s n"
    and "\<forall>n. col_name (covered c (cover_cells am c) s) n = col_name s n"
    and "length (heap (covered c (cover_cells am c) s)) = length (heap s)"
proof -
  define b where "b = log_event (LogCover (col_name s c)) s"
  define J where "J = cover_cells am c"
  define h where "h = hunlinkA c b"
  define s1 where "s1 = fold unlinkA J h"
  have s1: "covered c (cover_cells am c) s = s1"
    by (simp add: covered_def s1_def h_def b_def J_def)
  have wfb: "wf_matrix b am" using wf by (simp add: b_def)
  note hdr = wf_header_after [OF wfb c, folded h_def]
  have Jd: "distinct J" and Jl: "set J \<subseteq> set (am_linked am)"
    using wf_cover_cells [OF wfb c] by (simp_all add: J_def)
  have okh: "cols_ok h (am_cols am)"
    by (rule cols_ok_cong [OF _ _ _ _ _ wf_cols_ok [OF wfb]]) (simp_all add: h_def)
  have Jsub: "set J \<subseteq> set (concat (map snd (am_cols am)))"
    using Jl by (simp add: am_linked_def)
  from cols_ok_fold [OF okh Jd Jsub]
  have fr: "\<forall>n. fld Up s1 n \<noteq> fld Up h n \<or> fld Down s1 n \<noteq> fld Down h n
      \<longrightarrow> (\<exists>d ns j. (d, ns) \<in> set (am_cols am) \<and> j \<in> set J \<and> j \<in> set ns \<and> n \<in> set (d # ns))"
    and fm: "\<forall>n. fld Meta s1 n \<noteq> fld Meta h n
      \<longrightarrow> (\<exists>ns j. (n, ns) \<in> set (am_cols am) \<and> j \<in> set J \<and> j \<in> set ns)"
    unfolding s1_def by blast+
  have colj: "fld Col s j = Some d \<and> ns = col_nodes am d"
    if "(d, ns) \<in> set (am_cols am)" "j \<in> set ns" for d ns j
  proof -
    note e = wf_col_of_entry [OF wf that(1)]
    from wf_col(2) [OF wf e(2)] that(2) e(1) show ?thesis by simp
  qed
  have "\<forall>n. fld Right s1 n \<noteq> fld Right s n \<longrightarrow> fld Left s c = Some n"
    using hdr(3) by (simp add: s1_def b_def)
  then show "\<forall>n. fld Right (covered c (cover_cells am c) s) n \<noteq> fld Right s n \<longrightarrow>
      fld Left s c = Some n"
    unfolding s1 .
  have "\<forall>n. fld Left s1 n \<noteq> fld Left s n \<longrightarrow> fld Right s c = Some n"
    using hdr(4) by (simp add: s1_def b_def)
  then show "\<forall>n. fld Left (covered c (cover_cells am c) s) n \<noteq> fld Left s n \<longrightarrow>
      fld Right s c = Some n"
    unfolding s1 .
  have "\<exists>j\<in>set J. \<exists>d. fld Col s j = Some d \<and> n \<in> set (d # col_nodes am d)"
    if "fld Up s1 n \<noteq> fld Up s n \<or> fld Down s1 n \<noteq> fld Down s n" for n
  proof -
    from that have "fld Up s1 n \<noteq> fld Up h n \<or> fld Down s1 n \<noteq> fld Down h n"
      by (simp add: h_def b_def)
    with fr obtain d ns j where x: "(d, ns) \<in> set (am_cols am)" "j \<in> set J" "j \<in> set ns"
      "n \<in> set (d # ns)" by blast
    from colj [OF x(1,3)] x(4) have "fld Col s j = Some d \<and> n \<in> set (d # col_nodes am d)"
      by simp
    with x(2) show ?thesis by blast
  qed
  then show "\<forall>n. fld Up (covered c (cover_cells am c) s) n \<noteq> fld Up s n \<or>
             fld Down (covered c (cover_cells am c) s) n \<noteq> fld Down s n \<longrightarrow>
           (\<exists>j\<in>set (cover_cells am c). \<exists>d. fld Col s j = Some d \<and> n \<in> set (d # col_nodes am d))"
    unfolding s1 J_def by blast
  have "\<exists>j\<in>set J. fld Col s j = Some n" if "fld Meta s1 n \<noteq> fld Meta s n" for n
  proof -
    from that have "fld Meta s1 n \<noteq> fld Meta h n" by (simp add: h_def b_def)
    with fm obtain ns j where x: "(n, ns) \<in> set (am_cols am)" "j \<in> set J" "j \<in> set ns"
      by blast
    from colj [OF x(1,3)] x(2) show ?thesis by blast
  qed
  then show "\<forall>n. fld Meta (covered c (cover_cells am c) s) n \<noteq> fld Meta s n \<longrightarrow>
           (\<exists>j\<in>set (cover_cells am c). fld Col s j = Some n)"
    unfolding s1 J_def by blast
  show "\<forall>n. fld Col (covered c (cover_cells am c) s) n = fld Col s n"
    by (simp add: covered_def)
  show "\<forall>n. col_name (covered c (cover_cells am c) s) n = col_name s n"
    by (simp add: covered_def)
  show "length (heap (covered c (cover_cells am c) s)) = length (heap s)"
    by (simp add: covered_def)
qed

text \<open>Unlinking a cell writes only to the nodes that point to it.\<close>

lemma unlink_tight:
  assumes ok: "cols_ok s cols" and e: "(d, ns) \<in> set cols" and j: "j \<in> set ns"
  shows "\<forall>n. fld Up (unlinkA j s) n \<noteq> fld Up s n \<longrightarrow> fld Up s n = Some j"
    and "\<forall>n. fld Down (unlinkA j s) n \<noteq> fld Down s n \<longrightarrow> fld Down s n = Some j"
proof -
  let ?K = "set (map fst cols @ concat (map snd cols))"
  from ok have v: "vinv s ?K"
    and ent: "\<forall>(c, ns)\<in>set cols.
         path Down s c (c # ns) c \<and> (\<forall>n\<in>set ns. fld Col s n = Some c) \<and>
         fld Meta s c \<noteq> None \<and> col_size s c = of_nat (length ns)"
    by (simp_all add: cols_ok_def)
  from ent e have cd: "\<forall>n\<in>set ns. fld Col s n = Some d" and md: "fld Meta s d \<noteq> None"
    by auto
  note es = cols_entry_sets [OF e]
  have dK: "d \<in> ?K" and jK: "j \<in> ?K" using es j by auto
  have dv: "d < length (heap s)" using v dK unfolding linv_def by blast
  have hc: "has_col s j" using cd j dv md by (auto simp: has_col_def)
  from vinv_cell_ok [OF v jK hc] obtain dn up c' where cell: "cell_ok s j dn up c'"
    and bk: "fld Up s dn = Some j" "fld Down s up = Some j"
    by blast
  show "\<forall>n. fld Up (unlinkA j s) n \<noteq> fld Up s n \<longrightarrow> fld Up s n = Some j"
    using bk(1) by (simp add: unlinkA_Up [OF cell])
  show "\<forall>n. fld Down (unlinkA j s) n \<noteq> fld Down s n \<longrightarrow> fld Down s n = Some j"
    using bk(2) by (simp add: unlinkA_Down [OF cell])
qed

lemma fold_tight:
  "cols_ok s cols \<Longrightarrow> distinct js \<Longrightarrow> set js \<subseteq> set (concat (map snd cols)) \<Longrightarrow>
   (\<forall>n. fld Up (fold unlinkA js s) n \<noteq> fld Up s n \<longrightarrow> (\<exists>j\<in>set js. fld Up s n = Some j)) \<and>
   (\<forall>n. fld Down (fold unlinkA js s) n \<noteq> fld Down s n \<longrightarrow> (\<exists>j\<in>set js. fld Down s n = Some j))"
proof (induction js arbitrary: s cols)
  case Nil
  then show ?case by simp
next
  case (Cons j js)
  let ?s1 = "unlinkA j s" and ?cols1 = "drop_cells [j] cols"
  let ?t = "fold unlinkA js ?s1"
  from Cons.prems(3) have "j \<in> set (concat (map snd cols))" by simp
  then obtain d ns where e: "(d, ns) \<in> set cols" "j \<in> set ns" by auto
  note step = cols_ok_unlink(1) [OF Cons.prems(1) e]
  note tight = unlink_tight [OF Cons.prems(1) e]
  have djs: "distinct js" and jn: "j \<notin> set js" using Cons.prems(2) by simp_all
  have sub: "set js \<subseteq> set (concat (map snd ?cols1))"
    using Cons.prems(3) jn by auto
  from Cons.IH [OF step djs sub]
  have up: "\<forall>n. fld Up ?t n \<noteq> fld Up ?s1 n \<longrightarrow> (\<exists>k\<in>set js. fld Up ?s1 n = Some k)"
    and down: "\<forall>n. fld Down ?t n \<noteq> fld Down ?s1 n \<longrightarrow> (\<exists>k\<in>set js. fld Down ?s1 n = Some k)"
    by blast+
  have "\<exists>k\<in>set (j # js). fld Up s n = Some k" if ch: "fld Up ?t n \<noteq> fld Up s n" for n
  proof (cases "fld Up ?s1 n = fld Up s n")
    case True
    with ch have "fld Up ?t n \<noteq> fld Up ?s1 n" by simp
    with up obtain k where k: "k \<in> set js" "fld Up ?s1 n = Some k" by blast
    from k(2) True have "fld Up s n = Some k" by simp
    with k(1) show ?thesis by (intro bexI [of _ k]) simp_all
  next
    case False
    with tight(1) show ?thesis by simp
  qed
  moreover have "\<exists>k\<in>set (j # js). fld Down s n = Some k"
    if ch: "fld Down ?t n \<noteq> fld Down s n" for n
  proof (cases "fld Down ?s1 n = fld Down s n")
    case True
    with ch have "fld Down ?t n \<noteq> fld Down ?s1 n" by simp
    with down obtain k where k: "k \<in> set js" "fld Down ?s1 n = Some k" by blast
    from k(2) True have "fld Down s n = Some k" by simp
    with k(1) show ?thesis by (intro bexI [of _ k]) simp_all
  next
    case False
    with tight(2) show ?thesis by simp
  qed
  ultimately show ?case by simp
qed

lemma covered_tight:
  assumes wf: "wf_matrix s am" and c: "c \<in> set (am_live am)"
  shows "\<forall>n. fld Up (covered c (cover_cells am c) s) n \<noteq> fld Up s n \<longrightarrow>
           (\<exists>j\<in>set (cover_cells am c). fld Up s n = Some j)"
    and "\<forall>n. fld Down (covered c (cover_cells am c) s) n \<noteq> fld Down s n \<longrightarrow>
           (\<exists>j\<in>set (cover_cells am c). fld Down s n = Some j)"
proof -
  define b where "b = log_event (LogCover (col_name s c)) s"
  define J where "J = cover_cells am c"
  define h where "h = hunlinkA c b"
  have s1: "covered c (cover_cells am c) s = fold unlinkA J h"
    by (simp add: covered_def h_def b_def J_def)
  have wfb: "wf_matrix b am" using wf by (simp add: b_def)
  have Jd: "distinct J" and Jl: "set J \<subseteq> set (am_linked am)"
    using wf_cover_cells [OF wfb c] by (simp_all add: J_def)
  have okh: "cols_ok h (am_cols am)"
    by (rule cols_ok_cong [OF _ _ _ _ _ wf_cols_ok [OF wfb]]) (simp_all add: h_def)
  have Jsub: "set J \<subseteq> set (concat (map snd (am_cols am)))"
    using Jl by (simp add: am_linked_def)
  have same: "fld Up h n = fld Up s n" "fld Down h n = fld Down s n" for n
    by (simp_all add: h_def b_def)
  from fold_tight [OF okh Jd Jsub]
  show "\<forall>n. fld Up (covered c (cover_cells am c) s) n \<noteq> fld Up s n \<longrightarrow>
           (\<exists>j\<in>set (cover_cells am c). fld Up s n = Some j)"
    and "\<forall>n. fld Down (covered c (cover_cells am c) s) n \<noteq> fld Down s n \<longrightarrow>
           (\<exists>j\<in>set (cover_cells am c). fld Down s n = Some j)"
    unfolding s1 same J_def by blast+
qed

text \<open>
  C6. Cover writes only the \<open>Right\<close> of \<open>c\<close>'s left neighbour and the \<open>Left\<close> of its right
  neighbour in the header row, the \<open>Up\<close> of nodes whose upper neighbour, and the \<open>Down\<close>
  of nodes whose lower neighbour, is one of the other cells of the rows that meet \<open>c\<close>,
  and the \<open>Size\<close> of the columns of those cells. The \<open>Left\<close> and \<open>Right\<close> of every data
  node are as before, and every row that meets \<open>c\<close> can still be walked to the right
  from its cell in \<open>c\<close>.
\<close>

theorem Cover_frame:
  assumes "wf_matrix s am" and "c \<in> set (am_live am)"
  shows "\<exists>s1. Cover (Some c) s = ok s1 \<and>
     (\<forall>n. fld Right s1 n \<noteq> fld Right s n \<longrightarrow> fld Left s c = Some n) \<and>
     (\<forall>n. fld Left s1 n \<noteq> fld Left s n \<longrightarrow> fld Right s c = Some n) \<and>
     (\<forall>n. fld Up s1 n \<noteq> fld Up s n \<longrightarrow>
        (\<exists>j\<in>set (cover_cells am c). fld Up s n = Some j)) \<and>
     (\<forall>n. fld Down s1 n \<noteq> fld Down s n \<longrightarrow>
        (\<exists>j\<in>set (cover_cells am c). fld Down s n = Some j)) \<and>
     (\<forall>n. fld Meta s1 n \<noteq> fld Meta s n \<longrightarrow>
        (\<exists>j\<in>set (cover_cells am c). fld Col s j = Some n) \<and> col_name s1 n = col_name s n) \<and>
     (\<forall>n. fld Col s1 n = fld Col s n) \<and>
     (\<forall>n\<in>set (am_data am). fld Right s1 n = fld Right s n \<and> fld Left s1 n = fld Left s n) \<and>
     (\<forall>i\<in>set (col_nodes am c). path Right s1 i (i # row_from am i) i)"
proof -
  let ?s1 = "covered c (cover_cells am c) s"
  note fr = covered_frame [OF assms]
  note ud = covered_tight [OF assms]
  have run: "Cover (Some c) s = ok ?s1" using wf_Cover_Uncover(1) [OF assms] .
  from wf_header_links [OF assms] obtain l r where lr: "fld Right s c = Some r"
    "fld Left s c = Some l" "r \<in> set (am_root am # am_live am)"
    "l \<in> set (am_root am # am_live am)"
    by blast
  from assms(1) have d: "distinct (am_root am # am_headers am @ am_data am)"
    and live: "set (am_live am) \<subseteq> set (am_headers am)"
    by (simp_all add: wf_matrix_def)
  have nodata: "x \<notin> set (am_data am)" if "x \<in> set (am_root am # am_live am)" for x
    using that d live by auto
  have data: "fld Right ?s1 n = fld Right s n \<and> fld Left ?s1 n = fld Left s n"
    if n: "n \<in> set (am_data am)" for n
  proof -
    have "n \<noteq> l" "n \<noteq> r" using nodata [OF lr(3)] nodata [OF lr(4)] n by auto
    with fr(1,2) lr(1,2) show ?thesis by auto
  qed
  have rows: "path Right ?s1 i (i # row_from am i) i" if i: "i \<in> set (col_nodes am c)" for i
  proof -
    note rp = wf_live_row_paths [OF assms i]
    from assms(1) have "set (am_linked am) \<subseteq> set (am_data am)" by (simp add: wf_matrix_def)
    with rp(4) have "\<forall>a\<in>set (i # row_from am i). fld Right ?s1 a = fld Right s a"
      using data by blast
    then have "path Right ?s1 i (i # row_from am i) i = path Right s i (i # row_from am i) i"
      by (intro path_cong_on fr(7))
    with rp(1) show ?thesis by simp
  qed
  have meta: "\<forall>n. fld Meta ?s1 n \<noteq> fld Meta s n \<longrightarrow>
        (\<exists>j\<in>set (cover_cells am c). fld Col s j = Some n) \<and> col_name ?s1 n = col_name s n"
    using fr(4,6) by blast
  from run fr(1,2) ud fr(5) meta data rows show ?thesis by blast
qed

theorem Cover_frame_witness:
  "wf_matrix knuth_state knuth_am \<and> 4 \<in> set (am_live knuth_am) \<and>
   (\<exists>s1. Cover (Some 4) knuth_state = ok s1 \<and>
     (\<forall>n. fld Right s1 n \<noteq> fld Right knuth_state n \<longrightarrow> fld Left knuth_state 4 = Some n) \<and>
     (\<forall>n. fld Left s1 n \<noteq> fld Left knuth_state n \<longrightarrow> fld Right knuth_state 4 = Some n) \<and>
     (\<forall>n. fld Up s1 n \<noteq> fld Up knuth_state n \<longrightarrow>
        (\<exists>j\<in>set (cover_cells knuth_am 4). fld Up knuth_state n = Some j)) \<and>
     (\<forall>n. fld Down s1 n \<noteq> fld Down knuth_state n \<longrightarrow>
        (\<exists>j\<in>set (cover_cells knuth_am 4). fld Down knuth_state n = Some j)) \<and>
     (\<forall>n. fld Meta s1 n \<noteq> fld Meta knuth_state n \<longrightarrow>
        (\<exists>j\<in>set (cover_cells knuth_am 4). fld Col knuth_state j = Some n) \<and>
        col_name s1 n = col_name knuth_state n) \<and>
     (\<forall>n. fld Col s1 n = fld Col knuth_state n) \<and>
     (\<forall>n\<in>set (am_data knuth_am).
        fld Right s1 n = fld Right knuth_state n \<and> fld Left s1 n = fld Left knuth_state n) \<and>
     (\<forall>i\<in>set (col_nodes knuth_am 4). path Right s1 i (i # row_from knuth_am i) i))"
proof -
  have live: "4 \<in> set (am_live knuth_am)" by (simp add: knuth_am_def)
  from Cover_frame [OF knuth_wf live] knuth_wf live show ?thesis by blast
qed

section \<open>The size of a column\<close>

text \<open>
  \<open>size_counts s c ns\<close>: walking \<open>Down\<close> from the header \<open>c\<close> meets the nodes \<open>ns\<close> and
  then \<open>c\<close> again for the first time, and the \<open>Size\<close> of \<open>c\<close> is the number of these
  nodes.
\<close>

definition size_counts :: "state \<Rightarrow> addr \<Rightarrow> addr list \<Rightarrow> bool" where
  "size_counts s c ns =
     (path Down s c (c # ns) c \<and> c \<notin> set ns \<and> col_size s c = of_nat (length ns))"

lemma ColAppend_bottom:
  assumes p: "path Down s c (c # ns) c" and d: "distinct (c # ns)"
    and up: "fld Up s c = Some (last (c # ns))"
    and n: "n < length (heap s)" and fresh: "n \<notin> set (c # ns)"
    and m: "fld Meta s c \<noteq> None"
  shows "\<exists>s'. ColAppend (Some c) (Some n) s = ok s' \<and>
           path Down s' c (c # ns @ [n]) c \<and> fld Col s' n = Some c \<and>
           fld Up s' c = Some n \<and> fld Up s' n = Some (last (c # ns)) \<and>
           col_size s' c = col_size s c + 1 \<and> length (heap s') = length (heap s)"
proof -
  define u where "u = last (c # ns)"
  define s1 where "s1 = upd n (Col_update (\<lambda>_. Some c)) s"
  define s2 where "s2 = upd n (Down_update (\<lambda>_. Some c)) s1"
  define s3 where "s3 = upd n (Up_update (\<lambda>_. Some u)) s2"
  define s4 where "s4 = upd u (Down_update (\<lambda>_. Some n)) s3"
  define s5 where "s5 = upd c (Up_update (\<lambda>_. Some n)) s4"
  define s' where "s' = add_sizeA 1 c s5"
  have uin: "u \<in> set (c # ns)" unfolding u_def by (rule last_in_set) simp
  from path_valid [OF p] have val: "\<forall>a\<in>set (c # ns). a < length (heap s)" .
  then have c: "c < length (heap s)" and uv: "u < length (heap s)" using uin by auto
  have nc: "n \<noteq> c" and nu: "n \<noteq> u" using fresh uin by auto
  have upc: "fld Up s c = Some u" using up by (simp add: u_def)
  have len: "length (heap s1) = length (heap s)" "length (heap s2) = length (heap s)"
    "length (heap s3) = length (heap s)" "length (heap s4) = length (heap s)"
    "length (heap s5) = length (heap s)" "length (heap s') = length (heap s)"
    by (simp_all add: s1_def s2_def s3_def s4_def s5_def s'_def add_sizeA_def)
  have u2: "fld Up s2 c = Some u" using upc by (simp add: s2_def s1_def)
  have u3: "fld Up s3 c = Some u" using upc nc by (simp add: s3_def s2_def s1_def)
  have m5: "fld Meta s5 c \<noteq> None" using m
    by (simp add: s5_def s4_def s3_def s2_def s1_def)
  have run: "ColAppend (Some c) (Some n) s = ok s'"
    using n c uv len u2 u3 m5
    by (simp add: ColAppend_def add_size_Some s1_def [symmetric] s2_def [symmetric]
        s3_def [symmetric] s4_def [symmetric] s5_def [symmetric] s'_def [symmetric])
  have down: "fld Down s' a = (if a = u then Some n else if a = n then Some c else fld Down s a)"
    for a
    using n uv nu
    by (simp add: s'_def add_sizeA_def s5_def s4_def s3_def s2_def s1_def)
  have "path Down s' c (c # ns) n"
  proof (rule path_redirect_last [OF p])
    show "c # ns \<noteq> []" by simp
    show "distinct (c # ns)" using d .
    show "length (heap s') = length (heap s)" using len by simp
    show "fld Down s' (last (c # ns)) = Some n" using down [of u] by (simp add: u_def)
    show "\<forall>a\<in>set (butlast (c # ns)). fld Down s' a = fld Down s a"
    proof
      fix a assume a: "a \<in> set (butlast (c # ns))"
      then have "a \<in> set (c # ns)" by (rule in_set_butlastD)
      with fresh have "a \<noteq> n" by auto
      moreover have "a \<noteq> u"
      proof
        assume "a = u"
        with a have "last (c # ns) \<in> set (butlast (c # ns))" by (simp add: u_def)
        with d show False
          using distinct_butlast [of "c # ns"]
          by (metis append_butlast_last_id distinct.simps(2) distinct_append
              disjoint_iff list.distinct(1) list.set_intros(1))
      qed
      ultimately show "fld Down s' a = fld Down s a" using down [of a] by simp
    qed
  qed
  moreover have "path Down s' n [n] c" using n len down [of n] nu by simp
  ultimately have "path Down s' c ((c # ns) @ [n]) c"
    unfolding path_append by blast
  then have pth: "path Down s' c (c # ns @ [n]) c" by simp
  have col: "fld Col s' n = Some c" using n
    by (simp add: s'_def add_sizeA_def s5_def s4_def s3_def s2_def s1_def)
  have upc': "fld Up s' c = Some n" using c
    by (simp add: s'_def add_sizeA_def s5_def s4_def s3_def s2_def s1_def)
  have upn: "fld Up s' n = Some u" using n nc
    by (simp add: s'_def add_sizeA_def s5_def s4_def s3_def s2_def s1_def)
  have m5eq: "fld Meta s5 c = fld Meta s c"
    by (simp add: s5_def s4_def s3_def s2_def s1_def)
  from m obtain mt where mt: "fld Meta s c = Some mt" by auto
  have sz: "col_size s' c = col_size s c + 1" using c mt m5eq len(5)
    by (simp add: col_size_def s'_def add_sizeA_def)
  from run pth col upc' upn sz len(6) show ?thesis unfolding u_def by blast
qed

lemma wf_size_counts:
  assumes wf: "wf_matrix s am"
  shows "\<forall>(d, ns)\<in>set (am_cols am). size_counts s d ns"
proof (clarify)
  fix d ns assume e: "(d, ns) \<in> set (am_cols am)"
  from wf have dist: "distinct (am_root am # am_headers am @ am_data am)"
    and sub: "set (am_linked am) \<subseteq> set (am_data am)"
    and cols: "\<forall>(c, ns)\<in>set (am_cols am).
         path Down s c (c # ns) c \<and> (\<forall>n\<in>set ns. fld Col s n = Some c) \<and>
         fld Meta s c \<noteq> None \<and> col_size s c = of_nat (length ns)"
    by (simp_all add: wf_matrix_def)
  from e have dh: "d \<in> set (am_headers am)" by (force simp: am_headers_def)
  from e have "set ns \<subseteq> set (am_linked am)" by (force simp: am_linked_def)
  with sub have "set ns \<subseteq> set (am_data am)" by simp
  with dist dh have "d \<notin> set ns" by auto
  with cols e show "size_counts s d ns" by (auto simp: size_counts_def)
qed

text \<open>
  The links and sizes are in the heap alone: a state with another log and other
  printed lines, and the same heap.
\<close>

definition relog :: "event list \<Rightarrow> (error + string) list \<Rightarrow> state \<Rightarrow> state" where
  "relog l p s = s\<lparr>logged := l, printed := p\<rparr>"

lemma relog_simps [simp]:
  "heap (relog l p s) = heap s" "logged (relog l p s) = l" "printed (relog l p s) = p"
  by (simp_all add: relog_def)

lemma same_heap_relog: "heap t = heap s \<Longrightarrow> t = relog (logged t) (printed t) s"
  by (simp add: relog_def)

lemma fld_relog [simp]: "fld f (relog l p s) = fld f s"
  by (rule ext) (simp add: fld_def)

lemma relog_log_event [simp]: "relog l p (log_event e s) = relog l p s"
  by (simp add: relog_def log_event_def)

lemma log_event_relog: "log_event e (relog l p s) = relog (l @ [e]) p s"
  by (simp add: relog_def log_event_def)

lemma upd_relog: "upd a g (relog l p s) = relog l p (upd a g s)"
  by (simp add: upd_def relog_def)

lemma unlinkA_relog: "unlinkA j (relog l p s) = relog l p (unlinkA j s)"
  by (simp add: unlinkA_def add_sizeA_def upd_relog)

lemma fold_unlinkA_relog: "fold unlinkA js (relog l p s) = relog l p (fold unlinkA js s)"
  by (induction js arbitrary: s) (simp_all add: unlinkA_relog)

lemma hunlinkA_relog: "hunlinkA c (relog l p s) = relog l p (hunlinkA c s)"
  by (simp add: hunlinkA_def upd_relog)

lemma path_relog [simp]: "path f (relog l p s) a xs b = path f s a xs b"
  by (rule path_cong_on) simp_all

lemma linv_relog [simp]: "linv f g (relog l p s) K = linv f g s K"
  by (simp add: linv_def)

lemma cells_ok_relog [simp]: "cells_ok (relog l p s) K js = cells_ok s K js"
  by (rule cells_ok_cong) simp_all

lemma col_size_relog [simp]: "col_size (relog l p s) c = col_size s c"
  by (simp add: col_size_def)

lemma col_name_relog [simp]: "col_name (relog l p s) c = col_name s c"
  by (simp add: col_name_def)

lemma cover_pre_relog [simp]:
  "cover_pre (relog l p s) c x r rs rt K = cover_pre s c x r rs rt K"
  by (simp add: cover_pre_def del: path.simps)

lemma uncover_pre_relog [simp]:
  "uncover_pre (relog l p s) c x r rs rt = uncover_pre s c x r rs rt"
  by (simp add: uncover_pre_def del: path.simps)

lemma wf_matrix_relog [simp]: "wf_matrix (relog l p s) am = wf_matrix s am"
  by (simp add: wf_matrix_def del: path.simps)

lemma wf_matrix_heap: "heap t = heap s \<Longrightarrow> wf_matrix t am = wf_matrix s am"
  using same_heap_relog [of t s] wf_matrix_relog [of "logged t" "printed t" s am] by metis

lemma covered_relog:
  "covered c js (relog l p s) = relog (l @ [LogCover (col_name s c)]) p (covered c js s)"
  by (simp add: covered_def log_event_relog hunlinkA_relog fold_unlinkA_relog
      hunlinkA_log_event fold_unlinkA_log_event)

lemma covered_heap: "heap t = heap s \<Longrightarrow> heap (covered c js t) = heap (covered c js s)"
  using same_heap_relog [of t s] covered_relog [of c js "logged t" "printed t" s]
    relog_simps(1) by metis

text \<open>Uncover on the heap that Cover left, whatever was logged since.\<close>

lemma Uncover_unlinked:
  assumes pre: "cover_pre b c l r rs rt K" and pre2: "uncover_pre b c l r rs rt"
  shows "Uncover (Some c) (fold unlinkA (concat (map rt rs)) (hunlinkA c b)) =
         ok (log_event (LogUncover (col_name b c)) b)"
proof -
  let ?J = "concat (map rt rs)"
  let ?t = "fold unlinkA ?J (hunlinkA c b)"
  let ?b = "log_event (LogUncover (col_name b c)) b"
  have a: "c < length (heap b)" "fld Meta b c \<noteq> None"
    using pre by (simp_all add: cover_pre_def)
  have "fld Meta ?t c \<noteq> None" using a by simp
  then obtain mt where mt: "fld Meta ?t c = Some mt" by (meson not_None_eq)
  have "col_name ?t c = col_name b c" by simp
  with mt have nm: "Name mt = col_name b c" by (simp add: col_name_def)
  have t: "log_event (LogUncover (col_name b c)) ?t = fold unlinkA ?J (hunlinkA c ?b)"
    by (simp add: fold_unlinkA_log_event hunlinkA_log_event)
  have cv: "c < length (heap ?t)" using a by simp
  have pb: "cover_pre ?b c l r rs rt K" "uncover_pre ?b c l r rs rt"
    using pre pre2 by simp_all
  show ?thesis
    unfolding Uncover_def
    using cv mt nm t uncover_of_unlinked [OF pb] by simp
qed

lemma wf_Uncover_heap:
  assumes wf: "wf_matrix s am" and c: "c \<in> set (am_live am)"
    and h: "heap t = heap (covered c (cover_cells am c) s)"
  shows "Uncover (Some c) t =
     ok (log_event (LogUncover (col_name s c)) (relog (logged t) (printed t) s))"
proof -
  let ?J = "cover_cells am c"
  let ?b = "relog (logged t) (printed t) s"
  have wfb: "wf_matrix ?b am" using wf by simp
  from wf_cover_pre [OF wfb c] obtain l r where
    pre: "cover_pre ?b c l r (col_nodes am c) (row_from am) (set (am_headers am @ am_linked am))"
    and pre2: "uncover_pre ?b c l r (col_nodes am c) (row_from am)"
    by blast
  have "heap (covered c ?J s) = heap (fold unlinkA ?J (hunlinkA c s))"
    by (simp add: covered_def hunlinkA_log_event fold_unlinkA_log_event)
  with h have "heap t = heap (fold unlinkA ?J (hunlinkA c s))" by simp
  from same_heap_relog [OF this]
  have "t = fold unlinkA ?J (hunlinkA c ?b)"
    by (simp add: hunlinkA_relog fold_unlinkA_relog)
  moreover have "Uncover (Some c) (fold unlinkA ?J (hunlinkA c ?b)) =
      ok (log_event (LogUncover (col_name ?b c)) ?b)"
    using Uncover_unlinked [OF pre pre2] by (simp add: cover_cells_def)
  ultimately show ?thesis by simp
qed

text \<open>
  \<open>lifo st s am\<close>: the state \<open>s\<close> is reached from a well-formed matrix by calls of Cover
  on live columns and calls of Uncover that each undo the latest Cover not yet
  undone, with steps in between that leave the heap as it is (logging, printing).
  \<open>st\<close> is the stack of the Covers not yet undone, each with the heap and the matrix
  before it, and \<open>am\<close> is the matrix that \<open>s\<close> holds.
\<close>

inductive lifo :: "(addr \<times> node list \<times> amatrix) list \<Rightarrow> state \<Rightarrow> amatrix \<Rightarrow> bool" where
  start: "wf_matrix s am \<Longrightarrow> lifo [] s am"
| cover: "lifo st s am \<Longrightarrow> k \<in> set (am_live am) \<Longrightarrow> Cover (Some k) s = ok s' \<Longrightarrow>
     lifo ((k, heap s, am) # st) s' (cover_am k am)"
| uncover: "lifo ((k, h, am0) # st) s am \<Longrightarrow> Uncover (Some k) s = ok s' \<Longrightarrow> lifo st s' am0"
| other: "lifo st s am \<Longrightarrow> heap s' = heap s \<Longrightarrow> lifo st s' am"

definition of_heap :: "node list \<Rightarrow> state" where
  "of_heap h = \<lparr>heap = h, logged = [], printed = []\<rparr>"

lemma heap_of_heap [simp]: "heap (of_heap h) = h"
  by (simp add: of_heap_def)

fun stack_ok :: "(addr \<times> node list \<times> amatrix) list \<Rightarrow> node list \<Rightarrow> amatrix \<Rightarrow> bool" where
  "stack_ok [] h am = True"
| "stack_ok ((k, h0, am0) # st) h am =
     (wf_matrix (of_heap h0) am0 \<and> k \<in> set (am_live am0) \<and> am = cover_am k am0 \<and>
      h = heap (covered k (cover_cells am0 k) (of_heap h0)) \<and> stack_ok st h0 am0)"

lemma lifo_inv: "lifo st s am \<Longrightarrow> wf_matrix s am \<and> stack_ok st (heap s) am"
proof (induction rule: lifo.induct)
  case (start s am)
  then show ?case by simp
next
  case (cover st s am k s')
  then have wf: "wf_matrix s am" and sk: "stack_ok st (heap s) am" by simp_all
  from wf_Cover_Uncover(1) [OF wf cover.hyps(2)] cover.hyps(3)
  have s': "s' = covered k (cover_cells am k) s" by (simp add: ok_def)
  have "wf_matrix s' (cover_am k am)" unfolding s' by (rule wf_covered [OF wf cover.hyps(2)])
  moreover have "wf_matrix (of_heap (heap s)) am"
    using wf wf_matrix_heap [of "of_heap (heap s)" s am] by simp
  moreover have "heap s' = heap (covered k (cover_cells am k) (of_heap (heap s)))"
    unfolding s' by (rule covered_heap [symmetric]) simp
  ultimately show ?case using cover.hyps(2) sk by simp
next
  case (uncover k h am0 st s am s')
  then have wf0: "wf_matrix (of_heap h) am0" and k: "k \<in> set (am_live am0)"
    and hs: "heap s = heap (covered k (cover_cells am0 k) (of_heap h))"
    and sk: "stack_ok st h am0"
    by simp_all
  from wf_Uncover_heap [OF wf0 k hs] uncover.hyps(2)
  have "heap s' = h" by (auto simp: ok_def)
  with wf0 sk wf_matrix_heap [of s' "of_heap h" am0] show ?case by simp
next
  case (other st s am s')
  then show ?case using wf_matrix_heap [of s' s am] by simp
qed

text \<open>
  C3. \<open>Size\<close> counts the nodes of the column. \<open>ColAppend\<close> of a node that is not in
  the column puts it at the bottom of the column and adds one to \<open>Size\<close>. In every
  state reached from a well-formed matrix by calls of Cover on live columns and
  calls of Uncover that each undo the latest Cover not yet undone, every \<open>Size\<close> is
  the number of nodes linked in the column; there Cover of a live column returns
  and the sizes are then right for the columns without the cells it unlinked, and
  Uncover of the column covered last returns and gives back the heap before that
  Cover.
\<close>

theorem Size_counts_lifo:
  "(size_counts s c ns \<and> distinct ns \<and> fld Up s c = Some (last (c # ns)) \<and>
    n < length (heap s) \<and> n \<notin> set (c # ns) \<and> fld Meta s c \<noteq> None \<longrightarrow>
      (\<exists>s'. ColAppend (Some c) (Some n) s = ok s' \<and> size_counts s' c (ns @ [n]) \<and>
         col_size s' c = col_size s c + 1)) \<and>
   (lifo st t am \<longrightarrow>
      (\<forall>(d, ns)\<in>set (am_cols am). size_counts t d ns) \<and>
      (\<forall>k\<in>set (am_live am). \<exists>t1. Cover (Some k) t = ok t1 \<and>
         lifo ((k, heap t, am) # st) t1 (cover_am k am) \<and>
         (\<forall>(d, ns)\<in>set (am_cols am).
            size_counts t1 d (filter (\<lambda>x. x \<notin> set (cover_cells am k)) ns))) \<and>
      (\<forall>k h am0 st0. st = (k, h, am0) # st0 \<longrightarrow>
         (\<exists>t2. Uncover (Some k) t = ok t2 \<and> heap t2 = h \<and> lifo st0 t2 am0 \<and>
            (\<forall>(d, ns)\<in>set (am_cols am0). size_counts t2 d ns))))"
proof (intro conjI impI)
  assume a: "size_counts s c ns \<and> distinct ns \<and> fld Up s c = Some (last (c # ns)) \<and>
    n < length (heap s) \<and> n \<notin> set (c # ns) \<and> fld Meta s c \<noteq> None"
  then have sz: "col_size s c = of_nat (length ns)" and p: "path Down s c (c # ns) c"
    and d: "distinct (c # ns)"
    by (simp_all add: size_counts_def)
  from a have "\<exists>s'. ColAppend (Some c) (Some n) s = ok s' \<and>
           path Down s' c (c # ns @ [n]) c \<and> fld Col s' n = Some c \<and>
           fld Up s' c = Some n \<and> fld Up s' n = Some (last (c # ns)) \<and>
           col_size s' c = col_size s c + 1 \<and> length (heap s') = length (heap s)"
    using p d by (intro ColAppend_bottom) simp_all
  then obtain s' where s': "ColAppend (Some c) (Some n) s = ok s'"
    "path Down s' c (c # ns @ [n]) c" "col_size s' c = col_size s c + 1"
    by blast
  from a have "c \<notin> set (ns @ [n])" by (auto simp: size_counts_def)
  with s' sz have "size_counts s' c (ns @ [n])" by (simp add: size_counts_def)
  with s' show "\<exists>s'. ColAppend (Some c) (Some n) s = ok s' \<and> size_counts s' c (ns @ [n]) \<and>
         col_size s' c = col_size s c + 1"
    by blast
next
  assume l: "lifo st t am"
  from lifo_inv [OF l] show "\<forall>(d, ns)\<in>set (am_cols am). size_counts t d ns"
    by (intro wf_size_counts) simp
next
  assume l: "lifo st t am"
  from lifo_inv [OF l] have wf: "wf_matrix t am" by simp
  show "\<forall>k\<in>set (am_live am). \<exists>t1. Cover (Some k) t = ok t1 \<and>
         lifo ((k, heap t, am) # st) t1 (cover_am k am) \<and>
         (\<forall>(d, ns)\<in>set (am_cols am).
            size_counts t1 d (filter (\<lambda>x. x \<notin> set (cover_cells am k)) ns))"
  proof
    fix k assume k: "k \<in> set (am_live am)"
    let ?t1 = "covered k (cover_cells am k) t"
    have run: "Cover (Some k) t = ok ?t1" by (rule wf_Cover_Uncover(1) [OF wf k])
    have l1: "lifo ((k, heap t, am) # st) ?t1 (cover_am k am)"
      by (rule lifo.cover [OF l k run])
    from wf_size_counts [OF wf_covered [OF wf k]]
    have "\<forall>(d, ns)\<in>set (drop_cells (cover_cells am k) (am_cols am)). size_counts ?t1 d ns"
      by (simp add: cover_am_simps)
    then have "\<forall>(d, ns)\<in>set (am_cols am).
        size_counts ?t1 d (filter (\<lambda>x. x \<notin> set (cover_cells am k)) ns)"
      by (force simp: drop_cells_def)
    with run l1 show "\<exists>t1. Cover (Some k) t = ok t1 \<and>
         lifo ((k, heap t, am) # st) t1 (cover_am k am) \<and>
         (\<forall>(d, ns)\<in>set (am_cols am).
            size_counts t1 d (filter (\<lambda>x. x \<notin> set (cover_cells am k)) ns))"
      by blast
  qed
next
  assume l: "lifo st t am"
  show "\<forall>k h am0 st0. st = (k, h, am0) # st0 \<longrightarrow>
         (\<exists>t2. Uncover (Some k) t = ok t2 \<and> heap t2 = h \<and> lifo st0 t2 am0 \<and>
            (\<forall>(d, ns)\<in>set (am_cols am0). size_counts t2 d ns))"
  proof (intro allI impI)
    fix k h am0 st0 assume st: "st = (k, h, am0) # st0"
    from lifo_inv [OF l] st
    have wf0: "wf_matrix (of_heap h) am0" and k: "k \<in> set (am_live am0)"
      and hs: "heap t = heap (covered k (cover_cells am0 k) (of_heap h))"
      by simp_all
    define t2 where "t2 = log_event (LogUncover (col_name (of_heap h) k))
      (relog (logged t) (printed t) (of_heap h))"
    have run: "Uncover (Some k) t = ok t2"
      unfolding t2_def by (rule wf_Uncover_heap [OF wf0 k hs])
    have h2: "heap t2 = h" by (simp add: t2_def)
    have l2: "lifo st0 t2 am0" using l run unfolding st by (rule lifo.uncover)
    from lifo_inv [OF l2] have "\<forall>(d, ns)\<in>set (am_cols am0). size_counts t2 d ns"
      by (intro wf_size_counts) simp
    with run h2 l2
    show "\<exists>t2. Uncover (Some k) t = ok t2 \<and> heap t2 = h \<and> lifo st0 t2 am0 \<and>
            (\<forall>(d, ns)\<in>set (am_cols am0). size_counts t2 d ns)"
      by blast
  qed
qed

text \<open>A header named A and a node that is in no column yet.\<close>

definition one_col :: state where
  "one_col = snd (NewNode (built [] [''A'']))"

lemma one_col_pre:
  "size_counts one_col 1 [] \<and> distinct ([] :: addr list) \<and>
   fld Up one_col 1 = Some (last (1 # [])) \<and> 2 < length (heap one_col) \<and>
   (2 :: addr) \<notin> set (1 # []) \<and> fld Meta one_col 1 \<noteq> None"
  by code_simp

theorem Size_counts_lifo_witness:
  "(size_counts one_col 1 [] \<and> distinct ([] :: addr list) \<and>
    fld Up one_col 1 = Some (last (1 # [])) \<and> 2 < length (heap one_col) \<and>
    (2 :: addr) \<notin> set (1 # []) \<and> fld Meta one_col 1 \<noteq> None) \<and>
   (\<exists>s'. ColAppend (Some 1) (Some 2) one_col = ok s' \<and> size_counts s' 1 ([] @ [2]) \<and>
      col_size s' 1 = col_size one_col 1 + 1) \<and>
   lifo [] knuth_state knuth_am \<and>
   (\<exists>t1 t2 t3 t4. Cover (Some 4) knuth_state = ok t1 \<and> Cover (Some 1) t1 = ok t2 \<and>
      lifo [(1, heap t1, cover_am 4 knuth_am), (4, heap knuth_state, knuth_am)] t2
        (cover_am 1 (cover_am 4 knuth_am)) \<and>
      (\<forall>(d, ns)\<in>set (am_cols (cover_am 1 (cover_am 4 knuth_am))). size_counts t2 d ns) \<and>
      Uncover (Some 1) t2 = ok t3 \<and> heap t3 = heap t1 \<and>
      (\<forall>(d, ns)\<in>set (am_cols (cover_am 4 knuth_am)). size_counts t3 d ns) \<and>
      Uncover (Some 4) t3 = ok t4 \<and> heap t4 = heap knuth_state \<and>
      (\<forall>(d, ns)\<in>set (am_cols knuth_am). size_counts t4 d ns))"
proof -
  note inst = Size_counts_lifo [where s = one_col and c = 1 and ns = "[]" and n = 2]
  note colapp = inst [THEN conjunct1, THEN mp, OF one_col_pre]
  note reach = inst [THEN conjunct2, THEN mp]
  have l0: "lifo [] knuth_state knuth_am" by (rule lifo.start [OF knuth_wf])
  have live4: "4 \<in> set (am_live knuth_am)" by (simp add: knuth_am_def)
  have live1: "1 \<in> set (am_live (cover_am 4 knuth_am))" by (simp add: knuth_am_def)
  from reach [OF l0] live4 obtain t1 where t1: "Cover (Some 4) knuth_state = ok t1"
    "lifo [(4, heap knuth_state, knuth_am)] t1 (cover_am 4 knuth_am)"
    by blast
  from reach [OF t1(2)] live1 obtain t2 where t2: "Cover (Some 1) t1 = ok t2"
    "lifo [(1, heap t1, cover_am 4 knuth_am), (4, heap knuth_state, knuth_am)] t2
        (cover_am 1 (cover_am 4 knuth_am))"
    by blast
  from reach [OF t2(2)]
  have z2: "\<forall>(d, ns)\<in>set (am_cols (cover_am 1 (cover_am 4 knuth_am))). size_counts t2 d ns"
    by blast
  from reach [OF t2(2)] obtain t3 where t3: "Uncover (Some 1) t2 = ok t3" "heap t3 = heap t1"
    "lifo [(4, heap knuth_state, knuth_am)] t3 (cover_am 4 knuth_am)"
    "\<forall>(d, ns)\<in>set (am_cols (cover_am 4 knuth_am)). size_counts t3 d ns"
    by blast
  from reach [OF t3(3)] obtain t4 where t4: "Uncover (Some 4) t3 = ok t4"
    "heap t4 = heap knuth_state" "\<forall>(d, ns)\<in>set (am_cols knuth_am). size_counts t4 d ns"
    by blast
  from t1(1) t2 z2 t3(1,2,4) t4
  have "\<exists>t1 t2 t3 t4. Cover (Some 4) knuth_state = ok t1 \<and> Cover (Some 1) t1 = ok t2 \<and>
      lifo [(1, heap t1, cover_am 4 knuth_am), (4, heap knuth_state, knuth_am)] t2
        (cover_am 1 (cover_am 4 knuth_am)) \<and>
      (\<forall>(d, ns)\<in>set (am_cols (cover_am 1 (cover_am 4 knuth_am))). size_counts t2 d ns) \<and>
      Uncover (Some 1) t2 = ok t3 \<and> heap t3 = heap t1 \<and>
      (\<forall>(d, ns)\<in>set (am_cols (cover_am 4 knuth_am)). size_counts t3 d ns) \<and>
      Uncover (Some 4) t3 = ok t4 \<and> heap t4 = heap knuth_state \<and>
      (\<forall>(d, ns)\<in>set (am_cols knuth_am). size_counts t4 d ns)"
    by blast
  with one_col_pre colapp l0 show ?thesis by blast
qed

text \<open>
  An Uncover that undoes no Cover: on Knuth's matrix as it is built, Uncover of D
  returns; the sizes of A to G are then 4, 2, 2, 3, 3, 2, 5, while the column A
  still has its two nodes, 11 and 17.
\<close>

definition lone_uncover :: "(64 word list \<times> bool \<times> bool) comp" where
  "lone_uncover =
     bnd (Uncover (Some 4) knuth_state) (\<lambda>s.
       ok (map (col_size s) [1, 2, 3, 4, 5, 6, 7], path Down s 1 [1, 11, 17] 1,
           size_counts s 1 [11, 17]))"

theorem Uncover_alone_miscounts:
  "wf_matrix knuth_state knuth_am \<and> lone_uncover = ok ([4, 2, 2, 3, 3, 2, 5], True, False)"
  by code_simp

section \<open>Col\<close>

lemma col_loop_scan:
  "path Right s x xs root \<Longrightarrow> root \<notin> set xs \<Longrightarrow> \<forall>c\<in>set xs. fld Meta s c \<noteq> None \<Longrightarrow>
   col_loop (Some root) (Some x) name s =
     (case find (\<lambda>c. col_name s c = name) xs of
        Some c \<Rightarrow> ok (Some c)
      | None \<Rightarrow> panic (PanicMsg (not_found name)))"
proof (induction xs arbitrary: x)
  case Nil
  then show ?case by (simp add: col_loop.simps)
next
  case (Cons c cs)
  from Cons.prems obtain y where c: "x = c" "c < length (heap s)" "fld Right s c = Some y"
    and rest: "path Right s y cs root"
    by (auto split: option.splits)
  from Cons.prems obtain mt where mt: "fld Meta s c = Some mt" by auto
  have ne: "c \<noteq> root" using Cons.prems by auto
  have ih: "col_loop (Some root) (Some y) name s =
     (case find (\<lambda>c. col_name s c = name) cs of
        Some c \<Rightarrow> ok (Some c)
      | None \<Rightarrow> panic (PanicMsg (not_found name)))"
    using Cons.IH [OF rest] Cons.prems by simp
  show ?case
    using c mt ne ih by (subst col_loop.simps) (simp add: col_name_def)
qed

lemma wf_Col_named:
  assumes wf: "wf_matrix s am"
  shows "Col_named (Some (am_root am)) name s =
     (case find (\<lambda>c. col_name s c = name) (am_live am) of
        Some c \<Rightarrow> ok (Some c)
      | None \<Rightarrow> panic (PanicMsg (not_found name)))"
proof -
  let ?root = "am_root am"
  from wf have dist: "distinct (am_root am # am_headers am @ am_data am)"
    and val: "\<forall>a\<in>set (am_root am # am_headers am @ am_data am). a < length (heap s)"
    and live: "set (am_live am) \<subseteq> set (am_headers am)"
    and ring: "path Right s ?root (?root # am_live am) ?root"
    and li: "linv Right Left s (set (?root # am_live am))"
    and cols: "\<forall>(c, ns)\<in>set (am_cols am).
         path Down s c (c # ns) c \<and> (\<forall>n\<in>set ns. fld Col s n = Some c) \<and>
         fld Meta s c \<noteq> None \<and> col_size s c = of_nat (length ns)"
    by (simp_all add: wf_matrix_def)
  from ring obtain y where y: "?root < length (heap s)" "fld Right s ?root = Some y"
    "path Right s y (am_live am) ?root"
    by (auto split: option.splits)
  from li obtain l where l: "fld Left s ?root = Some l" "l \<in> set (?root # am_live am)"
    "fld Right s l = Some ?root"
    by (auto simp: linv_def)
  have lv: "l < length (heap s)" using l(2) val live by auto
  have nr: "?root \<notin> set (am_live am)" using dist live by auto
  have metas: "\<forall>c\<in>set (am_live am). fld Meta s c \<noteq> None"
  proof
    fix c assume "c \<in> set (am_live am)"
    with live have "c \<in> set (am_headers am)" by auto
    then obtain ns where "(c, ns) \<in> set (am_cols am)" by (auto simp: am_headers_def)
    with cols show "fld Meta s c \<noteq> None" by auto
  qed
  have "Col_named (Some ?root) name s = col_loop (Some ?root) (Some y) name s"
    using y l lv by (simp add: Col_named_def Root_def)
  also note col_loop_scan [OF y(3) nr metas]
  finally show ?thesis .
qed

text \<open>
  C7. \<open>Col(name)\<close> returns the first column of the header row whose name is \<open>name\<close>, and
  panics with \<^verbatim>\<open>Column "name" not found\<close> when the header row has no column of that
  name: it returns a live column of that name or panics. When the names of the live
  columns differ from each other, \<open>Col\<close> of the name of a column panics after that
  column is covered.
\<close>

theorem Col_named_live_or_panic:
  assumes "wf_matrix s am"
  shows "Col_named (Some (am_root am)) name s =
           (case find (\<lambda>c. col_name s c = name) (am_live am) of
              Some c \<Rightarrow> ok (Some c)
            | None \<Rightarrow> panic (PanicMsg (not_found name))) \<and>
         ((\<exists>c\<in>set (am_live am). col_name s c = name) \<longrightarrow>
            (\<exists>c\<in>set (am_live am). col_name s c = name \<and>
               Col_named (Some (am_root am)) name s = ok (Some c))) \<and>
         ((\<forall>c\<in>set (am_live am). col_name s c \<noteq> name) \<longrightarrow>
            Col_named (Some (am_root am)) name s = panic (PanicMsg (not_found name))) \<and>
         (\<exists>pre post. not_found name = pre @ name @ post) \<and>
         (k \<in> set (am_live am) \<and> distinct (map (col_name s) (am_live am)) \<longrightarrow>
            (\<exists>s1. Cover (Some k) s = ok s1 \<and>
               Col_named (Some (am_root am)) (col_name s k) s1 =
                 panic (PanicMsg (not_found (col_name s k)))))"
proof (intro conjI impI)
  note run = wf_Col_named [OF assms, of name]
  show "Col_named (Some (am_root am)) name s =
           (case find (\<lambda>c. col_name s c = name) (am_live am) of
              Some c \<Rightarrow> ok (Some c)
            | None \<Rightarrow> panic (PanicMsg (not_found name)))"
    using run .
  show "\<exists>c\<in>set (am_live am). col_name s c = name \<and>
               Col_named (Some (am_root am)) name s = ok (Some c)"
    if "\<exists>c\<in>set (am_live am). col_name s c = name"
  proof (cases "find (\<lambda>c. col_name s c = name) (am_live am)")
    case None
    with that show ?thesis by (auto simp: find_None_iff)
  next
    case (Some c)
    then have "c \<in> set (am_live am)" "col_name s c = name"
      by (auto simp: find_Some_iff)
    with run Some show ?thesis by auto
  qed
  show "Col_named (Some (am_root am)) name s = panic (PanicMsg (not_found name))"
    if "\<forall>c\<in>set (am_live am). col_name s c \<noteq> name"
  proof -
    from that have "find (\<lambda>c. col_name s c = name) (am_live am) = None"
      by (auto simp: find_None_iff)
    with run show ?thesis by simp
  qed
  have "not_found name = (''Column '' @ [CHR 0x22]) @ name @ ([CHR 0x22] @ '' not found'')"
    by (simp add: not_found_def)
  then show "\<exists>pre post. not_found name = pre @ name @ post" by blast
  show "\<exists>s1. Cover (Some k) s = ok s1 \<and>
               Col_named (Some (am_root am)) (col_name s k) s1 =
                 panic (PanicMsg (not_found (col_name s k)))"
    if a: "k \<in> set (am_live am) \<and> distinct (map (col_name s) (am_live am))"
  proof -
    let ?s1 = "covered k (cover_cells am k) s"
    from a have k: "k \<in> set (am_live am)" and dn: "distinct (map (col_name s) (am_live am))"
      by simp_all
    from assms have dl: "distinct (am_live am)" by (simp add: wf_matrix_def)
    have nm: "col_name ?s1 c = col_name s c" for c
      using covered_frame(6) [OF assms k] by simp
    have "\<forall>c\<in>set (remove1 k (am_live am)). col_name s c \<noteq> col_name s k"
    proof
      fix c assume "c \<in> set (remove1 k (am_live am))"
      with dl have "c \<in> set (am_live am)" "c \<noteq> k" by auto
      with k dn show "col_name s c \<noteq> col_name s k"
        by (auto simp: distinct_map inj_on_def)
    qed
    then have "find (\<lambda>c. col_name ?s1 c = col_name s k) (remove1 k (am_live am)) = None"
      by (auto simp: find_None_iff nm)
    with wf_Col_named [OF wf_covered [OF assms k], of "col_name s k"]
    have "Col_named (Some (am_root am)) (col_name s k) ?s1 =
        panic (PanicMsg (not_found (col_name s k)))"
      by simp
    with wf_Cover_Uncover(1) [OF assms k] show ?thesis by blast
  qed
qed

lemma knuth_names:
  "find (\<lambda>c. col_name knuth_state c = ''D'') (am_live knuth_am) = Some 4 \<and>
   col_name knuth_state 4 = ''D'' \<and> am_root knuth_am = 0 \<and>
   distinct (map (col_name knuth_state) (am_live knuth_am))"
  by code_simp

theorem Col_named_live_or_panic_witness:
  "wf_matrix knuth_state knuth_am \<and> 4 \<in> set (am_live knuth_am) \<and>
   distinct (map (col_name knuth_state) (am_live knuth_am)) \<and>
   Col_named (Some 0) ''D'' knuth_state = ok (Some 4) \<and>
   (\<exists>s1. Cover (Some 4) knuth_state = ok s1 \<and>
      Col_named (Some 0) ''D'' s1 = panic (PanicMsg (not_found ''D'')))"
proof -
  have live: "4 \<in> set (am_live knuth_am)" by (simp add: knuth_am_def)
  note inst = Col_named_live_or_panic [OF knuth_wf, where name = "''D''" and k = 4]
  from inst knuth_names knuth_wf live show ?thesis by simp
qed

section \<open>Search without backtracking\<close>

text \<open>
  \<open>collapses g m (k, items, s) (k', items', s')\<close>: the call \<^verbatim>\<open>m.Search(O, k, g)\<close> in the
  state \<open>s\<close> goes down to the call at depth \<open>k'\<close> in the state \<open>s'\<close> through first
  recursive calls only, and at every depth on the way the header row is not empty,
  the guesser answers \<^verbatim>\<open>false\<close> and the chosen column has a row.
\<close>

inductive collapses ::
  "guesser \<Rightarrow> addr option \<Rightarrow> 64 word \<times> solution \<times> state \<Rightarrow> 64 word \<times> solution \<times> state \<Rightarrow>
   bool"
  for g :: guesser and m :: "addr option" where
  here: "collapses g m x x"
| down: "Root m (log_event (LogDepth (sint k)) s) = ok root \<Longrightarrow>
     get Right (log_event (LogDepth (sint k)) s) root = ok r0 \<Longrightarrow> r0 \<noteq> root \<Longrightarrow>
     g k (log_event (LogDepth (sint k)) s) = ok ((c, False), sg) \<Longrightarrow>
     Cover c sg = ok s2 \<Longrightarrow> get Down s2 c = ok r \<Longrightarrow> r \<noteq> c \<Longrightarrow>
     Solution_Set (sint k) r items = ok items1 \<Longrightarrow>
     get Right s2 r = ok j \<Longrightarrow> cover_cols r j s2 = ok s1 \<Longrightarrow>
     collapses g m (k + 1, items1, s1) y \<Longrightarrow>
     collapses g m (k, items, s) y"

lemma bnd_id: "bnd x (\<lambda>(a, b). ok (a, b)) = x"
  by (auto simp: bnd_def ok_def split: option.splits sum.splits)

lemma Search_no_backtrack_step:
  assumes "Root m (log_event (LogDepth (sint k)) s) = ok root"
    and "get Right (log_event (LogDepth (sint k)) s) root = ok r0" and "r0 \<noteq> root"
    and "g k (log_event (LogDepth (sint k)) s) = ok ((c, False), sg)"
    and "Cover c sg = ok s2" and "get Down s2 c = ok r" and "r \<noteq> c"
    and "Solution_Set (sint k) r items = ok items1"
    and "get Right s2 r = ok j" and "cover_cols r j s2 = ok s1"
  shows "Search g m items k s = Search g m items1 (k + 1) s1"
proof -
  have "Search g m items k s = Search_at g m (Inr (k, c, False, r)) (items, s2)"
    unfolding Search_def using assms(1-6) by (subst Search_at.simps) simp
  also have "\<dots> = bnd (Search_at g m (Inl (k + 1)) (items1, s1)) (\<lambda>(a, b). ok (a, b))"
    using assms(7-10) by (subst Search_at.simps) (simp cong del: bnd_weak_cong)
  also have "\<dots> = Search g m items1 (k + 1) s1"
    unfolding Search_def by (rule bnd_id)
  finally show ?thesis .
qed

text \<open>A guesser for the examples: the smallest column, and the flag \<open>bt k\<close> at depth \<open>k\<close>.\<close>

definition choose_flag :: "(64 word \<Rightarrow> bool) \<Rightarrow> addr option \<Rightarrow> guesser" where
  "choose_flag bt m k s = bnd (SmallestCol m s) (\<lambda>c. ok ((c, bt k), s))"

text \<open>The matrix of the two columns A and B and the two rows 1 0 and 0 1.\<close>

definition two_cols :: state where
  "two_cols = built [[1, 0], [0, 1]] [''A'', ''B'']"

text \<open>
  The guesser answers \<^verbatim>\<open>true\<close> at depth 0 and \<^verbatim>\<open>false\<close> below. The run: the call at
  depth 0 up to its first recursive call, that call at depth 1 on its own, and the
  whole call at depth 0. The result is the flag at depth 1, the log when the call
  at depth 1 has returned, and the log when the call at depth 0 has returned.
\<close>

definition mixed_run :: "(bool \<times> event list \<times> event list) comp" where
  "mixed_run =
     bnd (ok (log_event (LogDepth 0) two_cols)) (\<lambda>s0.
     bnd (choose_flag (\<lambda>k. k = 0) (Some 0) 0 s0) (\<lambda>((c, bt), sg).
     bnd (Cover c sg) (\<lambda>s2. bnd (get Down s2 c) (\<lambda>r.
     bnd (Solution_Set 0 r []) (\<lambda>items1.
     bnd (get Right s2 r) (\<lambda>j. bnd (cover_cols r j s2) (\<lambda>s1.
     bnd (choose_flag (\<lambda>k. k = 0) (Some 0) 1 (log_event (LogDepth 1) s1)) (\<lambda>((c1, bt1), sg1).
     bnd (Search (choose_flag (\<lambda>k. k = 0) (Some 0)) (Some 0) items1 1 s1) (\<lambda>(items2, s3).
     bnd (Search (choose_flag (\<lambda>k. k = 0) (Some 0)) (Some 0) [] 0 two_cols) (\<lambda>(items4, s4).
     ok (bt1, logged s3, logged s4)))))))))))"

text \<open>
  After the call at depth 1, where the guesser answered \<^verbatim>\<open>false\<close>, has returned,
  the call at depth 0 goes on and uncovers A.
\<close>

theorem Search_enclosing_depth_uncovers:
  "mixed_run =
     ok (False,
         [LogDepth 0, LogCover ''A'', LogDepth 1, LogCover ''B'', LogDepth 2],
         [LogDepth 0, LogCover ''A'', LogDepth 1, LogCover ''B'', LogDepth 2, LogUncover ''A''])"
  by code_simp

text \<open>
  C5. When the guesser answers \<^verbatim>\<open>false\<close> and the chosen column has a row, Search
  ends as its first recursive call ends, with the solution and the state that call
  leaves: nothing is uncovered, logged or written after that call. The same holds
  through every enclosing depth at which the guesser answered \<^verbatim>\<open>false\<close> too: the call
  at the top of such a chain ends as the call at its bottom ends.
\<close>

theorem Search_no_backtrack_collapses:
  assumes "collapses g m (k, items, s) (k', items', s')"
  shows "Search g m items k s = Search g m items' k' s'"
  using assms
proof (induction "(k, items, s)" "(k', items', s')" arbitrary: k items s rule: collapses.induct)
  case here
  then show ?case by simp
next
  case (down k s root r0 c sg s2 r items items1 j s1)
  from Search_no_backtrack_step [where g = g and m = m, OF down(1-10)] down(12)
  show ?case by simp
qed

text \<open>
  The call at depth 0 on the two columns, with a guesser that always answers
  \<^verbatim>\<open>false\<close>: depth 0 covers A and calls depth 1, which covers B and calls depth 2,
  where the header row is empty. The call at depth 1 returns through the
  enclosing depth 0.
\<close>

definition state_of :: "state comp \<Rightarrow> state" where
  "state_of x = (case x of Some (Inr s) \<Rightarrow> s | _ \<Rightarrow> empty_state)"

definition two_cols_covered :: state where
  "two_cols_covered = state_of (Cover (Some 1) (log_event (LogDepth 0) two_cols))"

definition two_cols_covered2 :: state where
  "two_cols_covered2 = state_of (Cover (Some 2) (log_event (LogDepth 1) two_cols_covered))"

definition false_run :: "(solution \<times> event list) comp" where
  "false_run =
     bnd (Search (choose_flag (\<lambda>k. False) (Some 0)) (Some 0) [] 0 two_cols)
       (\<lambda>(items, s). ok (items, logged s))"

lemma two_cols_down:
  "Root (Some 0) (log_event (LogDepth 0) two_cols) = ok (Some 0) \<and>
   get Right (log_event (LogDepth 0) two_cols) (Some 0) = ok (Some 1) \<and>
   choose_flag (\<lambda>k. False) (Some 0) 0 (log_event (LogDepth 0) two_cols) =
     ok ((Some 1, False), log_event (LogDepth 0) two_cols) \<and>
   Cover (Some 1) (log_event (LogDepth 0) two_cols) = ok two_cols_covered \<and>
   get Down two_cols_covered (Some 1) = ok (Some 3) \<and>
   Solution_Set 0 (Some 3) [] = ok [Some 3] \<and>
   get Right two_cols_covered (Some 3) = ok (Some 3) \<and>
   cover_cols (Some 3) (Some 3) two_cols_covered = ok two_cols_covered"
  by code_simp

lemma two_cols_down2:
  "Root (Some 0) (log_event (LogDepth 1) two_cols_covered) = ok (Some 0) \<and>
   get Right (log_event (LogDepth 1) two_cols_covered) (Some 0) = ok (Some 2) \<and>
   choose_flag (\<lambda>k. False) (Some 0) 1 (log_event (LogDepth 1) two_cols_covered) =
     ok ((Some 2, False), log_event (LogDepth 1) two_cols_covered) \<and>
   Cover (Some 2) (log_event (LogDepth 1) two_cols_covered) = ok two_cols_covered2 \<and>
   get Down two_cols_covered2 (Some 2) = ok (Some 4) \<and>
   Solution_Set 1 (Some 4) [Some 3] = ok [Some 3, Some 4] \<and>
   get Right two_cols_covered2 (Some 4) = ok (Some 4) \<and>
   cover_cols (Some 4) (Some 4) two_cols_covered2 = ok two_cols_covered2"
  by code_simp

lemma false_run_log:
  "false_run =
     ok ([Some 3, Some 4],
         [LogDepth 0, LogCover ''A'', LogDepth 1, LogCover ''B'', LogDepth 2])"
  by code_simp

text \<open>
  The depth wraps around as a Go \<^verbatim>\<open>int\<close> does: from the greatest depth the next call
  is at the least one, and its \<^verbatim>\<open>O.Set\<close> panics on the negative index.
\<close>

lemma Search_depth_wraps:
  "Search (choose_flag (\<lambda>k. False) (Some 0)) (Some 0) [] 9223372036854775807 two_cols =
     panic IndexOutOfRange"
  by code_simp

theorem Search_no_backtrack_collapses_witness:
  "collapses (choose_flag (\<lambda>k. False) (Some 0)) (Some 0) (0, [], two_cols)
     (2, [Some 3, Some 4], two_cols_covered2) \<and>
   Search (choose_flag (\<lambda>k. False) (Some 0)) (Some 0) [] 0 two_cols =
     Search (choose_flag (\<lambda>k. False) (Some 0)) (Some 0) [Some 3, Some 4] 2 two_cols_covered2 \<and>
   false_run =
     ok ([Some 3, Some 4],
         [LogDepth 0, LogCover ''A'', LogDepth 1, LogCover ''B'', LogDepth 2])"
proof -
  let ?g = "choose_flag (\<lambda>k. False) (Some 0)"
  have c2: "collapses ?g (Some 0) (1 + 1, [Some 3, Some 4], two_cols_covered2)
      (2, [Some 3, Some 4], two_cols_covered2)"
    by (simp add: collapses.here)
  from two_cols_down2 c2
  have "collapses ?g (Some 0) (1, [Some 3], two_cols_covered)
      (2, [Some 3, Some 4], two_cols_covered2)"
    by (intro collapses.down [where k = 1 and root = "Some 0" and ?r0.0 = "Some 2"
          and c = "Some 2" and sg = "log_event (LogDepth 1) two_cols_covered"
          and ?s2.0 = two_cols_covered2 and r = "Some 4" and ?items1.0 = "[Some 3, Some 4]"
          and j = "Some 4" and ?s1.0 = two_cols_covered2]) simp_all
  then have c1: "collapses ?g (Some 0) (0 + 1, [Some 3], two_cols_covered)
      (2, [Some 3, Some 4], two_cols_covered2)"
    by simp
  from two_cols_down c1
  have c: "collapses ?g (Some 0) (0, [], two_cols) (2, [Some 3, Some 4], two_cols_covered2)"
    by (intro collapses.down [where k = 0 and root = "Some 0" and ?r0.0 = "Some 1"
          and c = "Some 1" and sg = "log_event (LogDepth 0) two_cols"
          and ?s2.0 = two_cols_covered and r = "Some 3" and ?items1.0 = "[Some 3]"
          and j = "Some 3" and ?s1.0 = two_cols_covered]) simp_all
  from Search_no_backtrack_collapses [OF c] c false_run_log show ?thesis by simp
qed

section \<open>Building the matrix: the appends\<close>

text \<open>The state after \<^verbatim>\<open>NewNode\<close>, and the appends as functions on states.\<close>

definition fresh :: "state \<Rightarrow> state" where
  "fresh s = snd (NewNode s)"

lemma NewNode_fresh: "NewNode s = (Some (length (heap s)), fresh s)"
  by (simp add: fresh_def NewNode_def)

lemma length_fresh [simp]: "length (heap (fresh s)) = Suc (length (heap s))"
  by (simp add: fresh_def NewNode_def)

lemma fld_fresh_old [simp]: "a < length (heap s) \<Longrightarrow> fld f (fresh s) a = fld f s a"
  by (simp add: fresh_def NewNode_def fld_def nth_append)

lemma fld_fresh_new [simp]:
  "fld Right (fresh s) (length (heap s)) = Some (length (heap s))"
  "fld Left (fresh s) (length (heap s)) = Some (length (heap s))"
  "fld Up (fresh s) (length (heap s)) = Some (length (heap s))"
  "fld Down (fresh s) (length (heap s)) = Some (length (heap s))"
  "fld Col (fresh s) (length (heap s)) = None"
  "fld Meta (fresh s) (length (heap s)) = None"
  by (simp_all add: fresh_def NewNode_def fld_def)

lemma path_grow:
  "path f s x xs b \<Longrightarrow> length (heap s) \<le> length (heap s') \<Longrightarrow>
   \<forall>a\<in>set xs. fld f s' a = fld f s a \<Longrightarrow> path f s' x xs b"
  by (induction xs arbitrary: x) (auto split: option.splits)

definition colappA :: "addr \<Rightarrow> addr \<Rightarrow> state \<Rightarrow> state" where
  "colappA c n s =
     add_sizeA 1 c
       (upd c (Up_update (\<lambda>_. Some n))
         (upd (the (fld Up s c)) (Down_update (\<lambda>_. Some n))
           (upd n (Up_update (\<lambda>_. fld Up s c))
             (upd n (Down_update (\<lambda>_. Some c))
               (upd n (Col_update (\<lambda>_. Some c)) s)))))"

lemma colappA_frame [simp]:
  "length (heap (colappA c n s)) = length (heap s)"
  "logged (colappA c n s) = logged s"
  "printed (colappA c n s) = printed s"
  "fld Right (colappA c n s) a = fld Right s a"
  "fld Left (colappA c n s) a = fld Left s a"
  by (simp_all add: colappA_def add_sizeA_def)

lemma ColAppend_colappA:
  assumes "c < length (heap s)" "n < length (heap s)" "fld Up s c = Some u" "u < length (heap s)"
    "n \<noteq> c" "fld Meta s c \<noteq> None"
  shows "ColAppend (Some c) (Some n) s = ok (colappA c n s)"
  using assms by (simp add: ColAppend_def colappA_def add_size_Some)

lemma colappA_fields:
  assumes "c < length (heap s)" "n < length (heap s)" "fld Up s c = Some u" "u < length (heap s)"
    "n \<noteq> c" "n \<noteq> u"
  shows "fld Down (colappA c n s) a =
           (if a = u then Some n else if a = n then Some c else fld Down s a)"
    and "fld Up (colappA c n s) a =
           (if a = c then Some n else if a = n then Some u else fld Up s a)"
    and "fld Col (colappA c n s) a = (if a = n then Some c else fld Col s a)"
    and "fld Meta (colappA c n s) a =
           (if a = c then map_option (\<lambda>mt. mt\<lparr>Size := Size mt + 1\<rparr>) (fld Meta s c)
            else fld Meta s a)"
  using assms by (simp_all add: colappA_def add_sizeA_def)

definition rowappA :: "addr \<Rightarrow> addr \<Rightarrow> state \<Rightarrow> state" where
  "rowappA r n s =
     upd r (Left_update (\<lambda>_. Some n))
       (upd (the (fld Left s r)) (Right_update (\<lambda>_. Some n))
         (upd n (Left_update (\<lambda>_. fld Left s r))
           (upd n (Right_update (\<lambda>_. Some r)) s)))"

lemma rowappA_frame [simp]:
  "length (heap (rowappA r n s)) = length (heap s)"
  "logged (rowappA r n s) = logged s"
  "printed (rowappA r n s) = printed s"
  "fld Up (rowappA r n s) a = fld Up s a"
  "fld Down (rowappA r n s) a = fld Down s a"
  "fld Col (rowappA r n s) a = fld Col s a"
  "fld Meta (rowappA r n s) a = fld Meta s a"
  by (simp_all add: rowappA_def)

lemma RowAppend_rowappA:
  assumes "r < length (heap s)" "n < length (heap s)" "fld Left s r = Some l" "l < length (heap s)"
    "n \<noteq> r"
  shows "RowAppend (Some r) (Some n) s = ok (rowappA r n s)"
  using assms by (simp add: RowAppend_def rowappA_def)

lemma rowappA_fields:
  assumes "r < length (heap s)" "n < length (heap s)" "fld Left s r = Some l" "l < length (heap s)"
    "n \<noteq> r" "n \<noteq> l"
  shows "fld Right (rowappA r n s) a =
           (if a = l then Some n else if a = n then Some r else fld Right s a)"
    and "fld Left (rowappA r n s) a =
           (if a = r then Some n else if a = n then Some l else fld Left s a)"
  using assms by (simp_all add: rowappA_def)

lemma col_size_colappA:
  assumes "c < length (heap s)" "n < length (heap s)" "fld Up s c = Some u" "u < length (heap s)"
    "n \<noteq> c" "n \<noteq> u" "fld Meta s c \<noteq> None"
  shows "col_size (colappA c n s) a = (if a = c then col_size s c + 1 else col_size s a)"
    and "col_name (colappA c n s) a = col_name s a"
  using assms by (auto simp: col_size_def col_name_def colappA_fields(4) [OF assms(1-6)])

text \<open>
  The rows built so far: for every input row, the columns of its cells with the
  addresses of their nodes. The header of column \<open>j\<close> is at \<open>hdr b j\<close> when the root
  is at \<open>b\<close>.
\<close>

type_synonym layout = "(nat \<times> addr) list list"

definition hdr :: "addr \<Rightarrow> nat \<Rightarrow> addr" where
  "hdr b j = b + 1 + j"

definition col_cells :: "nat \<Rightarrow> layout \<Rightarrow> addr list" where
  "col_cells j lay = map snd (filter (\<lambda>(j', a). j' = j) (concat lay))"

text \<open>
  \<open>building s b n lay\<close>: the heap of \<open>s\<close> ends with the root at \<open>b\<close>, the \<open>n\<close> headers and
  the nodes of \<open>lay\<close>, at consecutive addresses in the order of the rows and, in a row,
  of the columns. The header row is the root and the headers in order. The \<open>Down\<close> walk
  of a column meets its nodes in the order of the rows, the \<open>Up\<close> of the header is the
  last of them, they point to the header through \<open>Col\<close>, and \<open>Size\<close> is their number.
  The \<open>Right\<close> walk of a row meets its nodes in the order of the columns, and the
  \<open>Left\<close> of the first is the last.
\<close>

definition building :: "state \<Rightarrow> addr \<Rightarrow> nat \<Rightarrow> layout \<Rightarrow> bool" where
  "building s b n lay =
     (length (heap s) = b + 1 + n + length (concat lay) \<and>
      map snd (concat lay) = [b + 1 + n ..< b + 1 + n + length (concat lay)] \<and>
      (\<forall>(j, a)\<in>set (concat lay). j < n) \<and>
      path Right s b (b # map (hdr b) [0..<n]) b \<and>
      (\<forall>j<n. path Down s (hdr b j) (hdr b j # col_cells j lay) (hdr b j) \<and>
         fld Up s (hdr b j) = Some (last (hdr b j # col_cells j lay)) \<and>
         (\<forall>a\<in>set (col_cells j lay). fld Col s a = Some (hdr b j)) \<and>
         fld Meta s (hdr b j) \<noteq> None \<and>
         col_size s (hdr b j) = of_nat (length (col_cells j lay))) \<and>
      (\<forall>r\<in>set lay. r \<noteq> [] \<longrightarrow>
         path Right s (snd (hd r)) (map snd r) (snd (hd r)) \<and>
         fld Left s (snd (hd r)) = Some (snd (last r))))"

lemma col_cells_snoc:
  "col_cells j' (lay @ [cur @ [(j, a)]]) = col_cells j' (lay @ [cur]) @ (if j' = j then [a] else [])"
  by (simp add: col_cells_def)

lemma col_cells_subset: "set (col_cells j lay) \<subseteq> set (map snd (concat lay))"
  by (auto simp: col_cells_def)

lemma col_cells_distinct: "distinct (map snd (concat lay)) \<Longrightarrow> distinct (col_cells j lay)"
  unfolding col_cells_def by (rule distinct_map_filter)

lemma col_cells_disjoint:
  assumes "distinct (map snd (concat lay))" and "j' \<noteq> j"
  shows "set (col_cells j' lay) \<inter> set (col_cells j lay) = {}"
proof -
  from assms(1) have inj: "inj_on snd (set (concat lay))" by (simp add: distinct_map)
  show ?thesis
  proof (rule ccontr)
    assume "set (col_cells j' lay) \<inter> set (col_cells j lay) \<noteq> {}"
    then obtain x where "x \<in> set (col_cells j' lay)" "x \<in> set (col_cells j lay)" by auto
    then have "(j', x) \<in> set (concat lay)" "(j, x) \<in> set (concat lay)"
      by (auto simp: col_cells_def)
    with inj have "(j', x) = (j, x)"
      using inj_onD [of snd "set (concat lay)" "(j', x)" "(j, x)"] by simp
    with assms(2) show False by simp
  qed
qed

lemma path_redirect_grow:
  assumes p: "path f s a xs m" and ne: "xs \<noteq> []"
    and len: "length (heap s) \<le> length (heap s')"
    and same: "\<forall>n\<in>set (butlast xs). fld f s' n = fld f s n"
    and redirect: "fld f s' (last xs) = Some y"
  shows "path f s' a xs y"
proof -
  from ne obtain ys z where xs: "xs = ys @ [z]" by (cases xs rule: rev_cases) auto
  from p obtain k where k: "path f s a ys k" "path f s k [z] m"
    unfolding xs path_append by blast
  from k(2) have z: "k = z" "z < length (heap s)" by (auto split: option.splits)
  have "path f s' a ys z" using path_grow [OF k(1) len] same z(1) by (simp add: xs)
  moreover have "path f s' z [z] y" using z(2) len redirect by (simp add: xs)
  ultimately show ?thesis unfolding xs path_append by blast
qed

text \<open>
  One more cell: a state that differs from \<open>s\<close> by a new node \<open>a\<close> put at the bottom of
  column \<open>j\<close> and at the end of the current row keeps the invariant.
\<close>

lemma building_ins:
  fixes s s' :: state
  assumes inv: "building s b n (lay @ [cur])" and j: "j < n"
    and a_def: "a = length (heap s)" and h_def: "h = hdr b j"
    and u_def: "u = last (hdr b j # col_cells j (lay @ [cur]))"
    and len: "length (heap s') = Suc a"
    and D: "\<And>x. x \<le> a \<Longrightarrow>
        fld Down s' x = (if x = u then Some a else if x = a then Some h else fld Down s x)"
    and U: "\<And>x. x \<le> a \<Longrightarrow>
        fld Up s' x = (if x = h then Some a else if x = a then Some u else fld Up s x)"
    and C: "\<And>x. x \<le> a \<Longrightarrow> fld Col s' x = (if x = a then Some h else fld Col s x)"
    and M: "\<And>x. x < a \<Longrightarrow> fld Meta s' x \<noteq> None = (fld Meta s x \<noteq> None)"
    and S: "\<And>x. x < a \<Longrightarrow> col_size s' x = (if x = h then col_size s x + 1 else col_size s x)"
    and R: "\<And>x. x \<le> a \<Longrightarrow>
        fld Right s' x =
          (if cur \<noteq> [] \<and> x = snd (last cur) then Some a
           else if x = a then Some (if cur = [] then a else snd (hd cur))
           else fld Right s x)"
    and L: "\<And>x. x \<le> a \<Longrightarrow>
        fld Left s' x =
          (if cur \<noteq> [] \<and> x = snd (hd cur) then Some a
           else if x = a then Some (if cur = [] then a else snd (last cur))
           else fld Left s x)"
  shows "building s' b n (lay @ [cur @ [(j, a)]])"
proof -
  define K where "K = lay @ [cur]"
  define K' where "K' = lay @ [cur @ [(j, a)]]"
  define A where "A = map snd (concat K)"
  have cK': "concat K' = concat K @ [(j, a)]" by (simp add: K_def K'_def)
  have cc: "col_cells j' K' = col_cells j' K @ (if j' = j then [a] else [])" for j'
    unfolding K_def K'_def by (rule col_cells_snoc)
  have inv': "building s b n K" using inv by (simp add: K_def)
  from inv' [unfolded building_def]
  have hl0: "length (heap s) = b + 1 + n + length (concat K)"
    and A0: "map snd (concat K) = [b + 1 + n ..< b + 1 + n + length (concat K)]"
    and jn: "\<forall>(j, x)\<in>set (concat K). j < n"
    and hp: "path Right s b (b # map (hdr b) [0..<n]) b"
    and cols: "\<forall>j<n. path Down s (hdr b j) (hdr b j # col_cells j K) (hdr b j) \<and>
         fld Up s (hdr b j) = Some (last (hdr b j # col_cells j K)) \<and>
         (\<forall>a\<in>set (col_cells j K). fld Col s a = Some (hdr b j)) \<and>
         fld Meta s (hdr b j) \<noteq> None \<and>
         col_size s (hdr b j) = of_nat (length (col_cells j K))"
    and rows: "\<forall>r\<in>set K. r \<noteq> [] \<longrightarrow>
         path Right s (snd (hd r)) (map snd r) (snd (hd r)) \<and>
         fld Left s (snd (hd r)) = Some (snd (last r))"
    by blast+
  have hl: "a = b + 1 + n + length (concat K)" using hl0 by (simp add: a_def)
  have Aeq: "A = [b + 1 + n ..< a]" unfolding A_def hl by (rule A0)
  have dA: "distinct A" unfolding Aeq by simp
  have rA: "b + 1 + n \<le> x \<and> x < a" if "x \<in> set A" for x
    using that unfolding Aeq by simp
  have hdr_lt: "hdr b j' < b + 1 + n" if "j' < n" for j'
    using that by (simp add: hdr_def)
  have hdr_a: "hdr b j' < a" if "j' < n" for j'
    using hdr_lt [OF that] hl by simp
  have hdr_notA: "hdr b j' \<notin> set A" if "j' < n" for j'
    using hdr_lt [OF that] rA [of "hdr b j'"] by auto
  have ccA: "set (col_cells j' K) \<subseteq> set A" for j'
    unfolding A_def by (rule col_cells_subset)
  have uin: "u \<in> set (h # col_cells j K)"
    unfolding u_def h_def K_def by (rule last_in_set) simp
  have u_lt: "u < a" using uin hdr_a [OF j] ccA [of j] rA by (auto simp: h_def)
  have cur_sub: "set (map snd cur) \<subseteq> set A" by (auto simp: A_def K_def)
  have lay_sub: "set (map snd r) \<subseteq> set A" if "r \<in> set lay" for r
    using that by (auto simp: A_def K_def)
  have lay_cur: "set (map snd r) \<inter> set (map snd cur) = {}" if "r \<in> set lay" for r
  proof -
    have "distinct (map snd (concat lay) @ map snd cur)" using dA by (simp add: A_def K_def)
    then have "set (map snd (concat lay)) \<inter> set (map snd cur) = {}" by simp
    moreover have "set (map snd r) \<subseteq> set (map snd (concat lay))" using that by auto
    ultimately show ?thesis by blast
  qed
  have dcur: "distinct (map snd cur)" using dA by (simp add: A_def K_def)

  have c1: "length (heap s') = b + 1 + n + length (concat K')"
    using len hl by (simp add: cK')
  have c2: "map snd (concat K') = [b + 1 + n ..< b + 1 + n + length (concat K')]"
  proof -
    have "map snd (concat K') = A @ [a]" by (simp add: cK' A_def)
    also have "\<dots> = [b + 1 + n ..< Suc a]" using hl by (simp add: Aeq)
    also have "Suc a = b + 1 + n + length (concat K')" using hl by (simp add: cK')
    finally show ?thesis .
  qed
  have c3: "\<forall>(j, x)\<in>set (concat K'). j < n" using jn j by (auto simp: cK')
  have c4: "path Right s' b (b # map (hdr b) [0..<n]) b"
  proof (rule path_grow [OF hp])
    show "length (heap s) \<le> length (heap s')" using len by (simp add: a_def)
    show "\<forall>x\<in>set (b # map (hdr b) [0..<n]). fld Right s' x = fld Right s x"
    proof
      fix x assume "x \<in> set (b # map (hdr b) [0..<n])"
      then have x: "x < b + 1 + n" by (auto simp: hdr_def)
      then have xa: "x \<le> a" "x \<noteq> a" using hl by simp_all
      have "x \<noteq> snd (last cur)" if "cur \<noteq> []"
      proof -
        from that have "snd (last cur) \<in> set (map snd cur)" by simp
        with cur_sub rA x show ?thesis by fastforce
      qed
      with R [OF xa(1)] xa(2) show "fld Right s' x = fld Right s x" by auto
    qed
  qed
  have c5: "path Down s' (hdr b j') (hdr b j' # col_cells j' K') (hdr b j') \<and>
         fld Up s' (hdr b j') = Some (last (hdr b j' # col_cells j' K')) \<and>
         (\<forall>a\<in>set (col_cells j' K'). fld Col s' a = Some (hdr b j')) \<and>
         fld Meta s' (hdr b j') \<noteq> None \<and>
         col_size s' (hdr b j') = of_nat (length (col_cells j' K'))" if j': "j' < n" for j'
  proof -
    let ?h = "hdr b j'"
    let ?ns = "col_cells j' K"
    from cols j' have p: "path Down s ?h (?h # ?ns) ?h"
      and up: "fld Up s ?h = Some (last (?h # ?ns))"
      and col: "\<forall>a\<in>set ?ns. fld Col s a = Some ?h"
      and mt: "fld Meta s ?h \<noteq> None"
      and sz: "col_size s ?h = of_nat (length ?ns)"
      by simp_all
    have ns_lt: "x < a" if "x \<in> set ?ns" for x using that ccA [of j'] rA by auto
    have le: "length (heap s) \<le> length (heap s')" using len by (simp add: a_def)
    have meta': "fld Meta s' ?h \<noteq> None" using M [OF hdr_a [OF j']] mt by simp
    show ?thesis
    proof (cases "j' = j")
      case True
      then have hh: "?h = h" by (simp add: h_def)
      have uu: "u = last (?h # ?ns)" using True by (simp add: u_def K_def)
      have dd: "distinct (?h # ?ns)"
        using col_cells_distinct [of K j'] dA ccA [of j'] hdr_notA [OF j']
        by (auto simp: A_def)
      have "path Down s' ?h (?h # ?ns) a"
      proof (rule path_redirect_grow [OF p _ le])
        show "?h # ?ns \<noteq> []" by simp
        show "fld Down s' (last (?h # ?ns)) = Some a"
          using D [of u] u_lt uu by simp
        show "\<forall>x\<in>set (butlast (?h # ?ns)). fld Down s' x = fld Down s x"
        proof
          fix x assume x: "x \<in> set (butlast (?h # ?ns))"
          then have xin: "x \<in> set (?h # ?ns)" by (rule in_set_butlastD)
          then have xa: "x < a" using hdr_a [OF j'] ns_lt by auto
          have "x \<noteq> u"
          proof
            assume "x = u"
            with x uu have "last (?h # ?ns) \<in> set (butlast (?h # ?ns))" by simp
            moreover have "?h # ?ns = butlast (?h # ?ns) @ [last (?h # ?ns)]" by simp
            ultimately show False using dd
              by (metis distinct_append disjoint_iff list.set_intros(1))
          qed
          with D [of x] xa show "fld Down s' x = fld Down s x" by simp
        qed
      qed
      moreover have "path Down s' a [a] ?h"
        using len D [of a] u_lt hh by simp
      ultimately have "path Down s' ?h ((?h # ?ns) @ [a]) ?h"
        unfolding path_append by blast
      then have 1: "path Down s' ?h (?h # col_cells j' K') ?h"
        using True by (simp add: cc)
      have 2: "fld Up s' ?h = Some (last (?h # col_cells j' K'))"
        using U [of ?h] hdr_a [OF j'] hh True by (simp add: cc)
      have 3: "\<forall>x\<in>set (col_cells j' K'). fld Col s' x = Some ?h"
      proof
        fix x assume "x \<in> set (col_cells j' K')"
        then have "x = a \<or> x \<in> set ?ns" using True by (auto simp: cc)
        then show "fld Col s' x = Some ?h"
        proof
          assume "x = a"
          then show ?thesis using C [of a] hh by simp
        next
          assume x: "x \<in> set ?ns"
          with ns_lt have "x < a" by simp
          with C [of x] col x show ?thesis by simp
        qed
      qed
      have 5: "col_size s' ?h = of_nat (length (col_cells j' K'))"
        using S [OF hdr_a [OF j']] hh sz True by (simp add: cc)
      from 1 2 3 meta' 5 show ?thesis by blast
    next
      case False
      then have hh: "?h \<noteq> h" by (simp add: h_def hdr_def)
      have same: "col_cells j' K' = ?ns" using False by (simp add: cc)
      have u_not: "u \<notin> set (?h # ?ns)"
      proof
        assume un: "u \<in> set (?h # ?ns)"
        from uin have "u = h \<or> u \<in> set (col_cells j K)" by auto
        then show False
        proof
          assume "u = h"
          with un hh have "h \<in> set ?ns" by auto
          with ccA [of j'] hdr_notA [OF j] show False by (auto simp: h_def)
        next
          assume uc: "u \<in> set (col_cells j K)"
          with ccA [of j] hdr_notA [OF j'] have "u \<noteq> ?h" by auto
          with un have "u \<in> set ?ns" by auto
          with uc col_cells_disjoint [of K j' j] dA False show False
            by (auto simp: A_def)
        qed
      qed
      have "path Down s' ?h (?h # ?ns) ?h"
      proof (rule path_grow [OF p le])
        show "\<forall>x\<in>set (?h # ?ns). fld Down s' x = fld Down s x"
        proof
          fix x assume x: "x \<in> set (?h # ?ns)"
          then have xa: "x < a" using hdr_a [OF j'] ns_lt by auto
          from x u_not have "x \<noteq> u" by auto
          with D [of x] xa show "fld Down s' x = fld Down s x" by simp
        qed
      qed
      then have 1: "path Down s' ?h (?h # col_cells j' K') ?h" by (simp add: same)
      have 2: "fld Up s' ?h = Some (last (?h # col_cells j' K'))"
        using U [of ?h] hdr_a [OF j'] hh up by (simp add: same)
      have 3: "\<forall>x\<in>set (col_cells j' K'). fld Col s' x = Some ?h"
      proof
        fix x assume "x \<in> set (col_cells j' K')"
        then have x: "x \<in> set ?ns" by (simp add: same)
        with ns_lt have "x < a" by simp
        with C [of x] col x show "fld Col s' x = Some ?h" by simp
      qed
      have 5: "col_size s' ?h = of_nat (length (col_cells j' K'))"
        using S [OF hdr_a [OF j']] hh sz by (simp add: same)
      from 1 2 3 meta' 5 show ?thesis by blast
    qed
  qed
  have c6: "path Right s' (snd (hd r)) (map snd r) (snd (hd r)) \<and>
         fld Left s' (snd (hd r)) = Some (snd (last r))"
    if r: "r \<in> set K'" "r \<noteq> []" for r
  proof -
    have le: "length (heap s) \<le> length (heap s')" using len by (simp add: a_def)
    from r(1) have "r \<in> set lay \<or> r = cur @ [(j, a)]" by (auto simp: K'_def)
    then show ?thesis
    proof
      assume rl: "r \<in> set lay"
      then have "r \<in> set K" by (simp add: K_def)
      with rows r(2) have p: "path Right s (snd (hd r)) (map snd r) (snd (hd r))"
        and l: "fld Left s (snd (hd r)) = Some (snd (last r))"
        by auto
      have r_lt: "x < a" if "x \<in> set (map snd r)" for x
        using that lay_sub [OF rl] rA by auto
      have r_cur: "x \<notin> set (map snd cur)" if "x \<in> set (map snd r)" for x
        using that lay_cur [OF rl] by auto
      have "path Right s' (snd (hd r)) (map snd r) (snd (hd r))"
      proof (rule path_grow [OF p le])
        show "\<forall>x\<in>set (map snd r). fld Right s' x = fld Right s x"
        proof
          fix x assume x: "x \<in> set (map snd r)"
          have "x \<noteq> snd (last cur)" if "cur \<noteq> []"
          proof -
            from that have "snd (last cur) \<in> set (map snd cur)" by simp
            with r_cur [OF x] show ?thesis by auto
          qed
          with R [of x] r_lt [OF x] show "fld Right s' x = fld Right s x" by auto
        qed
      qed
      moreover have "fld Left s' (snd (hd r)) = Some (snd (last r))"
      proof -
        have x: "snd (hd r) \<in> set (map snd r)" using r(2) by simp
        have "snd (hd r) \<noteq> snd (hd cur)" if "cur \<noteq> []"
        proof -
          from that have "snd (hd cur) \<in> set (map snd cur)" by simp
          with r_cur [OF x] show ?thesis by metis
        qed
        with L [of "snd (hd r)"] r_lt [OF x] l show ?thesis by auto
      qed
      ultimately show ?thesis by blast
    next
      assume rc: "r = cur @ [(j, a)]"
      show ?thesis
      proof (cases "cur = []")
        case True
        with rc R [of a] L [of a] len show ?thesis by simp
      next
        case False
        have "cur \<in> set K" by (simp add: K_def)
        with rows False have p: "path Right s (snd (hd cur)) (map snd cur) (snd (hd cur))"
          and l: "fld Left s (snd (hd cur)) = Some (snd (last cur))"
          by auto
        have cur_lt: "x < a" if "x \<in> set (map snd cur)" for x
          using that cur_sub rA by auto
        have lastc: "last (map snd cur) = snd (last cur)" using False by (simp add: last_map)
        have "path Right s' (snd (hd cur)) (map snd cur) a"
        proof (rule path_redirect_grow [OF p _ le])
          show "map snd cur \<noteq> []" using False by simp
          have "snd (last cur) \<in> set (map snd cur)" using False by simp
          then have "snd (last cur) < a" by (rule cur_lt)
          with R [of "snd (last cur)"] False
          show "fld Right s' (last (map snd cur)) = Some a" by (simp add: lastc)
          show "\<forall>x\<in>set (butlast (map snd cur)). fld Right s' x = fld Right s x"
          proof
            fix x assume x: "x \<in> set (butlast (map snd cur))"
            then have xin: "x \<in> set (map snd cur)" by (rule in_set_butlastD)
            have "x \<noteq> snd (last cur)"
            proof
              assume "x = snd (last cur)"
              with x lastc have "last (map snd cur) \<in> set (butlast (map snd cur))" by simp
              moreover have "map snd cur = butlast (map snd cur) @ [last (map snd cur)]"
                using False by simp
              ultimately show False using dcur
                by (metis distinct_append disjoint_iff list.set_intros(1))
            qed
            with R [of x] cur_lt [OF xin] show "fld Right s' x = fld Right s x" by auto
          qed
        qed
        moreover have "path Right s' a [a] (snd (hd cur))"
        proof -
          have "snd (last cur) \<in> set (map snd cur)" using False by simp
          then have "snd (last cur) \<noteq> a" using cur_lt by auto
          with R [of a] False len show ?thesis by simp
        qed
        ultimately have "path Right s' (snd (hd cur)) (map snd cur @ [a]) (snd (hd cur))"
          unfolding path_append by blast
        then have 1: "path Right s' (snd (hd r)) (map snd r) (snd (hd r))"
          using False by (simp add: rc)
        have "snd (hd cur) \<in> set (map snd cur)" using False by simp
        then have "snd (hd cur) < a" by (rule cur_lt)
        with L [of "snd (hd cur)"] False
        have 2: "fld Left s' (snd (hd r)) = Some (snd (last r))" by (simp add: rc)
        from 1 2 show ?thesis by blast
      qed
    qed
  qed
  show ?thesis
    unfolding building_def K'_def [symmetric]
    using c1 c2 c3 c4 c5 c6 by blast
qed

lemma path_nth:
  "path f s x xs y \<Longrightarrow> i < length xs \<Longrightarrow>
   xs ! i < length (heap s) \<and> fld f s (xs ! i) = Some ((xs @ [y]) ! Suc i)"
proof (induction xs arbitrary: x i)
  case Nil
  then show ?case by simp
next
  case (Cons z zs)
  from Cons.prems(1) obtain k where k: "x = z" "z < length (heap s)" "fld f s z = Some k"
    "path f s k zs y"
    by (auto split: option.splits)
  show ?case
  proof (cases i)
    case 0
    from k(4) have "(zs @ [y]) ! 0 = k" by (cases zs) (auto split: option.splits)
    with 0 k show ?thesis by simp
  next
    case (Suc i')
    with Cons.prems(2) have "i' < length zs" by simp
    from Cons.IH [OF k(4) this] Suc show ?thesis by simp
  qed
qed

lemma building_next:
  assumes "building s b n lay"
  shows "b < length (heap s)" "fld Right s b = Some (if 0 < n then hdr b 0 else b)"
    and "j < n \<Longrightarrow> hdr b j < length (heap s)"
    and "j < n \<Longrightarrow> fld Right s (hdr b j) = Some (if Suc j < n then hdr b (Suc j) else b)"
proof -
  from assms have hp: "path Right s b (b # map (hdr b) [0..<n]) b"
    unfolding building_def by blast
  from path_nth [OF hp, of 0] show "b < length (heap s)" by simp
  have "((b # map (hdr b) [0..<n]) @ [b]) ! Suc 0 = (if 0 < n then hdr b 0 else b)"
    by (simp add: nth_append)
  with path_nth [OF hp, of 0] show "fld Right s b = Some (if 0 < n then hdr b 0 else b)"
    by simp
  show "hdr b j < length (heap s)" if "j < n"
    using path_nth [OF hp, of "Suc j"] that by simp
  show "fld Right s (hdr b j) = Some (if Suc j < n then hdr b (Suc j) else b)" if "j < n"
  proof -
    have "((b # map (hdr b) [0..<n]) @ [b]) ! Suc (Suc j) =
        (if Suc j < n then hdr b (Suc j) else b)"
      using that by (auto simp: nth_append)
    with path_nth [OF hp, of "Suc j"] that show ?thesis by simp
  qed
qed

text \<open>The body of the loop over the cells at a cell that is greater than zero.\<close>

lemma ins_cell_ops:
  fixes s :: state
  assumes inv: "building s b n (lay @ [cur])" and j: "j < n"
  defines "a \<equiv> length (heap s)"
  defines "s2 \<equiv> colappA (hdr b j) (length (heap s)) (fresh s)"
  defines "s3 \<equiv> (if cur = [] then colappA (hdr b j) (length (heap s)) (fresh s)
     else rowappA (snd (hd cur)) (length (heap s)) (colappA (hdr b j) (length (heap s)) (fresh s)))"
  shows "ColAppend (Some (hdr b j)) (Some a) (fresh s) = ok s2"
    and "cur \<noteq> [] \<Longrightarrow> RowAppend (Some (snd (hd cur))) (Some a) s2 = ok s3"
    and "building s3 b n (lay @ [cur @ [(j, a)]])"
    and "\<forall>x<a. col_name s3 x = col_name s x"
proof -
  let ?h = "hdr b j"
  define K where "K = lay @ [cur]"
  define u where "u = last (?h # col_cells j K)"
  have inv': "building s b n K" using inv by (simp add: K_def)
  from inv' [unfolded building_def]
  have hl0: "length (heap s) = b + 1 + n + length (concat K)"
    and A0: "map snd (concat K) = [b + 1 + n ..< b + 1 + n + length (concat K)]"
    and cols: "\<forall>j<n. path Down s (hdr b j) (hdr b j # col_cells j K) (hdr b j) \<and>
         fld Up s (hdr b j) = Some (last (hdr b j # col_cells j K)) \<and>
         (\<forall>a\<in>set (col_cells j K). fld Col s a = Some (hdr b j)) \<and>
         fld Meta s (hdr b j) \<noteq> None \<and>
         col_size s (hdr b j) = of_nat (length (col_cells j K))"
    and rows: "\<forall>r\<in>set K. r \<noteq> [] \<longrightarrow>
         path Right s (snd (hd r)) (map snd r) (snd (hd r)) \<and>
         fld Left s (snd (hd r)) = Some (snd (last r))"
    by blast+
  from cols j have p: "path Down s ?h (?h # col_cells j K) ?h"
    and up: "fld Up s ?h = Some u" and mt: "fld Meta s ?h \<noteq> None"
    by (simp_all add: u_def)
  have uin: "u \<in> set (?h # col_cells j K)" unfolding u_def by (rule last_in_set) simp
  from path_valid [OF p] uin have u_lt: "u < a" and h_lt: "?h < a" by (auto simp: a_def)
  have f1: "?h < length (heap (fresh s))" "a < length (heap (fresh s))"
    "fld Up (fresh s) ?h = Some u" "u < length (heap (fresh s))" "a \<noteq> ?h" "a \<noteq> u"
    "fld Meta (fresh s) ?h \<noteq> None"
    using u_lt h_lt up mt by (simp_all add: a_def)
  have s2a: "s2 = colappA ?h a (fresh s)" by (simp add: s2_def a_def)
  note cf = colappA_fields [OF f1(1-6), folded s2a]
  note cs = col_size_colappA [OF f1, folded s2a]
  show run1: "ColAppend (Some ?h) (Some a) (fresh s) = ok s2"
    unfolding s2a by (rule ColAppend_colappA [OF f1(1-5) f1(7)])
  have len2: "length (heap s2) = Suc a" by (simp add: s2_def a_def)
  have old: "fld f (fresh s) x = fld f s x" if "x < a" for x and f :: "node \<Rightarrow> 'a"
    using that by (simp add: a_def)
  have new: "fld Right (fresh s) a = Some a" "fld Left (fresh s) a = Some a"
    by (simp_all add: a_def)
  have D2: "fld Down s2 x = (if x = u then Some a else if x = a then Some ?h else fld Down s x)"
    if "x \<le> a" for x
    using that old [of x Down] by (cases "x = a") (simp_all add: cf(1))
  have U2: "fld Up s2 x = (if x = ?h then Some a else if x = a then Some u else fld Up s x)"
    if "x \<le> a" for x
    using that old [of x Up] by (cases "x = a") (simp_all add: cf(2))
  have C2: "fld Col s2 x = (if x = a then Some ?h else fld Col s x)" if "x \<le> a" for x
    using that old [of x Col] by (cases "x = a") (simp_all add: cf(3))
  have M2: "(fld Meta s2 x \<noteq> None) = (fld Meta s x \<noteq> None)" if "x < a" for x
    using that old [of x Meta] mt by (auto simp: cf(4))
  have so: "col_size (fresh s) x = col_size s x" if "x < a" for x
    using old [OF that, of Meta] by (simp add: col_size_def)
  have no: "col_name (fresh s) x = col_name s x" if "x < a" for x
    using old [OF that, of Meta] by (simp add: col_name_def)
  have S2: "col_size s2 x = (if x = ?h then col_size s x + 1 else col_size s x)" if "x < a" for x
    using so [OF that] so [OF h_lt] by (simp add: cs(1))
  have N2: "col_name s2 x = col_name s x" if "x < a" for x
    using no [OF that] by (simp add: cs(2))
  have R2: "fld Right s2 x = (if x = a then Some a else fld Right s x)" if "x \<le> a" for x
    using that old [of x Right] new by (cases "x = a") (simp_all add: s2_def a_def)
  have L2: "fld Left s2 x = (if x = a then Some a else fld Left s x)" if "x \<le> a" for x
    using that old [of x Left] new by (cases "x = a") (simp_all add: s2_def a_def)
  have ujK: "u = last (hdr b j # col_cells j (lay @ [cur]))" by (simp add: u_def K_def)
  have all: "(cur \<noteq> [] \<longrightarrow> RowAppend (Some (snd (hd cur))) (Some a) s2 = ok s3) \<and>
      building s3 b n (lay @ [cur @ [(j, a)]]) \<and> (\<forall>x<a. col_name s3 x = col_name s x)"
  proof (cases "cur = []")
    case True
    then have s3: "s3 = s2" by (simp add: s3_def s2_def)
    have "building s3 b n (lay @ [cur @ [(j, a)]])"
    proof (rule building_ins [OF inv j _ refl ujK])
      show "a = length (heap s)" by (simp add: a_def)
      show "length (heap s3) = Suc a" using len2 by (simp add: s3)
      show "fld Right s3 x =
          (if cur \<noteq> [] \<and> x = snd (last cur) then Some a
           else if x = a then Some (if cur = [] then a else snd (hd cur))
           else fld Right s x)" if "x \<le> a" for x
        using R2 [OF that] True by (simp add: s3)
      show "fld Left s3 x =
          (if cur \<noteq> [] \<and> x = snd (hd cur) then Some a
           else if x = a then Some (if cur = [] then a else snd (last cur))
           else fld Left s x)" if "x \<le> a" for x
        using L2 [OF that] True by (simp add: s3)
    qed (simp_all only: s3 D2 U2 C2 M2 S2)
    moreover have "\<forall>x<a. col_name s3 x = col_name s x" using N2 by (simp add: s3)
    ultimately show ?thesis using True by simp
  next
    case False
    let ?p = "snd (hd cur)"
    let ?l = "snd (last cur)"
    have s3: "s3 = rowappA ?p a s2" using False by (simp add: s3_def s2_def a_def)
    have "cur \<in> set K" by (simp add: K_def)
    with rows False have pr: "path Right s ?p (map snd cur) ?p"
      and l: "fld Left s ?p = Some ?l"
      by auto
    have "set (map snd cur) \<subseteq> set (map snd (concat K))" by (auto simp: K_def)
    then have cur_lt: "x < a" if "x \<in> set (map snd cur)" for x
      using that hl0 unfolding A0 a_def by auto
    have "?p \<in> set (map snd cur)" "?l \<in> set (map snd cur)" using False by simp_all
    then have p_lt: "?p < a" and l_lt: "?l < a" using cur_lt by blast+
    have f2: "?p < length (heap s2)" "a < length (heap s2)" "fld Left s2 ?p = Some ?l"
      "?l < length (heap s2)" "a \<noteq> ?p" "a \<noteq> ?l"
      using p_lt l_lt len2 L2 [of ?p] l by simp_all
    note rf = rowappA_fields [OF f2, folded s3]
    have run2: "RowAppend (Some (snd (hd cur))) (Some a) s2 = ok s3"
      unfolding s3 by (rule RowAppend_rowappA [OF f2(1-5)])
    have N3: "col_name s3 x = col_name s2 x" for x
      by (simp add: s3 col_name_def)
    have n3: "\<forall>x<a. col_name s3 x = col_name s x" using N2 N3 by simp
    have S3: "col_size s3 x = col_size s2 x" for x
      by (simp add: s3 col_size_def)
    have D3: "fld Down s3 x = fld Down s2 x" for x by (simp add: s3)
    have U3: "fld Up s3 x = fld Up s2 x" for x by (simp add: s3)
    have C3: "fld Col s3 x = fld Col s2 x" for x by (simp add: s3)
    have M3: "fld Meta s3 x = fld Meta s2 x" for x by (simp add: s3)
    have "building s3 b n (lay @ [cur @ [(j, a)]])"
    proof (rule building_ins [OF inv j _ refl ujK])
      show "a = length (heap s)" by (simp add: a_def)
      show "length (heap s3) = Suc a" using len2 by (simp add: s3)
      show "fld Right s3 x =
          (if cur \<noteq> [] \<and> x = snd (last cur) then Some a
           else if x = a then Some (if cur = [] then a else snd (hd cur))
           else fld Right s x)" if "x \<le> a" for x
        using that False R2 [of x] by (simp add: rf(1))
      show "fld Left s3 x =
          (if cur \<noteq> [] \<and> x = snd (hd cur) then Some a
           else if x = a then Some (if cur = [] then a else snd (last cur))
           else fld Left s x)" if "x \<le> a" for x
        using that False L2 [of x] by (simp add: rf(2))
    qed (simp_all only: D3 U3 C3 M3 S3 D2 U2 C2 M2 S2)
    with run2 n3 show ?thesis by simp
  qed
  from all show "cur \<noteq> [] \<Longrightarrow> RowAppend (Some (snd (hd cur))) (Some a) s2 = ok s3"
    and "building s3 b n (lay @ [cur @ [(j, a)]])"
    and "\<forall>x<a. col_name s3 x = col_name s x"
    by simp_all
qed

lemma building_length: "building s b n lay \<Longrightarrow> length (heap s) = b + 1 + n + length (concat lay)"
  unfolding building_def by blast

lemma ok_inject [simp]: "(ok a = ok b) = (a = b)"
  by (simp add: ok_def)

lemma upt_shift: "[a ..< a + Suc m] = a # [Suc a ..< Suc a + m]"
  using upt_conv_Cons [of a "a + Suc m"] by (simp del: upt_Suc)

lemma zip_shift: "zip (j # js) [a ..< a + Suc m] = (j, a) # zip js [Suc a ..< Suc a + m]"
  by (simp only: upt_shift zip_Cons_Cons)

text \<open>
  The loop over the cells of one input row, from column \<open>j\<close>: the cells greater than
  zero get the next addresses, in the order of their columns.
\<close>

lemma add_cells_build:
  assumes "building s b n (lay @ [cur])" and "j \<le> n" and "n \<le> length row"
  shows "\<exists>s'. add_cells row n j (if cur = [] then None else Some (snd (hd cur)))
             (Some (if j < n then hdr b j else b)) s = ok s' \<and>
           building s' b n
             (lay @ [cur @ zip (filter (\<lambda>i. 0 < row ! i) [j..<n])
                [length (heap s) ..<
                 length (heap s) + length (filter (\<lambda>i. 0 < row ! i) [j..<n])]]) \<and>
           (\<forall>x<length (heap s). col_name s' x = col_name s x)"
  using assms
proof (induction "n - j" arbitrary: j cur s)
  case 0
  then have jn: "j = n" by simp
  have "add_cells row n j (if cur = [] then None else Some (snd (hd cur)))
      (Some (if j < n then hdr b j else b)) s = ok s"
    using jn by (subst add_cells.simps) simp
  with 0(2) jn show ?case by (intro exI [of _ s]) simp
next
  case (Suc k)
  then have j: "j < n" and jr: "j < length row" by simp_all
  let ?P = "\<lambda>i. 0 < row ! i"
  let ?a = "length (heap s)"
  let ?next = "Some (if Suc j < n then hdr b (Suc j) else b)"
  have k: "k = n - Suc j" using Suc.hyps(2) by simp
  have sj: "Suc j \<le> n" using j by simp
  have upt: "[j..<n] = j # [Suc j..<n]" using j by (rule upt_conv_Cons)
  show ?case
  proof (cases "0 < row ! j")
    case False
    have nx: "get Right s (Some (hdr b j)) = ok ?next"
      using building_next(3,4) [OF Suc.prems(1) j] by simp
    from Suc.hyps(1) [OF k Suc.prems(1) sj Suc.prems(3)]
    obtain s' where s': "add_cells row n (Suc j) (if cur = [] then None else Some (snd (hd cur)))
             ?next s = ok s'"
      "building s' b n
             (lay @ [cur @ zip (filter ?P [Suc j..<n])
                [?a ..< ?a + length (filter ?P [Suc j..<n])]])"
      "\<forall>x<?a. col_name s' x = col_name s x"
      by blast
    have "add_cells row n j (if cur = [] then None else Some (snd (hd cur)))
             (Some (if j < n then hdr b j else b)) s = ok s'"
      using j jr False nx s'(1) by (subst add_cells.simps) simp
    moreover have "filter ?P [j..<n] = filter ?P [Suc j..<n]" using False by (simp add: upt)
    ultimately show ?thesis using s'(2,3) by auto
  next
    case True
    let ?cur' = "cur @ [(j, ?a)]"
    define s3 where "s3 = (if cur = [] then colappA (hdr b j) ?a (fresh s)
      else rowappA (snd (hd cur)) ?a (colappA (hdr b j) ?a (fresh s)))"
    note ops = ins_cell_ops [OF Suc.prems(1) j, folded s3_def]
    have len3: "length (heap s3) = Suc ?a"
      using building_length [OF ops(3)] building_length [OF Suc.prems(1)] by simp
    have nx: "get Right s3 (Some (hdr b j)) = ok ?next"
      using building_next(3,4) [OF ops(3) j] by simp
    have prev': "(if ?cur' = [] then None else Some (snd (hd ?cur'))) =
        (if cur = [] then Some ?a else Some (snd (hd cur)))"
      by (cases cur) simp_all
    from Suc.hyps(1) [OF k ops(3) sj Suc.prems(3)]
    obtain s' where s': "add_cells row n (Suc j)
             (if cur = [] then Some ?a else Some (snd (hd cur))) ?next s3 = ok s'"
      "building s' b n
             (lay @ [?cur' @ zip (filter ?P [Suc j..<n])
                [Suc ?a ..< Suc ?a + length (filter ?P [Suc j..<n])]])"
      "\<forall>x<Suc ?a. col_name s' x = col_name s3 x"
      unfolding prev' len3 by blast
    have run: "add_cells row n j (if cur = [] then None else Some (snd (hd cur)))
             (Some (if j < n then hdr b j else b)) s = ok s'"
    proof (cases "cur = []")
      case c: True
      then have "s3 = colappA (hdr b j) ?a (fresh s)" by (simp add: s3_def)
      with ops(1) have "ColAppend (Some (hdr b j)) (Some ?a) (fresh s) = ok s3" by simp
      with j jr True nx s'(1) c show ?thesis
        by (subst add_cells.simps) (simp add: NewNode_fresh)
    next
      case c: False
      define s2 where "s2 = colappA (hdr b j) ?a (fresh s)"
      from ops(1,2) c have "ColAppend (Some (hdr b j)) (Some ?a) (fresh s) = ok s2"
        "RowAppend (Some (snd (hd cur))) (Some ?a) s2 = ok s3"
        by (simp_all add: s2_def)
      with j jr True nx s'(1) c show ?thesis
        by (subst add_cells.simps) (simp add: NewNode_fresh)
    qed
    have fl: "filter ?P [j..<n] = j # filter ?P [Suc j..<n]" using True by (simp add: upt)
    have "cur @ zip (filter ?P [j..<n]) [?a ..< ?a + length (filter ?P [j..<n])] =
        ?cur' @ zip (filter ?P [Suc j..<n]) [Suc ?a ..< Suc ?a + length (filter ?P [Suc j..<n])]"
      unfolding fl
      using zip_shift [of j "filter ?P [Suc j..<n]" ?a "length (filter ?P [Suc j..<n])"]
      by (simp del: upt_Suc)
    with s'(2) have bld: "building s' b n
        (lay @ [cur @ zip (filter ?P [j..<n]) [?a ..< ?a + length (filter ?P [j..<n])]])"
      by simp
    have "\<forall>x<?a. col_name s' x = col_name s x" using s'(3) ops(4) by simp
    with run bld show ?thesis by blast
  qed
qed

definition row_cols :: "nat \<Rightarrow> int list \<Rightarrow> nat list" where
  "row_cols n row = filter (\<lambda>j. 0 < row ! j) [0..<n]"

fun alloc :: "addr \<Rightarrow> nat list list \<Rightarrow> layout" where
  "alloc a [] = []"
| "alloc a (js # rest) = zip js [a..<a + length js] # alloc (a + length js) rest"

lemma building_open: "building s b n (lay @ [[]]) = building s b n lay"
  by (simp add: building_def col_cells_def)

lemma add_rows_build:
  assumes "building s b n lay" and "\<forall>row\<in>set rows. n \<le> length row"
  shows "\<exists>s'. add_rows rows n (Some b) s = ok s' \<and>
           building s' b n (lay @ alloc (length (heap s)) (map (row_cols n) rows)) \<and>
           (\<forall>x<length (heap s). col_name s' x = col_name s x)"
  using assms
proof (induction rows arbitrary: s lay)
  case Nil
  then show ?case by simp
next
  case (Cons row rows)
  let ?js = "row_cols n row"
  let ?a = "length (heap s)"
  have op: "building s b n (lay @ [[]])" using Cons.prems(1) by (simp add: building_open)
  have nr: "n \<le> length row" using Cons.prems(2) by simp
  from add_cells_build [OF op _ nr, of 0]
  obtain s1 where s1: "add_cells row n 0 None (Some (if 0 < n then hdr b 0 else b)) s = ok s1"
    "building s1 b n (lay @ [zip ?js [?a ..< ?a + length ?js]])"
    "\<forall>x<?a. col_name s1 x = col_name s x"
    by (auto simp: row_cols_def)
  have len1: "length (heap s1) = ?a + length ?js"
    using building_length [OF s1(2)] building_length [OF Cons.prems(1)]
    by (simp del: upt_Suc)
  from Cons.IH [OF s1(2)] Cons.prems(2)
  obtain s' where s': "add_rows rows n (Some b) s1 = ok s'"
    "building s' b n ((lay @ [zip ?js [?a ..< ?a + length ?js]]) @
        alloc (?a + length ?js) (map (row_cols n) rows))"
    "\<forall>x<length (heap s1). col_name s' x = col_name s1 x"
    unfolding len1 by auto
  have "add_rows (row # rows) n (Some b) s = ok s'"
    using building_next(1,2) [OF Cons.prems(1)] s1(1) s'(1) by simp
  moreover have "\<forall>x<?a. col_name s' x = col_name s x"
    using s1(3) s'(3) len1 by simp
  ultimately show ?case using s'(2) by simp
qed

text \<open>
  The header row while the headers are made: the headers of \<open>names\<close> are in the row
  in this order, each with an empty column of size 0.
\<close>

definition hdrs :: "state \<Rightarrow> addr \<Rightarrow> string list \<Rightarrow> bool" where
  "hdrs s b names =
     (length (heap s) = b + 1 + length names \<and>
      path Right s b (b # map (hdr b) [0..<length names]) b \<and>
      fld Left s b = Some (last (b # map (hdr b) [0..<length names])) \<and>
      (\<forall>j<length names.
         fld Down s (hdr b j) = Some (hdr b j) \<and> fld Up s (hdr b j) = Some (hdr b j) \<and>
         fld Meta s (hdr b j) = Some \<lparr>Size = 0, Name = names ! j\<rparr>))"

lemma hdrs_step:
  fixes s :: state and h :: string
  assumes inv: "hdrs s b names"
  defines "a \<equiv> length (heap s)"
  defines "s1 \<equiv> upd (length (heap s)) (Meta_update (\<lambda>_. Some \<lparr>Size = 0, Name = h\<rparr>)) (fresh s)"
  shows "NewColNode h s = ok (Some a, s1)"
    and "RowAppend (Some b) (Some a) s1 = ok (rowappA b a s1)"
    and "hdrs (rowappA b a s1) b (names @ [h])"
proof -
  let ?k = "length names"
  let ?xs = "b # map (hdr b) [0..<?k]"
  define l where "l = last ?xs"
  define s2 where "s2 = rowappA b a s1"
  from inv [unfolded hdrs_def]
  have len: "length (heap s) = b + 1 + ?k"
    and hp: "path Right s b ?xs b"
    and left: "fld Left s b = Some l"
    and cols: "\<forall>j<?k. fld Down s (hdr b j) = Some (hdr b j) \<and> fld Up s (hdr b j) = Some (hdr b j) \<and>
         fld Meta s (hdr b j) = Some \<lparr>Size = 0, Name = names ! j\<rparr>"
    unfolding l_def by blast+
  have a: "a = hdr b ?k" using len by (simp add: a_def hdr_def)
  have s1a: "s1 = upd a (Meta_update (\<lambda>_. Some \<lparr>Size = 0, Name = h\<rparr>)) (fresh s)"
    by (simp add: s1_def a_def)
  have len1: "length (heap s1) = Suc a" by (simp add: s1a a_def)
  show "NewColNode h s = ok (Some a, s1)"
    by (simp add: NewColNode_def NewNode_fresh s1_def a_def)
  have xs_lt: "x < a" if "x \<in> set ?xs" for x using that len by (auto simp: a_def hdr_def)
  have lin: "l \<in> set ?xs" unfolding l_def by (rule last_in_set) simp
  have b_lt: "b < a" and l_lt: "l < a" using xs_lt lin by simp_all
  have old: "fld f s1 x = fld f s x" if "x < a" for x and f :: "node \<Rightarrow> addr option"
    using that by (simp add: s1a fld_upd a_def)
  have f2: "b < length (heap s1)" "a < length (heap s1)" "fld Left s1 b = Some l"
    "l < length (heap s1)" "a \<noteq> b" "a \<noteq> l"
    using b_lt l_lt len1 old [OF b_lt, of Left] left by simp_all
  show "RowAppend (Some b) (Some a) s1 = ok (rowappA b a s1)"
    by (rule RowAppend_rowappA [OF f2(1-5)])
  note rf = rowappA_fields [OF f2, folded s2_def]
  have len2: "length (heap s2) = Suc a" using len1 by (simp add: s2_def)
  have dxs: "distinct ?xs" by (auto simp: distinct_map hdr_def inj_on_def)
  have "path Right s2 b ?xs a"
  proof (rule path_redirect_grow [OF hp])
    show "?xs \<noteq> []" by simp
    show "length (heap s) \<le> length (heap s2)" using len2 by (simp add: a_def)
    show "fld Right s2 (last ?xs) = Some a" using rf(1) [of l] by (simp add: l_def)
    show "\<forall>x\<in>set (butlast ?xs). fld Right s2 x = fld Right s x"
    proof
      fix x assume x: "x \<in> set (butlast ?xs)"
      then have xin: "x \<in> set ?xs" by (rule in_set_butlastD)
      have "x \<noteq> l"
      proof
        assume "x = l"
        with x have "last ?xs \<in> set (butlast ?xs)" by (simp add: l_def)
        moreover have "?xs = butlast ?xs @ [last ?xs]" by simp
        ultimately show False using dxs
          by (metis distinct_append disjoint_iff list.set_intros(1))
      qed
      with rf(1) [of x] xs_lt [OF xin] old [of x Right] show "fld Right s2 x = fld Right s x"
        by simp
    qed
  qed
  moreover have "path Right s2 a [a] b" using len2 rf(1) [of a] f2(6) by simp
  ultimately have "path Right s2 b (?xs @ [a]) b" unfolding path_append by blast
  then have 1: "path Right s2 b (b # map (hdr b) [0..<length (names @ [h])]) b"
    by (simp add: a)
  have 2: "fld Left s2 b = Some (last (b # map (hdr b) [0..<length (names @ [h])]))"
    using rf(2) [of b] by (simp add: a)
  have 3: "fld Down s2 (hdr b j) = Some (hdr b j) \<and> fld Up s2 (hdr b j) = Some (hdr b j) \<and>
         fld Meta s2 (hdr b j) = Some \<lparr>Size = 0, Name = (names @ [h]) ! j\<rparr>"
    if "j < length (names @ [h])" for j
  proof (cases "j < ?k")
    case True
    then have lt: "hdr b j < a" by (simp add: a hdr_def)
    then have "fld Meta s1 (hdr b j) = fld Meta s (hdr b j)"
      by (simp add: s1a a_def)
    with cols True old [OF lt, of Down] old [OF lt, of Up] show ?thesis
      by (simp add: s2_def nth_append)
  next
    case False
    with that have j: "j = ?k" by simp
    have "fld Down s1 a = Some a" "fld Up s1 a = Some a"
      "fld Meta s1 a = Some \<lparr>Size = 0, Name = h\<rparr>"
      by (simp_all add: s1_def a_def)
    then show ?thesis by (simp add: s2_def j a [symmetric])
  qed
  have 0: "length (heap s2) = b + 1 + length (names @ [h])" using len2 len by (simp add: a_def)
  from 0 1 2 3 show "hdrs (rowappA b a s1) b (names @ [h])"
    unfolding hdrs_def s2_def [symmetric] by blast
qed

lemma add_headers_build:
  "hdrs s b names \<Longrightarrow> \<exists>s'. add_headers hs (Some b) s = ok s' \<and> hdrs s' b (names @ hs)"
proof (induction hs arbitrary: s names)
  case Nil
  then show ?case by simp
next
  case (Cons h hs)
  note st = hdrs_step [OF Cons.prems, where h = h]
  from Cons.IH [OF st(3)] st(1,2) show ?case by simp
qed

lemma hdrs_building:
  assumes "hdrs s b names"
  shows "building s b (length names) []"
    and "map (col_name s) (map (hdr b) [0..<length names]) = names"
proof -
  let ?k = "length names"
  from assms [unfolded hdrs_def]
  have len: "length (heap s) = b + 1 + ?k"
    and hp: "path Right s b (b # map (hdr b) [0..<?k]) b"
    and cols: "\<forall>j<?k. fld Down s (hdr b j) = Some (hdr b j) \<and> fld Up s (hdr b j) = Some (hdr b j) \<and>
         fld Meta s (hdr b j) = Some \<lparr>Size = 0, Name = names ! j\<rparr>"
    by blast+
  have "path Down s (hdr b j) (hdr b j # col_cells j []) (hdr b j) \<and>
         fld Up s (hdr b j) = Some (last (hdr b j # col_cells j [])) \<and>
         (\<forall>a\<in>set (col_cells j []). fld Col s a = Some (hdr b j)) \<and>
         fld Meta s (hdr b j) \<noteq> None \<and>
         col_size s (hdr b j) = of_nat (length (col_cells j []))" if "j < ?k" for j
    using cols that len by (simp add: col_cells_def col_size_def hdr_def)
  with len hp show "building s b ?k []"
    unfolding building_def by simp
  show "map (col_name s) (map (hdr b) [0..<?k]) = names"
    using cols by (intro nth_equalityI) (simp_all add: col_name_def)
qed

text \<open>The columns of the cells of an input row that are not zero.\<close>

definition nonzero_cols :: "nat \<Rightarrow> int list \<Rightarrow> nat list" where
  "nonzero_cols n row = filter (\<lambda>j. row ! j \<noteq> 0) [0..<n]"

lemma row_cols_nonzero:
  assumes "length row = n" and "\<forall>x\<in>set row. 0 \<le> x"
  shows "row_cols n row = nonzero_cols n row"
  unfolding row_cols_def nonzero_cols_def
proof (rule filter_cong [OF refl])
  fix j assume "j \<in> set [0..<n]"
  then have "row ! j \<in> set row" using assms(1) by simp
  with assms(2) have "0 \<le> row ! j" by blast
  then show "(0 < row ! j) = (row ! j \<noteq> 0)" by auto
qed

lemma length_alloc: "length (concat (alloc a jss)) = sum_list (map length jss)"
  by (induction jss arbitrary: a) simp_all

lemma length_nonzero_cols:
  "length (nonzero_cols (length row) row) = length (filter (\<lambda>x. x \<noteq> 0) row)"
proof -
  have "filter (\<lambda>x. x \<noteq> 0) (map (nth row) [0..<length row]) =
      map (nth row) (filter ((\<lambda>x. x \<noteq> 0) \<circ> nth row) [0..<length row])"
    by (rule filter_map)
  then have "length (filter (\<lambda>x. x \<noteq> 0) row) =
      length (filter ((\<lambda>x. x \<noteq> 0) \<circ> nth row) [0..<length row])"
    by (simp add: map_nth)
  then show ?thesis by (simp add: nonzero_cols_def comp_def)
qed

lemma NewSparseMatrix_building:
  assumes rect: "\<forall>row\<in>set matrix. length row = length headers"
    and nonneg: "\<forall>row\<in>set matrix. \<forall>x\<in>set row. 0 \<le> x"
  shows "\<exists>s'. NewSparseMatrix matrix headers s = ok (Some (length (heap s)), s') \<and>
     building s' (length (heap s)) (length headers)
       (alloc (length (heap s) + 1 + length headers)
          (map (nonzero_cols (length headers)) matrix)) \<and>
     map (col_name s') (map (hdr (length (heap s))) [0..<length headers]) = headers"
proof -
  let ?b = "length (heap s)"
  let ?n = "length headers"
  define s0 where "s0 = s\<lparr>heap := heap s @
      [\<lparr>Right = None, Up = None, Left = None, Down = None, Col = None,
        Meta = Some \<lparr>Size = 0, Name = ''root''\<rparr>\<rparr>]\<rparr>"
  define s2 where "s2 = upd ?b (Right_update (\<lambda>_. Some ?b)) (upd ?b (Left_update (\<lambda>_. Some ?b)) s0)"
  have len0: "length (heap s0) = Suc ?b" by (simp add: s0_def)
  have h0: "hdrs s2 ?b []"
    unfolding hdrs_def using len0 by (simp add: s2_def)
  from add_headers_build [OF h0, of headers]
  obtain s3 where s3: "add_headers headers (Some ?b) s2 = ok s3" "hdrs s3 ?b headers"
    by auto
  note b3 = hdrs_building [OF s3(2)]
  have len3: "length (heap s3) = ?b + 1 + ?n"
    using building_length [OF b3(1)] by simp
  have wide: "\<forall>row\<in>set matrix. ?n \<le> length row" using rect by simp
  from add_rows_build [OF b3(1) wide]
  obtain s4 where s4: "add_rows matrix ?n (Some ?b) s3 = ok s4"
    "building s4 ?b ?n ([] @ alloc (?b + 1 + ?n) (map (row_cols ?n) matrix))"
    "\<forall>x<?b + 1 + ?n. col_name s4 x = col_name s3 x"
    unfolding len3 by blast
  have "map (row_cols ?n) matrix = map (nonzero_cols ?n) matrix"
    using rect nonneg by (intro map_cong refl row_cols_nonzero) simp_all
  with s4(2) have bld: "building s4 ?b ?n (alloc (?b + 1 + ?n) (map (nonzero_cols ?n) matrix))"
    by simp
  have "map (col_name s4) (map (hdr ?b) [0..<?n]) = map (col_name s3) (map (hdr ?b) [0..<?n])"
    using s4(3) by (simp add: hdr_def)
  with b3(2) have names: "map (col_name s4) (map (hdr ?b) [0..<?n]) = headers" by simp
  have "NewSparseMatrix matrix headers s = ok (Some ?b, s4)"
    using len0 s3(1) s4(1)
    by (simp add: NewSparseMatrix_def s0_def [symmetric] s2_def [symmetric])
  with bld names show ?thesis by blast
qed

section \<open>The matrix that is built is well formed\<close>

lemma path_successively:
  "path f s a (x # xs) b =
     (a = x \<and> successively (\<lambda>u v. u < length (heap s) \<and> fld f s u = Some v) (x # xs @ [b]))"
proof (induction xs arbitrary: a x)
  case Nil
  show ?case by (auto split: option.splits)
next
  case (Cons y ys)
  show ?case using Cons [of _ y] by (auto split: option.splits)
qed

text \<open>A ring walked forwards by \<open>f\<close> and backwards by \<open>g\<close> has the two links inverse.\<close>

lemma ring_linv:
  assumes pf: "path f s c (c # xs) c" and pg: "path g s c (c # rev xs) c"
  shows "linv f g s (set (c # xs))"
proof -
  define L where "L = c # xs @ [c]"
  let ?F = "\<lambda>u v. u < length (heap s) \<and> fld f s u = Some v"
  let ?G = "\<lambda>u v. u < length (heap s) \<and> fld g s u = Some v"
  have F: "successively ?F L" using pf unfolding path_successively L_def by simp
  have "successively ?G (c # rev xs @ [c])" using pg unfolding path_successively by simp
  moreover have "c # rev xs @ [c] = rev L" by (simp add: L_def)
  ultimately have G: "successively (\<lambda>x y. ?G y x) L" by (simp add: successively_rev)
  have lenL: "length L = length xs + 2" by (simp add: L_def)
  have setL: "set L = set (c # xs)" by (auto simp: L_def)
  have step: "?F (L ! i) (L ! Suc i) \<and> ?G (L ! Suc i) (L ! i) \<and> L ! i \<in> set (c # xs) \<and>
      L ! Suc i \<in> set (c # xs)" if "i \<le> length xs" for i
  proof -
    from that have si: "Suc i < length L" by (simp add: lenL)
    then have "L ! i \<in> set L" "L ! Suc i \<in> set L" by simp_all
    with successively_nth [OF F si] successively_nth [OF G si] setL show ?thesis by simp
  qed
  show ?thesis
    unfolding linv_def
  proof
    fix n assume n: "n \<in> set (c # xs)"
    then obtain i where i: "i < length (c # xs)" "(c # xs) ! i = n"
      unfolding in_set_conv_nth by blast
    then have i1: "i \<le> length xs" and Li: "L ! i = n"
      by (auto simp: L_def nth_append nth_Cons')
    from n have "n \<in> set (xs @ [c])" by auto
    then obtain k where k: "k < length (xs @ [c])" "(xs @ [c]) ! k = n"
      unfolding in_set_conv_nth by blast
    then have k1: "k \<le> length xs" and Lk: "L ! Suc k = n"
      by (auto simp: L_def)
    from step [OF i1] Li have a: "n < length (heap s)"
      "\<exists>d\<in>set (c # xs). fld f s n = Some d \<and> fld g s d = Some n"
      by auto
    from step [OF k1] Lk have "\<exists>u\<in>set (c # xs). fld g s n = Some u \<and> fld f s u = Some n"
      by auto
    with a show "n < length (heap s) \<and>
        (\<exists>d\<in>set (c # xs). fld f s n = Some d \<and> fld g s d = Some n) \<and>
        (\<exists>u\<in>set (c # xs). fld g s n = Some u \<and> fld f s u = Some n)"
      by blast
  qed
qed

lemma linv_Union:
  assumes "\<And>A. A \<in> F \<Longrightarrow> linv f g s A"
  shows "linv f g s (\<Union>F)"
  unfolding linv_def
proof
  fix n assume "n \<in> \<Union>F"
  then obtain A where A: "A \<in> F" "n \<in> A" by blast
  from assms [OF A(1)] A(2) have "n < length (heap s)"
    "\<exists>d\<in>A. fld f s n = Some d \<and> fld g s d = Some n"
    "\<exists>u\<in>A. fld g s n = Some u \<and> fld f s u = Some n"
    unfolding linv_def by blast+
  with A(1) show "n < length (heap s) \<and>
      (\<exists>d\<in>\<Union>F. fld f s n = Some d \<and> fld g s d = Some n) \<and>
      (\<exists>u\<in>\<Union>F. fld g s n = Some u \<and> fld f s u = Some n)"
    by blast
qed

text \<open>The same rings walked backwards: by \<open>Left\<close> in the rows and by \<open>Up\<close> in the columns.\<close>

definition building_rev :: "state \<Rightarrow> addr \<Rightarrow> nat \<Rightarrow> layout \<Rightarrow> bool" where
  "building_rev s b n lay =
     (path Left s b (b # rev (map (hdr b) [0..<n])) b \<and>
      (\<forall>j<n. path Up s (hdr b j) (hdr b j # rev (col_cells j lay)) (hdr b j)) \<and>
      (\<forall>r\<in>set lay. r \<noteq> [] \<longrightarrow>
         path Left s (snd (hd r)) (snd (hd r) # rev (tl (map snd r))) (snd (hd r))))"

lemma building_rev_ins:
  fixes s s' :: state
  assumes inv: "building s b n (lay @ [cur])" and brev: "building_rev s b n (lay @ [cur])"
    and j: "j < n"
    and a_def: "a = length (heap s)" and h_def: "h = hdr b j"
    and u_def: "u = last (hdr b j # col_cells j (lay @ [cur]))"
    and len: "length (heap s') = Suc a"
    and U: "\<And>x. x \<le> a \<Longrightarrow>
        fld Up s' x = (if x = h then Some a else if x = a then Some u else fld Up s x)"
    and L: "\<And>x. x \<le> a \<Longrightarrow>
        fld Left s' x =
          (if cur \<noteq> [] \<and> x = snd (hd cur) then Some a
           else if x = a then Some (if cur = [] then a else snd (last cur))
           else fld Left s x)"
  shows "building_rev s' b n (lay @ [cur @ [(j, a)]])"
proof -
  define K where "K = lay @ [cur]"
  define K' where "K' = lay @ [cur @ [(j, a)]]"
  define A where "A = map snd (concat K)"
  have cc: "col_cells j' K' = col_cells j' K @ (if j' = j then [a] else [])" for j'
    unfolding K_def K'_def by (rule col_cells_snoc)
  have inv': "building s b n K" using inv by (simp add: K_def)
  from inv' [unfolded building_def]
  have hl0: "length (heap s) = b + 1 + n + length (concat K)"
    and A0: "map snd (concat K) = [b + 1 + n ..< b + 1 + n + length (concat K)]"
    and cols: "\<forall>j<n. path Down s (hdr b j) (hdr b j # col_cells j K) (hdr b j) \<and>
         fld Up s (hdr b j) = Some (last (hdr b j # col_cells j K)) \<and>
         (\<forall>a\<in>set (col_cells j K). fld Col s a = Some (hdr b j)) \<and>
         fld Meta s (hdr b j) \<noteq> None \<and>
         col_size s (hdr b j) = of_nat (length (col_cells j K))"
    and rows: "\<forall>r\<in>set K. r \<noteq> [] \<longrightarrow>
         path Right s (snd (hd r)) (map snd r) (snd (hd r)) \<and>
         fld Left s (snd (hd r)) = Some (snd (last r))"
    by blast+
  have brev': "building_rev s b n K" using brev by (simp add: K_def)
  from brev' [unfolded building_rev_def]
  have bh: "path Left s b (b # rev (map (hdr b) [0..<n])) b"
    and bcols: "\<forall>j<n. path Up s (hdr b j) (hdr b j # rev (col_cells j K)) (hdr b j)"
    and brows: "\<forall>r\<in>set K. r \<noteq> [] \<longrightarrow>
         path Left s (snd (hd r)) (snd (hd r) # rev (tl (map snd r))) (snd (hd r))"
    by blast+
  have hl: "a = b + 1 + n + length (concat K)" using hl0 by (simp add: a_def)
  have Aeq: "A = [b + 1 + n ..< a]" unfolding A_def hl by (rule A0)
  have dA: "distinct A" unfolding Aeq by simp
  have rA: "b + 1 + n \<le> x \<and> x < a" if "x \<in> set A" for x
    using that unfolding Aeq by simp
  have hdr_lt: "hdr b j' < b + 1 + n" if "j' < n" for j'
    using that by (simp add: hdr_def)
  have hdr_a: "hdr b j' < a" if "j' < n" for j'
    using hdr_lt [OF that] hl by simp
  have hdr_notA: "hdr b j' \<notin> set A" if "j' < n" for j'
    using hdr_lt [OF that] rA [of "hdr b j'"] by auto
  have ccA: "set (col_cells j' K) \<subseteq> set A" for j'
    unfolding A_def by (rule col_cells_subset)
  have cur_sub: "set (map snd cur) \<subseteq> set A" by (auto simp: A_def K_def)
  have lay_sub: "set (map snd r) \<subseteq> set A" if "r \<in> set lay" for r
    using that by (auto simp: A_def K_def)
  have lay_cur: "set (map snd r) \<inter> set (map snd cur) = {}" if "r \<in> set lay" for r
  proof -
    have "distinct (map snd (concat lay) @ map snd cur)" using dA by (simp add: A_def K_def)
    then have "set (map snd (concat lay)) \<inter> set (map snd cur) = {}" by simp
    moreover have "set (map snd r) \<subseteq> set (map snd (concat lay))" using that by auto
    ultimately show ?thesis by blast
  qed
  have dcur: "distinct (map snd cur)" using dA by (simp add: A_def K_def)
  have le: "length (heap s) \<le> length (heap s')" using len by (simp add: a_def)

  have c1: "path Left s' b (b # rev (map (hdr b) [0..<n])) b"
  proof (rule path_grow [OF bh le])
    show "\<forall>x\<in>set (b # rev (map (hdr b) [0..<n])). fld Left s' x = fld Left s x"
    proof
      fix x assume "x \<in> set (b # rev (map (hdr b) [0..<n]))"
      then have x: "x < b + 1 + n" by (auto simp: hdr_def)
      then have xa: "x \<le> a" "x \<noteq> a" using hl by simp_all
      have "x \<noteq> snd (hd cur)" if "cur \<noteq> []"
      proof -
        from that have "snd (hd cur) \<in> set (map snd cur)" by simp
        with cur_sub rA x show ?thesis by fastforce
      qed
      with L [OF xa(1)] xa(2) show "fld Left s' x = fld Left s x" by auto
    qed
  qed
  have c2: "path Up s' (hdr b j') (hdr b j' # rev (col_cells j' K')) (hdr b j')"
    if j': "j' < n" for j'
  proof -
    let ?h = "hdr b j'"
    let ?ns = "col_cells j' K"
    from bcols j' have p: "path Up s ?h (?h # rev ?ns) ?h" by simp
    from cols j' have up: "fld Up s ?h = Some (last (?h # ?ns))" by simp
    have ns_lt: "x < a" if "x \<in> set ?ns" for x using that ccA [of j'] rA by auto
    have ns_h: "x \<noteq> h" if "x \<in> set ?ns" for x
      using that ccA [of j'] hdr_notA [OF j] by (auto simp: h_def)
    have keep: "fld Up s' x = fld Up s x" if "x \<in> set ?ns" for x
      using U [of x] ns_lt [OF that] ns_h [OF that] by simp
    show ?thesis
    proof (cases "j' = j")
      case True
      then have hh: "?h = h" by (simp add: h_def)
      have uu: "u = last (?h # ?ns)" using True by (simp add: u_def K_def)
      from p obtain z where z: "fld Up s ?h = Some z" "path Up s z (rev ?ns) ?h"
        by (auto split: option.splits)
      with up uu have zu: "z = u" by simp
      have "path Up s' u (rev ?ns) ?h"
        using path_grow [OF z(2) le] keep zu by simp
      moreover have "fld Up s' a = Some u" "fld Up s' ?h = Some a"
        using U [of a] U [of ?h] hdr_a [OF j'] hh by simp_all
      ultimately have "path Up s' ?h (?h # a # rev ?ns) ?h"
        using len hdr_a [OF j'] by simp
      then show ?thesis using True by (simp add: cc)
    next
      case False
      then have hh: "?h \<noteq> h" by (simp add: h_def hdr_def)
      have "path Up s' ?h (?h # rev ?ns) ?h"
      proof (rule path_grow [OF p le])
        show "\<forall>x\<in>set (?h # rev ?ns). fld Up s' x = fld Up s x"
          using keep U [of ?h] hdr_a [OF j'] hh by simp
      qed
      then show ?thesis using False by (simp add: cc)
    qed
  qed
  have c3: "path Left s' (snd (hd r)) (snd (hd r) # rev (tl (map snd r))) (snd (hd r))"
    if r: "r \<in> set K'" "r \<noteq> []" for r
  proof -
    from r(1) have "r \<in> set lay \<or> r = cur @ [(j, a)]" by (auto simp: K'_def)
    then show ?thesis
    proof
      assume rl: "r \<in> set lay"
      then have "r \<in> set K" by (simp add: K_def)
      with brows r(2)
      have p: "path Left s (snd (hd r)) (snd (hd r) # rev (tl (map snd r))) (snd (hd r))"
        by auto
      have mem: "set (snd (hd r) # rev (tl (map snd r))) \<subseteq> set (map snd r)"
        using r(2) by (cases r) auto
      show ?thesis
      proof (rule path_grow [OF p le])
        show "\<forall>x\<in>set (snd (hd r) # rev (tl (map snd r))). fld Left s' x = fld Left s x"
        proof
          fix x assume "x \<in> set (snd (hd r) # rev (tl (map snd r)))"
          with mem have x: "x \<in> set (map snd r)" by blast
          then have xa: "x < a" using lay_sub [OF rl] rA by auto
          have xc: "x \<notin> set (map snd cur)" using x lay_cur [OF rl] by auto
          have "x \<noteq> snd (hd cur)" if "cur \<noteq> []"
          proof -
            from that have "snd (hd cur) \<in> set (map snd cur)" by simp
            with xc show ?thesis by metis
          qed
          with L [of x] xa show "fld Left s' x = fld Left s x" by auto
        qed
      qed
    next
      assume rc: "r = cur @ [(j, a)]"
      show ?thesis
      proof (cases "cur = []")
        case True
        with rc L [of a] len show ?thesis by simp
      next
        case False
        let ?p = "snd (hd cur)"
        let ?cs = "map snd cur"
        have "cur \<in> set K" by (simp add: K_def)
        with brows rows False have p: "path Left s ?p (?p # rev (tl ?cs)) ?p"
          and l: "fld Left s ?p = Some (snd (last cur))"
          by auto
        from p obtain z where z: "fld Left s ?p = Some z" "path Left s z (rev (tl ?cs)) ?p"
          by (auto split: option.splits)
        with l have zl: "z = snd (last cur)" by simp
        have cur_lt: "x < a" if "x \<in> set ?cs" for x using that cur_sub rA by auto
        have pin: "?p \<in> set ?cs" using False by simp
        have hdtl: "?cs = ?p # tl ?cs" using False by (cases cur) simp_all
        have "distinct (?p # tl ?cs)" using dcur hdtl by metis
        then have p_tl: "?p \<notin> set (tl ?cs)" by simp
        have "path Left s' (snd (last cur)) (rev (tl ?cs)) ?p"
        proof -
          have "\<forall>x\<in>set (rev (tl ?cs)). fld Left s' x = fld Left s x"
          proof
            fix x assume "x \<in> set (rev (tl ?cs))"
            then have xt: "x \<in> set (tl ?cs)" by simp
            then have "x \<in> set ?cs" using hdtl by (metis list.set_intros(2))
            then have xa: "x < a" by (rule cur_lt)
            from xt p_tl have "x \<noteq> ?p" by auto
            with L [of x] xa show "fld Left s' x = fld Left s x" by simp
          qed
          with path_grow [OF z(2) le] zl show ?thesis by simp
        qed
        moreover have "fld Left s' a = Some (snd (last cur))" "fld Left s' ?p = Some a"
          using L [of a] L [of ?p] cur_lt [OF pin] False by simp_all
        ultimately have "path Left s' ?p (?p # a # rev (tl ?cs)) ?p"
          using len cur_lt [OF pin] by simp
        moreover have "snd (hd r) = ?p" "rev (tl (map snd r)) = a # rev (tl ?cs)"
          using False by (simp_all add: rc)
        ultimately show ?thesis by simp
      qed
    qed
  qed
  show ?thesis
    unfolding building_rev_def K'_def [symmetric]
    using c1 c2 c3 by blast
qed

lemma ins_cell_rev:
  fixes s :: state
  assumes inv: "building s b n (lay @ [cur])" and brev: "building_rev s b n (lay @ [cur])"
    and j: "j < n"
  defines "s3 \<equiv> (if cur = [] then colappA (hdr b j) (length (heap s)) (fresh s)
     else rowappA (snd (hd cur)) (length (heap s)) (colappA (hdr b j) (length (heap s)) (fresh s)))"
  shows "building_rev s3 b n (lay @ [cur @ [(j, length (heap s))]])"
proof -
  let ?h = "hdr b j"
  define a where "a = length (heap s)"
  define s2 where "s2 = colappA ?h a (fresh s)"
  define K where "K = lay @ [cur]"
  define u where "u = last (?h # col_cells j K)"
  have inv': "building s b n K" using inv by (simp add: K_def)
  from inv' [unfolded building_def]
  have hl0: "length (heap s) = b + 1 + n + length (concat K)"
    and A0: "map snd (concat K) = [b + 1 + n ..< b + 1 + n + length (concat K)]"
    and cols: "\<forall>j<n. path Down s (hdr b j) (hdr b j # col_cells j K) (hdr b j) \<and>
         fld Up s (hdr b j) = Some (last (hdr b j # col_cells j K)) \<and>
         (\<forall>a\<in>set (col_cells j K). fld Col s a = Some (hdr b j)) \<and>
         fld Meta s (hdr b j) \<noteq> None \<and>
         col_size s (hdr b j) = of_nat (length (col_cells j K))"
    and rows: "\<forall>r\<in>set K. r \<noteq> [] \<longrightarrow>
         path Right s (snd (hd r)) (map snd r) (snd (hd r)) \<and>
         fld Left s (snd (hd r)) = Some (snd (last r))"
    by blast+
  from cols j have p: "path Down s ?h (?h # col_cells j K) ?h"
    and up: "fld Up s ?h = Some u" and mt: "fld Meta s ?h \<noteq> None"
    by (simp_all add: u_def)
  have uin: "u \<in> set (?h # col_cells j K)" unfolding u_def by (rule last_in_set) simp
  from path_valid [OF p] uin have u_lt: "u < a" and h_lt: "?h < a" by (auto simp: a_def)
  have f1: "?h < length (heap (fresh s))" "a < length (heap (fresh s))"
    "fld Up (fresh s) ?h = Some u" "u < length (heap (fresh s))" "a \<noteq> ?h" "a \<noteq> u"
    using u_lt h_lt up by (simp_all add: a_def)
  note cf = colappA_fields [OF f1, folded s2_def]
  have len2: "length (heap s2) = Suc a" by (simp add: s2_def a_def)
  have old: "fld f (fresh s) x = fld f s x" if "x < a" for x and f :: "node \<Rightarrow> addr option"
    using that by (simp add: a_def)
  have new: "fld Left (fresh s) a = Some a" by (simp add: a_def)
  have U2: "fld Up s2 x = (if x = ?h then Some a else if x = a then Some u else fld Up s x)"
    if "x \<le> a" for x
    using that old [of x Up] by (cases "x = a") (simp_all add: cf(2))
  have L2: "fld Left s2 x = (if x = a then Some a else fld Left s x)" if "x \<le> a" for x
    using that old [of x Left] new by (cases "x = a") (simp_all add: s2_def)
  have ujK: "u = last (hdr b j # col_cells j (lay @ [cur]))" by (simp add: u_def K_def)
  have s3: "s3 = (if cur = [] then s2 else rowappA (snd (hd cur)) a s2)"
    by (simp add: s3_def s2_def a_def)
  have "building_rev s3 b n (lay @ [cur @ [(j, a)]])"
  proof (cases "cur = []")
    case True
    then have e: "s3 = s2" by (simp add: s3)
    show ?thesis
    proof (rule building_rev_ins [OF inv brev j _ refl ujK])
      show "a = length (heap s)" by (simp add: a_def)
      show "length (heap s3) = Suc a" using len2 by (simp add: e)
      show "fld Left s3 x =
          (if cur \<noteq> [] \<and> x = snd (hd cur) then Some a
           else if x = a then Some (if cur = [] then a else snd (last cur))
           else fld Left s x)" if "x \<le> a" for x
        using L2 [OF that] True by (simp add: e)
    qed (simp_all only: e U2)
  next
    case False
    let ?p = "snd (hd cur)"
    let ?l = "snd (last cur)"
    have e: "s3 = rowappA ?p a s2" using False by (simp add: s3)
    have "cur \<in> set K" by (simp add: K_def)
    with rows False have l: "fld Left s ?p = Some ?l" by auto
    have "set (map snd cur) \<subseteq> set (map snd (concat K))" by (auto simp: K_def)
    then have cur_lt: "x < a" if "x \<in> set (map snd cur)" for x
      using that hl0 unfolding A0 a_def by auto
    have "?p \<in> set (map snd cur)" "?l \<in> set (map snd cur)" using False by simp_all
    then have p_lt: "?p < a" and l_lt: "?l < a" using cur_lt by blast+
    have f2: "?p < length (heap s2)" "a < length (heap s2)" "fld Left s2 ?p = Some ?l"
      "?l < length (heap s2)" "a \<noteq> ?p" "a \<noteq> ?l"
      using p_lt l_lt len2 L2 [of ?p] l by simp_all
    note rf = rowappA_fields [OF f2, folded e]
    have U3: "fld Up s3 x = fld Up s2 x" for x by (simp add: e)
    show ?thesis
    proof (rule building_rev_ins [OF inv brev j _ refl ujK])
      show "a = length (heap s)" by (simp add: a_def)
      show "length (heap s3) = Suc a" using len2 by (simp add: e)
      show "fld Left s3 x =
          (if cur \<noteq> [] \<and> x = snd (hd cur) then Some a
           else if x = a then Some (if cur = [] then a else snd (last cur))
           else fld Left s x)" if "x \<le> a" for x
        using that False L2 [of x] by (simp add: rf(2))
    qed (simp_all only: U3 U2)
  qed
  then show ?thesis by (simp add: a_def)
qed

lemma add_cells_step:
  assumes inv: "building s b n (lay @ [cur])" and j: "j < n" and jr: "j < length row"
  shows "add_cells row n j (if cur = [] then None else Some (snd (hd cur))) (Some (hdr b j)) s =
     (if 0 < row ! j then
        add_cells row n (Suc j)
          (if cur @ [(j, length (heap s))] = [] then None
           else Some (snd (hd (cur @ [(j, length (heap s))]))))
          (Some (if Suc j < n then hdr b (Suc j) else b))
          (if cur = [] then colappA (hdr b j) (length (heap s)) (fresh s)
           else rowappA (snd (hd cur)) (length (heap s))
                  (colappA (hdr b j) (length (heap s)) (fresh s)))
      else
        add_cells row n (Suc j) (if cur = [] then None else Some (snd (hd cur)))
          (Some (if Suc j < n then hdr b (Suc j) else b)) s)"
proof (cases "0 < row ! j")
  case False
  have nx: "get Right s (Some (hdr b j)) = ok (Some (if Suc j < n then hdr b (Suc j) else b))"
    using building_next(3,4) [OF inv j] by simp
  show ?thesis using j jr False nx by (subst add_cells.simps) simp
next
  case True
  let ?a = "length (heap s)"
  define s3 where "s3 = (if cur = [] then colappA (hdr b j) ?a (fresh s)
      else rowappA (snd (hd cur)) ?a (colappA (hdr b j) ?a (fresh s)))"
  note ops = ins_cell_ops [OF inv j, folded s3_def]
  have nx: "get Right s3 (Some (hdr b j)) = ok (Some (if Suc j < n then hdr b (Suc j) else b))"
    using building_next(3,4) [OF ops(3) j] by simp
  have prev': "(if cur @ [(j, ?a)] = [] then None else Some (snd (hd (cur @ [(j, ?a)])))) =
      (if cur = [] then Some ?a else Some (snd (hd cur)))"
    by (cases cur) simp_all
  have "add_cells row n j (if cur = [] then None else Some (snd (hd cur))) (Some (hdr b j)) s =
      add_cells row n (Suc j) (if cur = [] then Some ?a else Some (snd (hd cur)))
        (Some (if Suc j < n then hdr b (Suc j) else b)) s3"
  proof (cases "cur = []")
    case c: True
    then have "s3 = colappA (hdr b j) ?a (fresh s)" by (simp add: s3_def)
    with ops(1) have "ColAppend (Some (hdr b j)) (Some ?a) (fresh s) = ok s3" by simp
    with j jr True nx c show ?thesis
      by (subst add_cells.simps) (simp add: NewNode_fresh)
  next
    case c: False
    define s2 where "s2 = colappA (hdr b j) ?a (fresh s)"
    from ops(1,2) c have "ColAppend (Some (hdr b j)) (Some ?a) (fresh s) = ok s2"
      "RowAppend (Some (snd (hd cur))) (Some ?a) s2 = ok s3"
      by (simp_all add: s2_def)
    with j jr True nx c show ?thesis
      by (subst add_cells.simps) (simp add: NewNode_fresh)
  qed
  with True show ?thesis unfolding prev' s3_def by simp
qed

lemma add_cells_rev:
  assumes "building s b n (lay @ [cur])" and "building_rev s b n (lay @ [cur])"
    and "j \<le> n" and "n \<le> length row"
    and "add_cells row n j (if cur = [] then None else Some (snd (hd cur)))
             (Some (if j < n then hdr b j else b)) s = ok s'"
  shows "building_rev s' b n
             (lay @ [cur @ zip (filter (\<lambda>i. 0 < row ! i) [j..<n])
                [length (heap s) ..<
                 length (heap s) + length (filter (\<lambda>i. 0 < row ! i) [j..<n])]])"
  using assms
proof (induction "n - j" arbitrary: j cur s)
  case 0
  then have jn: "j = n" by simp
  have "add_cells row n j (if cur = [] then None else Some (snd (hd cur)))
      (Some (if j < n then hdr b j else b)) s = ok s"
    using jn by (subst add_cells.simps) simp
  with 0(6) have "s' = s" by simp
  with 0(3) jn show ?case by simp
next
  case (Suc k)
  then have j: "j < n" and jr: "j < length row" by simp_all
  let ?P = "\<lambda>i. 0 < row ! i"
  let ?a = "length (heap s)"
  have k: "k = n - Suc j" using Suc.hyps(2) by simp
  have sj: "Suc j \<le> n" using j by simp
  have upt: "[j..<n] = j # [Suc j..<n]" using j by (rule upt_conv_Cons)
  note st = add_cells_step [OF Suc.prems(1) j jr]
  show ?case
  proof (cases "0 < row ! j")
    case False
    with st Suc.prems(5) j
    have run: "add_cells row n (Suc j) (if cur = [] then None else Some (snd (hd cur)))
          (Some (if Suc j < n then hdr b (Suc j) else b)) s = ok s'"
      by simp
    have "filter ?P [j..<n] = filter ?P [Suc j..<n]" using False by (simp add: upt)
    with Suc.hyps(1) [OF k Suc.prems(1,2) sj Suc.prems(4) run] show ?thesis by simp
  next
    case True
    let ?cur' = "cur @ [(j, ?a)]"
    define s3 where "s3 = (if cur = [] then colappA (hdr b j) ?a (fresh s)
      else rowappA (snd (hd cur)) ?a (colappA (hdr b j) ?a (fresh s)))"
    note ops = ins_cell_ops [OF Suc.prems(1) j, folded s3_def]
    note r3 = ins_cell_rev [OF Suc.prems(1,2) j, folded s3_def]
    have len3: "length (heap s3) = Suc ?a"
      using building_length [OF ops(3)] building_length [OF Suc.prems(1)] by simp
    from st Suc.prems(5) j True
    have run: "add_cells row n (Suc j)
          (if ?cur' = [] then None else Some (snd (hd ?cur')))
          (Some (if Suc j < n then hdr b (Suc j) else b)) s3 = ok s'"
      by (simp add: s3_def)
    have fl: "filter ?P [j..<n] = j # filter ?P [Suc j..<n]" using True by (simp add: upt)
    have eq: "cur @ zip (filter ?P [j..<n]) [?a ..< ?a + length (filter ?P [j..<n])] =
        ?cur' @ zip (filter ?P [Suc j..<n]) [Suc ?a ..< Suc ?a + length (filter ?P [Suc j..<n])]"
      unfolding fl
      using zip_shift [of j "filter ?P [Suc j..<n]" ?a "length (filter ?P [Suc j..<n])"]
      by (simp del: upt_Suc)
    from Suc.hyps(1) [OF k ops(3) r3 sj Suc.prems(4) run]
    show ?thesis unfolding len3 eq .
  qed
qed

lemma building_rev_open: "building_rev s b n (lay @ [[]]) = building_rev s b n lay"
  by (simp add: building_rev_def col_cells_def)

lemma add_rows_rev:
  assumes "building s b n lay" and "building_rev s b n lay"
    and "\<forall>row\<in>set rows. n \<le> length row"
    and "add_rows rows n (Some b) s = ok s'"
  shows "building_rev s' b n (lay @ alloc (length (heap s)) (map (row_cols n) rows))"
  using assms
proof (induction rows arbitrary: s lay)
  case Nil
  then show ?case by simp
next
  case (Cons row rows)
  let ?js = "row_cols n row"
  let ?a = "length (heap s)"
  have op: "building s b n (lay @ [[]])" using Cons.prems(1) by (simp add: building_open)
  have opr: "building_rev s b n (lay @ [[]])" using Cons.prems(2) by (simp add: building_rev_open)
  have nr: "n \<le> length row" using Cons.prems(3) by simp
  from add_cells_build [OF op _ nr, of 0]
  obtain s1 where s1: "add_cells row n 0 None (Some (if 0 < n then hdr b 0 else b)) s = ok s1"
    "building s1 b n (lay @ [zip ?js [?a ..< ?a + length ?js]])"
    by (auto simp: row_cols_def)
  have r1: "building_rev s1 b n (lay @ [zip ?js [?a ..< ?a + length ?js]])"
    using add_cells_rev [OF op opr _ nr, of 0 s1] s1(1) by (simp add: row_cols_def)
  have len1: "length (heap s1) = ?a + length ?js"
    using building_length [OF s1(2)] building_length [OF Cons.prems(1)]
    by (simp del: upt_Suc)
  have run: "add_rows rows n (Some b) s1 = ok s'"
    using building_next(1,2) [OF Cons.prems(1)] s1(1) Cons.prems(4) by simp
  from Cons.IH [OF s1(2) r1 _ run] Cons.prems(3)
  show ?case unfolding len1 by simp
qed

lemma hdrs_rev_step:
  fixes s :: state and h :: string
  assumes inv: "hdrs s b names"
    and lp: "path Left s b (b # rev (map (hdr b) [0..<length names])) b"
  defines "s1 \<equiv> upd (length (heap s)) (Meta_update (\<lambda>_. Some \<lparr>Size = 0, Name = h\<rparr>)) (fresh s)"
  shows "path Left (rowappA b (length (heap s)) s1) b
           (b # rev (map (hdr b) [0..<length (names @ [h])])) b"
proof -
  let ?k = "length names"
  let ?xs = "b # map (hdr b) [0..<?k]"
  define a where "a = length (heap s)"
  define l where "l = last ?xs"
  define s2 where "s2 = rowappA b a s1"
  from inv [unfolded hdrs_def]
  have len: "length (heap s) = b + 1 + ?k"
    and left: "fld Left s b = Some l"
    unfolding l_def by blast+
  have a: "a = hdr b ?k" using len by (simp add: a_def hdr_def)
  have s1a: "s1 = upd a (Meta_update (\<lambda>_. Some \<lparr>Size = 0, Name = h\<rparr>)) (fresh s)"
    by (simp add: s1_def a_def)
  have len1: "length (heap s1) = Suc a" by (simp add: s1a a_def)
  have xs_lt: "x < a" if "x \<in> set ?xs" for x using that len by (auto simp: a_def hdr_def)
  have lin: "l \<in> set ?xs" unfolding l_def by (rule last_in_set) simp
  have b_lt: "b < a" and l_lt: "l < a" using xs_lt lin by simp_all
  have old: "fld f s1 x = fld f s x" if "x < a" for x and f :: "node \<Rightarrow> addr option"
    using that by (simp add: s1a fld_upd a_def)
  have f2: "b < length (heap s1)" "a < length (heap s1)" "fld Left s1 b = Some l"
    "l < length (heap s1)" "a \<noteq> b" "a \<noteq> l"
    using b_lt l_lt len1 old [OF b_lt, of Left] left by simp_all
  note rf = rowappA_fields [OF f2, folded s2_def]
  have len2: "length (heap s2) = Suc a" using len1 by (simp add: s2_def)
  have le: "length (heap s) \<le> length (heap s2)" using len2 by (simp add: a_def)
  from lp obtain z where z: "fld Left s b = Some z"
    "path Left s z (rev (map (hdr b) [0..<?k])) b"
    by (auto split: option.splits)
  with left have zl: "z = l" by simp
  have "\<forall>x\<in>set (rev (map (hdr b) [0..<?k])). fld Left s2 x = fld Left s x"
  proof
    fix x assume "x \<in> set (rev (map (hdr b) [0..<?k]))"
    then have "x \<in> set ?xs" "x \<noteq> b" by (auto simp: hdr_def)
    with rf(2) [of x] xs_lt [of x] old [of x Left] show "fld Left s2 x = fld Left s x"
      by simp
  qed
  with path_grow [OF z(2) le] zl
  have "path Left s2 l (rev (map (hdr b) [0..<?k])) b" by simp
  moreover have "fld Left s2 a = Some l" "fld Left s2 b = Some a"
    using rf(2) [of a] rf(2) [of b] f2(5) by simp_all
  ultimately have "path Left s2 b (b # a # rev (map (hdr b) [0..<?k])) b"
    using len2 b_lt by simp
  then show ?thesis by (simp add: a s2_def a_def [symmetric])
qed

lemma add_headers_rev:
  "hdrs s b names \<Longrightarrow> path Left s b (b # rev (map (hdr b) [0..<length names])) b \<Longrightarrow>
   add_headers hs (Some b) s = ok s' \<Longrightarrow>
   path Left s' b (b # rev (map (hdr b) [0..<length (names @ hs)])) b"
proof (induction hs arbitrary: s names)
  case Nil
  then have "s' = s" by simp
  with Nil(2) show ?case by simp
next
  case (Cons h hs)
  note st = hdrs_step [OF Cons.prems(1), where h = h]
  note rv = hdrs_rev_step [OF Cons.prems(1,2), where h = h]
  from Cons.prems(3) st(1,2)
  have "add_headers hs (Some b)
      (rowappA b (length (heap s))
         (upd (length (heap s)) (Meta_update (\<lambda>_. Some \<lparr>Size = 0, Name = h\<rparr>)) (fresh s))) = ok s'"
    by simp
  from Cons.IH [OF st(3) rv this] show ?case by simp
qed

lemma hdrs_building_rev:
  assumes "hdrs s b names"
    and "path Left s b (b # rev (map (hdr b) [0..<length names])) b"
  shows "building_rev s b (length names) []"
proof -
  from assms(1) [unfolded hdrs_def]
  have len: "length (heap s) = b + 1 + length names"
    and cols: "\<forall>j<length names. fld Down s (hdr b j) = Some (hdr b j) \<and>
         fld Up s (hdr b j) = Some (hdr b j) \<and>
         fld Meta s (hdr b j) = Some \<lparr>Size = 0, Name = names ! j\<rparr>"
    by blast+
  have "path Up s (hdr b j) (hdr b j # rev (col_cells j [])) (hdr b j)" if "j < length names" for j
    using cols that len by (simp add: col_cells_def hdr_def)
  with assms(2) show ?thesis unfolding building_rev_def by simp
qed

lemma NewSparseMatrix_rev:
  assumes rect: "\<forall>row\<in>set matrix. length row = length headers"
    and nonneg: "\<forall>row\<in>set matrix. \<forall>x\<in>set row. 0 \<le> x"
    and run: "NewSparseMatrix matrix headers s = ok (r, s')"
  shows "building_rev s' (length (heap s)) (length headers)
       (alloc (length (heap s) + 1 + length headers)
          (map (nonzero_cols (length headers)) matrix))"
proof -
  let ?b = "length (heap s)"
  let ?n = "length headers"
  define s0 where "s0 = s\<lparr>heap := heap s @
      [\<lparr>Right = None, Up = None, Left = None, Down = None, Col = None,
        Meta = Some \<lparr>Size = 0, Name = ''root''\<rparr>\<rparr>]\<rparr>"
  define s2 where "s2 = upd ?b (Right_update (\<lambda>_. Some ?b)) (upd ?b (Left_update (\<lambda>_. Some ?b)) s0)"
  have len0: "length (heap s0) = Suc ?b" by (simp add: s0_def)
  have h0: "hdrs s2 ?b []"
    unfolding hdrs_def using len0 by (simp add: s2_def)
  have l0: "path Left s2 ?b (?b # rev (map (hdr ?b) [0..<length ([] :: string list)])) ?b"
    using len0 by (simp add: s2_def)
  from add_headers_build [OF h0, of headers]
  obtain s3 where s3: "add_headers headers (Some ?b) s2 = ok s3" "hdrs s3 ?b headers"
    by auto
  from add_headers_rev [OF h0 l0 s3(1)]
  have l3: "path Left s3 ?b (?b # rev (map (hdr ?b) [0..<?n])) ?b" by simp
  note b3 = hdrs_building [OF s3(2)]
  note r3 = hdrs_building_rev [OF s3(2) l3]
  have len3: "length (heap s3) = ?b + 1 + ?n"
    using building_length [OF b3(1)] by simp
  have wide: "\<forall>row\<in>set matrix. ?n \<le> length row" using rect by simp
  from add_rows_build [OF b3(1) wide]
  obtain s4 where s4: "add_rows matrix ?n (Some ?b) s3 = ok s4" by blast
  from add_rows_rev [OF b3(1) r3 wide s4]
  have r4: "building_rev s4 ?b ?n ([] @ alloc (?b + 1 + ?n) (map (row_cols ?n) matrix))"
    unfolding len3 .
  have "map (row_cols ?n) matrix = map (nonzero_cols ?n) matrix"
    using rect nonneg by (intro map_cong refl row_cols_nonzero) simp_all
  with r4 have rv: "building_rev s4 ?b ?n (alloc (?b + 1 + ?n) (map (nonzero_cols ?n) matrix))"
    by simp
  have "NewSparseMatrix matrix headers s = ok (Some ?b, s4)"
    using len0 s3(1) s4
    by (simp add: NewSparseMatrix_def s0_def [symmetric] s2_def [symmetric])
  with run have "s' = s4" by simp
  with rv show ?thesis by simp
qed

text \<open>The matrix of a layout: every column is live and every node is linked.\<close>

definition am_of :: "addr \<Rightarrow> nat \<Rightarrow> layout \<Rightarrow> amatrix" where
  "am_of b n lay =
     \<lparr>am_root = b, am_live = map (hdr b) [0..<n],
      am_cols = map (\<lambda>j. (hdr b j, col_cells j lay)) [0..<n],
      am_rows = filter (\<lambda>r. r \<noteq> []) (map (map snd) lay)\<rparr>"

lemma concat_filter_nonempty: "concat (filter (\<lambda>r. r \<noteq> []) xss) = concat xss"
  by (induction xss) auto

lemma am_of_simps:
  "am_root (am_of b n lay) = b"
  "am_live (am_of b n lay) = map (hdr b) [0..<n]"
  "am_headers (am_of b n lay) = map (hdr b) [0..<n]"
  "am_cols (am_of b n lay) = map (\<lambda>j. (hdr b j, col_cells j lay)) [0..<n]"
  "am_linked (am_of b n lay) = concat (map (\<lambda>j. col_cells j lay) [0..<n])"
  "am_rows (am_of b n lay) = filter (\<lambda>r. r \<noteq> []) (map (map snd) lay)"
  "am_data (am_of b n lay) = map snd (concat lay)"
  by (simp_all add: am_of_def am_headers_def am_linked_def am_data_def comp_def
      concat_filter_nonempty map_concat)

lemma building_wf:
  assumes inv: "building s b n lay" and brev: "building_rev s b n lay"
    and rowd: "\<forall>r\<in>set lay. distinct (map fst r)"
  shows "wf_matrix s (am_of b n lay)"
proof -
  define A where "A = map snd (concat lay)"
  define H where "H = map (hdr b) [0..<n]"
  define N where "N = concat (map (\<lambda>j. col_cells j lay) [0..<n])"
  from inv [unfolded building_def]
  have hl: "length (heap s) = b + 1 + n + length (concat lay)"
    and A0: "map snd (concat lay) = [b + 1 + n ..< b + 1 + n + length (concat lay)]"
    and jn: "\<forall>(j, x)\<in>set (concat lay). j < n"
    and hp: "path Right s b (b # map (hdr b) [0..<n]) b"
    and cols: "\<forall>j<n. path Down s (hdr b j) (hdr b j # col_cells j lay) (hdr b j) \<and>
         fld Up s (hdr b j) = Some (last (hdr b j # col_cells j lay)) \<and>
         (\<forall>a\<in>set (col_cells j lay). fld Col s a = Some (hdr b j)) \<and>
         fld Meta s (hdr b j) \<noteq> None \<and>
         col_size s (hdr b j) = of_nat (length (col_cells j lay))"
    and rows: "\<forall>r\<in>set lay. r \<noteq> [] \<longrightarrow>
         path Right s (snd (hd r)) (map snd r) (snd (hd r)) \<and>
         fld Left s (snd (hd r)) = Some (snd (last r))"
    by blast+
  from brev [unfolded building_rev_def]
  have bh: "path Left s b (b # rev (map (hdr b) [0..<n])) b"
    and bcols: "\<forall>j<n. path Up s (hdr b j) (hdr b j # rev (col_cells j lay)) (hdr b j)"
    and brows: "\<forall>r\<in>set lay. r \<noteq> [] \<longrightarrow>
         path Left s (snd (hd r)) (snd (hd r) # rev (tl (map snd r))) (snd (hd r))"
    by blast+
  have Aeq: "A = [b + 1 + n ..< b + 1 + n + length (concat lay)]" unfolding A_def by (rule A0)
  have dA: "distinct A" unfolding Aeq by (simp del: upt_Suc)
  have rA: "b + 1 + n \<le> x \<and> x < length (heap s)" if "x \<in> set A" for x
    using that hl unfolding Aeq by (simp del: upt_Suc)
  have rH: "b < x \<and> x < b + 1 + n" if "x \<in> set H" for x
    using that by (auto simp: H_def hdr_def)
  have dH: "distinct H" by (auto simp: H_def distinct_map hdr_def inj_on_def)
  have ccA: "set (col_cells j lay) \<subseteq> set A" for j
    unfolding A_def by (rule col_cells_subset)
  have dcc: "distinct (col_cells j lay)" for j
    using col_cells_distinct [of lay j] dA by (simp add: A_def)
  have NA: "set N = set A"
  proof
    show "set N \<subseteq> set A" using ccA by (auto simp: N_def)
    show "set A \<subseteq> set N"
    proof
      fix x assume "x \<in> set A"
      then have "x \<in> snd ` set (concat lay)" unfolding A_def set_map .
      then obtain j where jx: "(j, x) \<in> set (concat lay)" by force
      with jn have "case (j, x) of (j, x) \<Rightarrow> j < n" by blast
      then have "j < n" by simp
      moreover from jx have "x \<in> set (col_cells j lay)" by (force simp: col_cells_def)
      ultimately show "x \<in> set N" by (auto simp: N_def)
    qed
  qed
  have dN: "distinct N"
    unfolding N_def
  proof (rule distinct_concat_map)
    show "distinct [0..<n]" by simp
    show "\<forall>i\<in>set [0..<n]. distinct (col_cells i lay)" using dcc by simp
    show "\<forall>i\<in>set [0..<n]. \<forall>k\<in>set [0..<n]. i \<noteq> k \<longrightarrow>
        set (col_cells i lay) \<inter> set (col_cells k lay) = {}"
      using col_cells_disjoint [of lay] dA by (simp add: A_def)
  qed
  have w1: "distinct (b # H @ A)" using dH dA rH rA by fastforce
  have w2: "\<forall>a\<in>set (b # H @ A). a < length (heap s)" using rH rA hl by fastforce
  have w6: "linv Right Left s (set (b # H))"
    unfolding H_def by (rule ring_linv [OF hp bh])
  have colring: "linv Down Up s (set (hdr b j # col_cells j lay))" if "j < n" for j
    using cols bcols that by (intro ring_linv) simp_all
  have w9: "linv Down Up s (set (H @ N))"
  proof -
    have "set (H @ N) = \<Union>((\<lambda>j. set (hdr b j # col_cells j lay)) ` {..<n})"
      by (auto simp: H_def N_def)
    moreover have "linv Down Up s (\<Union>((\<lambda>j. set (hdr b j # col_cells j lay)) ` {..<n}))"
    proof (rule linv_Union)
      fix X assume "X \<in> (\<lambda>j. set (hdr b j # col_cells j lay)) ` {..<n}"
      then obtain j where j: "j < n" and X: "X = set (hdr b j # col_cells j lay)" by blast
      show "linv Down Up s X" unfolding X by (rule colring [OF j])
    qed
    ultimately show ?thesis by simp
  qed
  have w10: "\<forall>(c, ns)\<in>set (map (\<lambda>j. (hdr b j, col_cells j lay)) [0..<n]).
         path Down s c (c # ns) c \<and> (\<forall>n\<in>set ns. fld Col s n = Some c) \<and>
         fld Meta s c \<noteq> None \<and> col_size s c = of_nat (length ns)"
    using cols by auto
  have rowring: "linv Right Left s (set (map snd r))" if r: "r \<in> set lay" "r \<noteq> []" for r
  proof -
    have e: "map snd r = snd (hd r) # tl (map snd r)" using r(2) by (cases r) simp_all
    from rows r have "path Right s (snd (hd r)) (map snd r) (snd (hd r))" by simp
    with e have p: "path Right s (snd (hd r)) (snd (hd r) # tl (map snd r)) (snd (hd r))"
      by metis
    from brows r
    have q: "path Left s (snd (hd r)) (snd (hd r) # rev (tl (map snd r))) (snd (hd r))"
      by simp
    from ring_linv [OF p q] e show ?thesis by metis
  qed
  have w11: "linv Right Left s (set A)"
  proof -
    have "set A = \<Union>((\<lambda>r. set (map snd r)) ` {r \<in> set lay. r \<noteq> []})"
      by (auto simp: A_def)
    moreover have "linv Right Left s (\<Union>((\<lambda>r. set (map snd r)) ` {r \<in> set lay. r \<noteq> []}))"
    proof (rule linv_Union)
      fix X assume "X \<in> (\<lambda>r. set (map snd r)) ` {r \<in> set lay. r \<noteq> []}"
      then obtain r where r: "r \<in> set lay" "r \<noteq> []" and X: "X = set (map snd r)" by blast
      show "linv Right Left s X" unfolding X by (rule rowring [OF r])
    qed
    ultimately show ?thesis by simp
  qed
  have w12: "r \<noteq> [] \<and> path Right s (hd r) r (hd r) \<and>
         (\<forall>n\<in>set r. \<exists>c\<in>set H. fld Col s n = Some c) \<and>
         distinct (map (fld Col s) r) \<and> set r \<subseteq> set N"
    if "r \<in> set (filter (\<lambda>r. r \<noteq> []) (map (map snd) lay))" for r
  proof -
    from that obtain r0 where r0: "r0 \<in> set lay" "r = map snd r0" "r0 \<noteq> []" by auto
    have hd: "hd r = snd (hd r0)" using r0 by (simp add: hd_map)
    have colx: "fld Col s (snd e) = Some (hdr b (fst e)) \<and> fst e < n" if "e \<in> set r0" for e
    proof -
      from that r0(1) have m: "(fst e, snd e) \<in> set (concat lay)" by auto
      with jn have "case (fst e, snd e) of (j, x) \<Rightarrow> j < n" by blast
      then have lt: "fst e < n" by (simp only: prod.case)
      from m have "snd e \<in> set (col_cells (fst e) lay)" by (force simp: col_cells_def)
      with cols lt show ?thesis by simp
    qed
    have 1: "path Right s (hd r) r (hd r)" using rows r0 hd by simp
    have 2: "\<forall>x\<in>set r. \<exists>c\<in>set H. fld Col s x = Some c"
    proof
      fix x assume "x \<in> set r"
      then obtain e where e: "e \<in> set r0" "x = snd e" using r0(2) by auto
      from colx [OF e(1)] e(2) show "\<exists>c\<in>set H. fld Col s x = Some c"
        by (auto simp: H_def)
    qed
    have "map (fld Col s) r = map (\<lambda>e. Some (hdr b (fst e))) r0"
      using colx by (simp add: r0(2))
    also have "\<dots> = map (\<lambda>j. Some (hdr b j)) (map fst r0)" by simp
    finally have "distinct (map (fld Col s) r) = distinct (map (\<lambda>j. Some (hdr b j)) (map fst r0))"
      by simp
    moreover have "distinct (map (\<lambda>j. Some (hdr b j)) (map fst r0))"
    proof -
      have d0: "distinct (map fst r0)" using rowd r0(1) by blast
      have "inj_on (\<lambda>j. Some (hdr b j)) (set (map fst r0))"
        by (simp add: inj_on_def hdr_def)
      with d0 show ?thesis
        unfolding distinct_map [of "\<lambda>j. Some (hdr b j)" "map fst r0"] by blast
    qed
    ultimately have 3: "distinct (map (fld Col s) r)" by simp
    have "set r \<subseteq> set A" using r0 by (auto simp: A_def)
    with NA have 4: "set r \<subseteq> set N" by simp
    from r0 1 2 3 4 show ?thesis by simp
  qed
  show ?thesis
    unfolding wf_matrix_def am_of_simps
    unfolding A_def [symmetric] H_def [symmetric] N_def [symmetric]
    using w1 w2 dH hp [folded H_def] w6 dN NA w9 w10 [folded H_def] w11 w12
    by (intro conjI ballI) (auto simp: H_def)
qed

lemma alloc_fst: "r \<in> set (alloc a jss) \<Longrightarrow> map fst r \<in> set jss"
proof (induction jss arbitrary: a)
  case Nil
  then show ?case by simp
next
  case (Cons js jss)
  from Cons.prems have "r = zip js [a..<a + length js] \<or> r \<in> set (alloc (a + length js) jss)"
    by simp
  then show ?case
  proof
    assume "r = zip js [a..<a + length js]"
    then have "map fst r = js" by (simp del: upt_Suc)
    then show ?thesis by simp
  next
    assume "r \<in> set (alloc (a + length js) jss)"
    from Cons.IH [OF this] show ?thesis by simp
  qed
qed

text \<open>
  What \<^verbatim>\<open>NewSparseMatrix\<close> builds from a rectangular matrix with no negative cell is a
  well-formed matrix in which every column is live and every node is linked.
\<close>

lemma NewSparseMatrix_wf:
  assumes rect: "\<forall>row\<in>set matrix. length row = length headers"
    and nonneg: "\<forall>row\<in>set matrix. \<forall>x\<in>set row. 0 \<le> x"
  shows "\<exists>s'. NewSparseMatrix matrix headers s = ok (Some (length (heap s)), s') \<and>
     wf_matrix s' (am_of (length (heap s)) (length headers)
       (alloc (length (heap s) + 1 + length headers)
          (map (nonzero_cols (length headers)) matrix)))"
proof -
  let ?lay = "alloc (length (heap s) + 1 + length headers)
          (map (nonzero_cols (length headers)) matrix)"
  from NewSparseMatrix_building [OF assms, of s]
  obtain s' where s': "NewSparseMatrix matrix headers s = ok (Some (length (heap s)), s')"
    "building s' (length (heap s)) (length headers) ?lay"
    by blast
  note rv = NewSparseMatrix_rev [OF assms s'(1)]
  have "\<forall>r\<in>set ?lay. distinct (map fst r)"
  proof
    fix r assume "r \<in> set ?lay"
    from alloc_fst [OF this] obtain row where "map fst r = nonzero_cols (length headers) row"
      by auto
    then show "distinct (map fst r)" by (simp add: nonzero_cols_def)
  qed
  from building_wf [OF s'(2) rv this] s'(1) show ?thesis by blast
qed

text \<open>
  C9. For a rectangular matrix with no negative cell, \<^verbatim>\<open>NewSparseMatrix\<close> returns the
  root, allocated first, then one header per name, in the header row in the order of
  the names, then for every input row one node per cell that is not zero, in the
  order of the columns: each node is at the bottom of its column and at the end of
  the list of its row, and a row without such a cell has no node. Nothing else is
  allocated: the heap grows by the root, the headers and one node per cell that is
  not zero. The header row, the columns and the rows are rings in both directions:
  the result is a well-formed matrix.
\<close>

theorem NewSparseMatrix_builds:
  assumes "\<forall>row\<in>set matrix. length row = length headers"
    and "\<forall>row\<in>set matrix. \<forall>x\<in>set row. 0 \<le> x"
  shows "\<exists>s'. NewSparseMatrix matrix headers s = ok (Some (length (heap s)), s') \<and>
     building s' (length (heap s)) (length headers)
       (alloc (length (heap s) + 1 + length headers)
          (map (nonzero_cols (length headers)) matrix)) \<and>
     map (col_name s') (map (hdr (length (heap s))) [0..<length headers]) = headers \<and>
     length (heap s') =
       length (heap s) + 1 + length headers +
       sum_list (map (\<lambda>row. length (filter (\<lambda>x. x \<noteq> 0) row)) matrix) \<and>
     wf_matrix s' (am_of (length (heap s)) (length headers)
       (alloc (length (heap s) + 1 + length headers)
          (map (nonzero_cols (length headers)) matrix)))"
proof -
  from NewSparseMatrix_building [OF assms, of s]
  obtain s' where s': "NewSparseMatrix matrix headers s = ok (Some (length (heap s)), s')"
    "building s' (length (heap s)) (length headers)
       (alloc (length (heap s) + 1 + length headers)
          (map (nonzero_cols (length headers)) matrix))"
    "map (col_name s') (map (hdr (length (heap s))) [0..<length headers]) = headers"
    by blast
  from NewSparseMatrix_wf [OF assms, of s] s'(1)
  have wf: "wf_matrix s' (am_of (length (heap s)) (length headers)
       (alloc (length (heap s) + 1 + length headers)
          (map (nonzero_cols (length headers)) matrix)))"
    by auto
  have "map (length \<circ> nonzero_cols (length headers)) matrix =
      map (\<lambda>row. length (filter (\<lambda>x. x \<noteq> 0) row)) matrix"
  proof (rule map_cong [OF refl])
    fix row assume "row \<in> set matrix"
    with assms(1) have "length row = length headers" by simp
    with length_nonzero_cols [of row]
    show "(length \<circ> nonzero_cols (length headers)) row = length (filter (\<lambda>x. x \<noteq> 0) row)"
      by simp
  qed
  with building_length [OF s'(2)]
  have "length (heap s') =
       length (heap s) + 1 + length headers +
       sum_list (map (\<lambda>row. length (filter (\<lambda>x. x \<noteq> 0) row)) matrix)"
    by (simp add: length_alloc)
  with s' wf show ?thesis by blast
qed

lemma knuth_layout:
  "alloc (length (heap empty_state) + 1 + length knuth_headers)
     (map (nonzero_cols (length knuth_headers)) knuth) =
   [[(2, 8), (4, 9), (5, 10)], [(0, 11), (3, 12), (6, 13)], [(1, 14), (2, 15), (5, 16)],
    [(0, 17), (3, 18)], [(1, 19), (6, 20)], [(3, 21), (4, 22), (6, 23)]]"
  by code_simp

theorem NewSparseMatrix_builds_witness:
  "\<exists>s'. NewSparseMatrix knuth knuth_headers empty_state = ok (Some 0, s') \<and>
     building s' 0 7
       [[(2, 8), (4, 9), (5, 10)], [(0, 11), (3, 12), (6, 13)], [(1, 14), (2, 15), (5, 16)],
        [(0, 17), (3, 18)], [(1, 19), (6, 20)], [(3, 21), (4, 22), (6, 23)]] \<and>
     map (col_name s') (map (hdr 0) [0..<7]) = knuth_headers \<and>
     length (heap s') = 24"
proof -
  have rect: "\<forall>row\<in>set knuth. length row = length knuth_headers"
    by (simp add: knuth_def knuth_headers_def)
  have nonneg: "\<forall>row\<in>set knuth. \<forall>x\<in>set row. 0 \<le> x"
    by (simp add: knuth_def)
  have n: "length knuth_headers = 7" by (simp add: knuth_headers_def)
  have b: "length (heap empty_state) = 0" by (simp add: empty_state_def)
  have cells: "sum_list (map (\<lambda>row. length (filter (\<lambda>x. x \<noteq> 0) row)) knuth) = 16"
    by (simp add: knuth_def)
  from NewSparseMatrix_builds [OF rect nonneg, of empty_state]
  obtain s' where "NewSparseMatrix knuth knuth_headers empty_state = ok (Some 0, s')"
    "building s' 0 7
       [[(2, 8), (4, 9), (5, 10)], [(0, 11), (3, 12), (6, 13)], [(1, 14), (2, 15), (5, 16)],
        [(0, 17), (3, 18)], [(1, 19), (6, 20)], [(3, 21), (4, 22), (6, 23)]]"
    "map (col_name s') (map (hdr 0) [0..<7]) = knuth_headers"
    "length (heap s') = 24"
    unfolding knuth_layout unfolding n b cells by auto
  then show ?thesis by blast
qed

end
